(* ===== verification/Prelude.thy ===== *)
theory Prelude
  imports Complex_Main "HOL-Library.Word" "HOL-Library.Char_ord" "HOL-Library.List_Lexorder"
    "HOL-Library.Product_Lexorder" "HOL-Library.Multiset" "HOL-Library.AList"
begin

text \<open>
  The shared layer of the development: the machine integers of the Rust sources as words, panics
  and indexing as values of a sum type, and the generic facts on lists that the component theories
  use.

  A computation that can panic has type \<open>'a run\<close>, that is \<open>string + 'a\<close>: \<open>Inl msg\<close> is the
  panic and \<open>Inr x\<close> the returned value. Arithmetic wraps at its width, as it does in the release
  profile of \<^verbatim>\<open>src/Cargo.toml\<close> (\<^verbatim>\<open>debug-assertions = false\<close>).
\<close>

section \<open>Collections of rewrite rules\<close>

named_theorems run_simps \<open>unfolding of computations that may panic\<close>
named_theorems bind_simps \<open>facts on which variables a binding binds\<close>

section \<open>Machine integers\<close>

type_synonym u32 = "32 word"
type_synonym u64 = "64 word"
type_synonym i64 = "64 word"
type_synonym usize = nat

text \<open>\<^verbatim>\<open>u64::checked_sub\<close>.\<close>

definition u64_checked_sub :: "u64 \<Rightarrow> u64 \<Rightarrow> u64 option" where
  "u64_checked_sub a b = (if b \<le> a then Some (a - b) else None)"

lemma u64_checked_sub_Some: "u64_checked_sub a b = Some c \<Longrightarrow> b \<le> a \<and> unat c = unat a - unat b"
  by (auto simp: u64_checked_sub_def word_le_nat_alt unat_sub split: if_splits)

lemma u64_checked_sub_None: "u64_checked_sub a b = None \<longleftrightarrow> a < b"
  by (auto simp: u64_checked_sub_def)

section \<open>Panics\<close>

type_synonym 'a run = "string + 'a"

fun run_bind :: "'a run \<Rightarrow> ('a \<Rightarrow> 'b run) \<Rightarrow> 'b run" where
  "run_bind (Inl m) f = Inl m"
| "run_bind (Inr x) f = f x"

fun run_map :: "('a \<Rightarrow> 'b run) \<Rightarrow> 'a list \<Rightarrow> 'b list run" where
  "run_map f [] = Inr []"
| "run_map f (x # xs) = run_bind (f x) (\<lambda>y. run_bind (run_map f xs) (\<lambda>ys. Inr (y # ys)))"

definition returns :: "'a run \<Rightarrow> bool" where
  "returns r \<longleftrightarrow> (\<exists>x. r = Inr x)"

text \<open>\<^verbatim>\<open>v[i]\<close> on a \<^verbatim>\<open>Vec\<close>, which panics out of range, and \<^verbatim>\<open>Option::expect\<close>.\<close>

definition vec_index :: "'a list \<Rightarrow> usize \<Rightarrow> 'a run" where
  "vec_index xs i = (if i < length xs then Inr (xs ! i) else Inl ''index out of bounds'')"

definition expect :: "string \<Rightarrow> 'a option \<Rightarrow> 'a run" where
  "expect m x = (case x of None \<Rightarrow> Inl m | Some y \<Rightarrow> Inr y)"

lemma run_bind_eq_Inr [run_simps]:
  "run_bind r f = Inr y \<longleftrightarrow> (\<exists>x. r = Inr x \<and> f x = Inr y)"
  by (cases r) auto

lemma run_bind_eq_Inl [run_simps]:
  "run_bind r f = Inl m \<longleftrightarrow> r = Inl m \<or> (\<exists>x. r = Inr x \<and> f x = Inl m)"
  by (cases r) auto

lemma run_bind_returns [run_simps]:
  "returns (run_bind r f) \<longleftrightarrow> (\<exists>x. r = Inr x \<and> returns (f x))"
  by (cases r) (auto simp: returns_def)

lemma run_bind_Inr_right [simp]: "run_bind r Inr = r"
  by (cases r) auto

lemma run_map_Inr: "run_map f xs = Inr ys \<longleftrightarrow> list_all2 (\<lambda>x y. f x = Inr y) xs ys"
  by (induction xs arbitrary: ys) (auto simp: run_simps list_all2_Cons1)

lemma run_map_length: "run_map f xs = Inr ys \<Longrightarrow> length ys = length xs"
  by (auto simp: run_map_Inr dest: list_all2_lengthD)

lemma run_map_total: "(\<And>x. x \<in> set xs \<Longrightarrow> f x = Inr (g x)) \<Longrightarrow> run_map f xs = Inr (map g xs)"
  by (induction xs) auto

lemma run_map_cong [fundef_cong]:
  "xs = ys \<Longrightarrow> (\<And>x. x \<in> set ys \<Longrightarrow> f x = g x) \<Longrightarrow> run_map f xs = run_map g ys"
  by (induction ys arbitrary: xs) auto

lemma run_map_append:
  "run_map f (xs @ ys) = run_bind (run_map f xs) (\<lambda>a. run_bind (run_map f ys) (\<lambda>b. Inr (a @ b)))"
proof (induction xs)
  case Nil
  then show ?case by simp
next
  case (Cons x xs)
  then show ?case
    by (cases "f x"; cases "run_map f xs"; cases "run_map f ys") auto
qed

lemma vec_index_Inr [run_simps]: "vec_index xs i = Inr x \<longleftrightarrow> i < length xs \<and> xs ! i = x"
  by (auto simp: vec_index_def)

lemma expect_Inr [run_simps]: "expect m x = Inr y \<longleftrightarrow> x = Some y"
  by (cases x) (auto simp: expect_def)

lemma returns_Inr [simp]: "returns (Inr x)"
  by (simp add: returns_def)

lemma returns_Inl [simp]: "\<not> returns (Inl m)"
  by (simp add: returns_def)

section \<open>Lists\<close>

text \<open>\<^verbatim>\<open>Iterator::position\<close>: the offset of the first element that satisfies the predicate.\<close>

fun position :: "('a \<Rightarrow> bool) \<Rightarrow> 'a list \<Rightarrow> usize option" where
  "position P [] = None"
| "position P (x # xs) = (if P x then Some 0 else map_option Suc (position P xs))"

lemma position_None: "position P xs = None \<longleftrightarrow> (\<forall>x \<in> set xs. \<not> P x)"
  by (induction xs) auto

lemma position_Some:
  "position P xs = Some i \<Longrightarrow> i < length xs \<and> P (xs ! i) \<and> (\<forall>j < i. \<not> P (xs ! j))"
proof (induction xs arbitrary: i)
  case Nil
  then show ?case by simp
next
  case (Cons x xs)
  show ?case
  proof (cases "P x")
    case True
    with Cons.prems show ?thesis by auto
  next
    case False
    with Cons.prems obtain k where k: "position P xs = Some k" "i = Suc k" by auto
    from Cons.IH[OF k(1)] False k(2) show ?thesis
      by (auto simp: nth_Cons split: nat.splits)
  qed
qed

lemma position_eq_distinct:
  assumes "distinct xs" and "i < length xs"
  shows "position (\<lambda>y. xs ! i = y) xs = Some i"
proof (cases "position (\<lambda>y. xs ! i = y) xs")
  case None
  with assms show ?thesis by (auto simp: position_None)
next
  case (Some k)
  with position_Some[OF Some] assms show ?thesis by (auto simp: nth_eq_iff_index_eq)
qed

text \<open>\<^verbatim>\<open>Vec::dedup\<close> removes adjacent duplicates; after \<^verbatim>\<open>sort\<close> it leaves every element once.\<close>

abbreviation dedup :: "'a list \<Rightarrow> 'a list" where
  "dedup \<equiv> remdups_adj"

lemma distinct_dedup_sorted: "sorted xs \<Longrightarrow> distinct (dedup xs)"
  by (induction xs rule: remdups_adj.induct) (auto simp: order.antisym)

lemma distinct_dedup_sort [simp]: "distinct (dedup (sort xs))"
  by (simp add: distinct_dedup_sorted)

lemma length_filter_distinct_le:
  "distinct xs \<Longrightarrow> set xs \<subseteq> set ys \<Longrightarrow> length xs \<le> length ys"
  by (metis card_length card_mono distinct_card finite_set le_trans)

section \<open>Hash maps\<close>

text \<open>A \<^verbatim>\<open>HashMap\<close> is the association list of its entries, each key once; \<^verbatim>\<open>get\<close> is \<open>map_of\<close>. Iteration
  visits the entries in the order of the list.\<close>

type_synonym ('k, 'v) hash_map = "('k \<times> 'v) list"

abbreviation keys_of :: "('k, 'v) hash_map \<Rightarrow> 'k list" where
  "keys_of m \<equiv> map fst m"

abbreviation hm_insert :: "'k \<Rightarrow> 'v \<Rightarrow> ('k, 'v) hash_map \<Rightarrow> ('k, 'v) hash_map" where
  "hm_insert \<equiv> AList.update"

abbreviation hm_remove :: "'k \<Rightarrow> ('k, 'v) hash_map \<Rightarrow> ('k, 'v) hash_map" where
  "hm_remove \<equiv> AList.delete"

definition hm_extend :: "('k, 'v) hash_map \<Rightarrow> ('k, 'v) hash_map \<Rightarrow> ('k, 'v) hash_map" where
  "hm_extend m other = fold (\<lambda>(k, v). hm_insert k v) other m"

text \<open>A loop over the values that may panic.\<close>

definition hm_map_run :: "('v \<Rightarrow> 'w run) \<Rightarrow> ('k, 'v) hash_map \<Rightarrow> ('k, 'w) hash_map run" where
  "hm_map_run f m = run_map (\<lambda>(k, v). run_bind (f v) (\<lambda>w. Inr (k, w))) m"

lemma fst_comp_map_values [simp]: "fst \<circ> (\<lambda>(k, v). (k, f k v)) = fst"
  by auto

lemma hm_insert_get [simp]: "map_of (hm_insert k v m) = (map_of m)(k \<mapsto> v)"
  by (rule update_conv')

lemma hm_insert_set: "e \<in> set (hm_insert k v m) \<Longrightarrow> e = (k, v) \<or> e \<in> set m"
  by (induction m) (auto split: if_splits)

lemma hm_remove_get [simp]: "map_of (hm_remove k m) = (map_of m)(k := None)"
  by (rule delete_conv')

lemma hm_extend_get:
  "distinct (keys_of other) \<Longrightarrow> map_of (hm_extend m other) = map_of m ++ map_of other"
proof (induction other arbitrary: m)
  case Nil
  then show ?case by (simp add: hm_extend_def)
next
  case (Cons e other)
  obtain k v where e: "e = (k, v)" by fastforce
  then have "map_of other k = None" using Cons.prems by (simp add: map_of_eq_None_iff)
  with Cons.IH[of "hm_insert k v m"] Cons.prems show ?case
    by (auto simp: e hm_extend_def map_add_def fun_eq_iff split: option.splits)
qed

lemma hm_extend_distinct: "distinct (keys_of m) \<Longrightarrow> distinct (keys_of (hm_extend m other))"
  unfolding hm_extend_def by (induction other arbitrary: m) (auto simp: distinct_update)

lemma hm_map_run_total:
  assumes "\<And>k v. (k, v) \<in> set m \<Longrightarrow> f v = Inr (g v)"
  shows "hm_map_run f m = Inr (map (\<lambda>(k, v). (k, g v)) m)"
  unfolding hm_map_run_def using assms by (intro run_map_total) auto

lemma hm_map_run_Inr:
  "hm_map_run f m = Inr m' \<Longrightarrow> list_all2 (\<lambda>e e'. fst e' = fst e \<and> f (snd e) = Inr (snd e')) m m'"
  unfolding hm_map_run_def run_map_Inr
  by (erule list_all2_mono) (auto simp: run_simps)

end
