(* ===== verification/Timestamps.thy ===== *)
theory Timestamps
  imports Prelude
begin

text \<open>
  The timestamps of \<^verbatim>\<open>src/src/timestamp\<close>: \<^verbatim>\<open>Time\<close> and its conversions, the traits \<^verbatim>\<open>Rewind\<close>
  and \<^verbatim>\<open>Coarsen\<close>, the product order \<^verbatim>\<open>Pair\<close> and the lexicographic \<^verbatim>\<open>AltNeu\<close>, with
  \<^verbatim>\<open>std::time::Duration\<close> as seconds and nanoseconds at their widths.

  A generic Rust function over \<^verbatim>\<open>T: PartialOrder + Lattice\<close> takes the record of the operations of
  \<^verbatim>\<open>T\<close> (its dictionary). The locale \<open>time_lattice\<close> is the contract of those two traits; it is
  interpreted for \<^verbatim>\<open>u64\<close> and \<^verbatim>\<open>Duration\<close> and carried over to \<^verbatim>\<open>Pair\<close> and \<^verbatim>\<open>AltNeu\<close> by
  sublocales, so that every nesting of them is a lattice. The derived \<^verbatim>\<open>Ord\<close> of the sources,
  which is lexicographic, is the \<open>linorder\<close> instance of the type.
\<close>

section \<open>Durations\<close>

datatype duration = Duration (dsecs: u64) (dnanos: u32)

abbreviation NANOS_PER_SEC :: u32 where
  "NANOS_PER_SEC \<equiv> 1000000000"

fun wf_duration :: "duration \<Rightarrow> bool" where
  "wf_duration (Duration s n) \<longleftrightarrow> n < NANOS_PER_SEC"

definition dur_ns :: "duration \<Rightarrow> nat" where
  "dur_ns d = unat (dsecs d) * 1000000000 + unat (dnanos d)"

text \<open>\<^verbatim>\<open>Duration::new\<close>, \<^verbatim>\<open>Duration::checked_sub\<close> and the derived order.\<close>

definition duration_new :: "u64 \<Rightarrow> u32 \<Rightarrow> duration run" where
  "duration_new s n =
     (let carry = ucast (n div NANOS_PER_SEC) :: u64 in
      if unat s + unat carry < 2 ^ 64
      then Inr (Duration (s + carry) (n mod NANOS_PER_SEC))
      else Inl ''overflow in Duration::new'')"

fun duration_checked_sub :: "duration \<Rightarrow> duration \<Rightarrow> duration option" where
  "duration_checked_sub (Duration s n) (Duration s' n') =
     (case u64_checked_sub s s' of
        None \<Rightarrow> None
      | Some secs \<Rightarrow>
          if n' \<le> n then Some (Duration secs (n - n'))
          else (case u64_checked_sub secs 1 of
                  None \<Rightarrow> None
                | Some secs' \<Rightarrow> Some (Duration secs' (n + NANOS_PER_SEC - n'))))"

instantiation duration :: linorder
begin

definition less_eq_duration :: "duration \<Rightarrow> duration \<Rightarrow> bool" where
  "less_eq_duration a b \<longleftrightarrow> (dsecs a, dnanos a) \<le> (dsecs b, dnanos b)"

definition less_duration :: "duration \<Rightarrow> duration \<Rightarrow> bool" where
  "less_duration a b \<longleftrightarrow> (dsecs a, dnanos a) < (dsecs b, dnanos b)"

instance
  by standard (auto simp: less_eq_duration_def less_duration_def duration.expand)

end

section \<open>Times and conversions\<close>

datatype time = TxId u64 | Real duration | Bi duration u64

datatype ('s, 't) pair = Pair (first: 's) (second: 't)

fun time_into_u64 :: "time \<Rightarrow> u64 run" where
  "time_into_u64 (TxId t) = Inr t"
| "time_into_u64 _ = Inl ''Time can't be converted to u64''"

definition u64_into_time :: "u64 \<Rightarrow> time" where
  "u64_into_time t = TxId t"

fun time_into_duration :: "time \<Rightarrow> duration run" where
  "time_into_duration (Real t) = Inr t"
| "time_into_duration _ = Inl ''Time can't be converted to Duration''"

definition duration_into_time :: "duration \<Rightarrow> time" where
  "duration_into_time t = Real t"

fun time_into_pair :: "time \<Rightarrow> (duration, u64) pair run" where
  "time_into_pair (Bi sys event) = Inr (Pair sys event)"
| "time_into_pair _ = Inl ''Time can't be converted to Pair''"

definition pair_into_time :: "(duration, u64) pair \<Rightarrow> time" where
  "pair_into_time t = Bi (first t) (second t)"

definition time_into_product :: "(time \<Rightarrow> 'o run) \<Rightarrow> time \<Rightarrow> ('o \<times> u64) run" where
  "time_into_product into t = run_bind (into t) (\<lambda>outer. Inr (outer, 0))"

section \<open>Rewind\<close>

definition u64_rewind :: "u64 \<Rightarrow> u64 \<Rightarrow> u64" where
  "u64_rewind t slack = (case u64_checked_sub t slack of None \<Rightarrow> t | Some rewound \<Rightarrow> rewound)"

definition duration_rewind :: "duration \<Rightarrow> duration \<Rightarrow> duration" where
  "duration_rewind t slack =
     (case duration_checked_sub t slack of None \<Rightarrow> t | Some rewound \<Rightarrow> rewound)"

definition pair_rewind :: "(duration, u64) pair \<Rightarrow> (duration, u64) pair \<Rightarrow> (duration, u64) pair" where
  "pair_rewind t slack =
     (let first_rewound = duration_rewind (first t) (first slack);
          second_rewound = u64_rewind (second t) (second slack)
      in Pair first_rewound second_rewound)"

definition product_rewind ::
  "('o \<Rightarrow> 'o \<Rightarrow> 'o) \<Rightarrow> ('i \<Rightarrow> 'i \<Rightarrow> 'i) \<Rightarrow> 'o \<times> 'i \<Rightarrow> 'o \<times> 'i \<Rightarrow> 'o \<times> 'i" where
  "product_rewind rewind_outer rewind_inner t slack =
     (rewind_outer (fst t) (fst slack), rewind_inner (snd t) (snd slack))"

section \<open>Coarsen\<close>

definition u64_coarsen :: "u64 \<Rightarrow> u64 \<Rightarrow> u64 run" where
  "u64_coarsen t w =
     (if w = 0 then Inl ''attempt to divide by zero'' else Inr ((t div w + 1) * w))"

definition duration_coarsen :: "duration \<Rightarrow> duration \<Rightarrow> duration run" where
  "duration_coarsen t w =
     (let w_secs = dsecs w;
          w_nanos = dnanos w;
          secs_coarsened = (if w_secs = 0 then dsecs t else (dsecs t div w_secs + 1) * w_secs);
          nanos_coarsened = (if w_nanos = 0 then 0 else (dnanos t div w_nanos + 1) * w_nanos)
      in duration_new secs_coarsened nanos_coarsened)"

definition pair_coarsen ::
  "(duration, u64) pair \<Rightarrow> (duration, u64) pair \<Rightarrow> (duration, u64) pair run" where
  "pair_coarsen t w =
     run_bind (duration_coarsen (first t) (first w)) (\<lambda>first_coarsened.
     run_bind (u64_coarsen (second t) (second w)) (\<lambda>second_coarsened.
     Inr (Pair first_coarsened second_coarsened)))"

section \<open>Partial orders and lattices\<close>

text \<open>The operations that \<^verbatim>\<open>PartialOrder\<close> and \<^verbatim>\<open>Lattice\<close> give a timestamp type.\<close>

record 't lattice_ops =
  less_equal :: "'t \<Rightarrow> 't \<Rightarrow> bool"
  tjoin :: "'t \<Rightarrow> 't \<Rightarrow> 't"
  tmeet :: "'t \<Rightarrow> 't \<Rightarrow> 't"
  tminimum :: 't

definition total_ops :: "'t :: linorder \<Rightarrow> 't lattice_ops" where
  "total_ops b = \<lparr> less_equal = (\<le>), tjoin = max, tmeet = min, tminimum = b \<rparr>"

abbreviation u64_ops :: "u64 lattice_ops" where
  "u64_ops \<equiv> total_ops 0"

abbreviation duration_ops :: "duration lattice_ops" where
  "duration_ops \<equiv> total_ops (Duration 0 0)"

subsection \<open>Pair\<close>

definition pair_less_equal ::
  "'s lattice_ops \<Rightarrow> 't lattice_ops \<Rightarrow> ('s, 't) pair \<Rightarrow> ('s, 't) pair \<Rightarrow> bool" where
  "pair_less_equal S T a b \<longleftrightarrow>
     less_equal S (first a) (first b) \<and> less_equal T (second a) (second b)"

definition pair_minimum :: "'s lattice_ops \<Rightarrow> 't lattice_ops \<Rightarrow> ('s, 't) pair" where
  "pair_minimum S T = Pair (tminimum S) (tminimum T)"

definition pair_join ::
  "'s lattice_ops \<Rightarrow> 't lattice_ops \<Rightarrow> ('s, 't) pair \<Rightarrow> ('s, 't) pair \<Rightarrow> ('s, 't) pair" where
  "pair_join S T a b = Pair (tjoin S (first a) (first b)) (tjoin T (second a) (second b))"

definition pair_meet ::
  "'s lattice_ops \<Rightarrow> 't lattice_ops \<Rightarrow> ('s, 't) pair \<Rightarrow> ('s, 't) pair \<Rightarrow> ('s, 't) pair" where
  "pair_meet S T a b = Pair (tmeet S (first a) (first b)) (tmeet T (second a) (second b))"

definition pair_ops :: "'s lattice_ops \<Rightarrow> 't lattice_ops \<Rightarrow> ('s, 't) pair lattice_ops" where
  "pair_ops S T =
     \<lparr> less_equal = pair_less_equal S T, tjoin = pair_join S T, tmeet = pair_meet S T,
       tminimum = pair_minimum S T \<rparr>"

definition pair_sub ::
  "('s \<Rightarrow> 's \<Rightarrow> 's) \<Rightarrow> ('t \<Rightarrow> 't \<Rightarrow> 't) \<Rightarrow> ('s, 't) pair \<Rightarrow> ('s, 't) pair \<Rightarrow> ('s, 't) pair" where
  "pair_sub sub_first sub_second a b =
     Pair (sub_first (first a) (first b)) (sub_second (second a) (second b))"

definition pair_results_in :: "('s, 't) pair \<Rightarrow> ('s, 't) pair option" where
  "pair_results_in timestamp = Some timestamp"

instantiation pair :: (linorder, linorder) linorder
begin

definition less_eq_pair :: "('a, 'b) pair \<Rightarrow> ('a, 'b) pair \<Rightarrow> bool" where
  "less_eq_pair a b \<longleftrightarrow> (first a, second a) \<le> (first b, second b)"

definition less_pair :: "('a, 'b) pair \<Rightarrow> ('a, 'b) pair \<Rightarrow> bool" where
  "less_pair a b \<longleftrightarrow> (first a, second a) < (first b, second b)"

instance
  by standard (auto simp: less_eq_pair_def less_pair_def pair.expand)

end

subsection \<open>AltNeu\<close>

datatype 't altneu = AltNeu (inner_time: 't) (is_neu: bool)

definition alt :: "'t \<Rightarrow> 't altneu" where
  "alt t = AltNeu t False"

definition neu :: "'t \<Rightarrow> 't altneu" where
  "neu t = AltNeu t True"

definition altneu_less_equal :: "'t lattice_ops \<Rightarrow> 't altneu \<Rightarrow> 't altneu \<Rightarrow> bool" where
  "altneu_less_equal L a b \<longleftrightarrow>
     (if inner_time a = inner_time b then is_neu a \<le> is_neu b
      else less_equal L (inner_time a) (inner_time b))"

definition altneu_minimum :: "'t lattice_ops \<Rightarrow> 't altneu" where
  "altneu_minimum L = alt (tminimum L)"

definition altneu_join :: "'t lattice_ops \<Rightarrow> 't altneu \<Rightarrow> 't altneu \<Rightarrow> 't altneu" where
  "altneu_join L a b =
     (let time = tjoin L (inner_time a) (inner_time b);
          n0 = False;
          n1 = (if time = inner_time a then n0 \<or> is_neu a else n0);
          n2 = (if time = inner_time b then n1 \<or> is_neu b else n1)
      in AltNeu time n2)"

definition altneu_meet :: "'t lattice_ops \<Rightarrow> 't altneu \<Rightarrow> 't altneu \<Rightarrow> 't altneu" where
  "altneu_meet L a b =
     (let time = tmeet L (inner_time a) (inner_time b);
          n0 = True;
          n1 = (if time = inner_time a then n0 \<and> is_neu a else n0);
          n2 = (if time = inner_time b then n1 \<and> is_neu b else n1)
      in AltNeu time n2)"

definition altneu_ops :: "'t lattice_ops \<Rightarrow> 't altneu lattice_ops" where
  "altneu_ops L =
     \<lparr> less_equal = altneu_less_equal L, tjoin = altneu_join L, tmeet = altneu_meet L,
       tminimum = altneu_minimum L \<rparr>"

definition altneu_to_inner :: "'t \<Rightarrow> 't altneu" where
  "altneu_to_inner other = alt other"

definition altneu_to_outer :: "'t altneu \<Rightarrow> 't" where
  "altneu_to_outer t = inner_time t"

definition altneu_results_in :: "'t altneu \<Rightarrow> 't altneu option" where
  "altneu_results_in timestamp = Some timestamp"

section \<open>Facts about durations\<close>

lemma wf_duration_unat: "wf_duration d \<longleftrightarrow> unat (dnanos d) < 1000000000"
  by (cases d) (simp add: word_less_nat_alt)

lemma dur_ns_le_iff:
  assumes "wf_duration a" and "wf_duration b"
  shows "dur_ns a \<le> dur_ns b \<longleftrightarrow> a \<le> b"
proof (cases a; cases b)
  fix s n s' n'
  assume ab: "a = Duration s n" "b = Duration s' n'"
  have bound: "unat n < 1000000000" "unat n' < 1000000000"
    using assms by (simp_all add: ab wf_duration_unat)
  show ?thesis
  proof (cases "s = s'")
    case True
    then show ?thesis by (simp add: ab dur_ns_def less_eq_duration_def word_le_nat_alt)
  next
    case False
    then have "unat s < unat s' \<or> unat s' < unat s"
      by (meson linorder_neqE_nat unsigned_word_eqI)
    then have "unat s * 1000000000 + unat n \<le> unat s' * 1000000000 + unat n' \<longleftrightarrow> unat s < unat s'"
      using bound by linarith
    moreover have "a \<le> b \<longleftrightarrow> unat s < unat s'"
      using False less_le[of s s'] by (auto simp: ab less_eq_duration_def word_less_nat_alt)
    ultimately show ?thesis by (simp add: ab dur_ns_def)
  qed
qed

text \<open>\<open>checked_sub\<close> is subtraction of the lengths in nanoseconds.\<close>

lemma duration_checked_sub_Some:
  assumes wf: "wf_duration a" "wf_duration b" and sub: "duration_checked_sub a b = Some c"
  shows "wf_duration c" and "dur_ns a = dur_ns b + dur_ns c"
proof -
  obtain s n where a: "a = Duration s n" by (cases a)
  obtain s' n' where b: "b = Duration s' n'" by (cases b)
  have bound: "unat n < 1000000000" "unat n' < 1000000000"
    using wf by (simp_all add: a b wf_duration_unat)
  from sub obtain secs where secs: "u64_checked_sub s s' = Some secs"
    by (auto simp: a b split: option.splits)
  note s = u64_checked_sub_Some[OF secs]
  have "wf_duration c \<and> dur_ns a = dur_ns b + dur_ns c"
  proof (cases "n' \<le> n")
    case True
    then have "c = Duration secs (n - n')" using sub by (simp add: a b secs)
    moreover have "unat (n - n') = unat n - unat n'" "unat n' \<le> unat n"
      using True by (simp_all add: unat_sub word_le_nat_alt)
    moreover have "unat s * 1000000000 = unat s' * 1000000000 + unat secs * 1000000000"
      using s by (simp add: word_le_nat_alt flip: add_mult_distrib)
    ultimately show ?thesis
      using bound by (simp add: a b dur_ns_def wf_duration_unat)
  next
    case False
    then obtain secs' where secs': "u64_checked_sub secs 1 = Some secs'"
      and c: "c = Duration secs' (n + NANOS_PER_SEC - n')"
      using sub by (auto simp: a b secs split: option.splits)
    note s' = u64_checked_sub_Some[OF secs']
    have sum: "unat (n + NANOS_PER_SEC) = unat n + 1000000000"
      using bound by (subst unat_add_lem[THEN iffD1]) simp_all
    then have "unat (n + NANOS_PER_SEC - n') = unat n + 1000000000 - unat n'"
      using bound by (simp add: unat_sub word_le_nat_alt)
    moreover have "unat s = unat s' + (unat secs' + 1)"
      using s s' unfolding word_le_nat_alt unat_1 by linarith
    then have "unat s * 1000000000 = unat s' * 1000000000 + (unat secs' + 1) * 1000000000"
      by (simp only: add_mult_distrib)
    ultimately show ?thesis
      using False bound by (simp add: a b c dur_ns_def wf_duration_unat word_le_nat_alt)
  qed
  then show "wf_duration c" and "dur_ns a = dur_ns b + dur_ns c" by simp_all
qed

lemma duration_checked_sub_None:
  assumes wf: "wf_duration a" "wf_duration b"
  shows "duration_checked_sub a b = None \<longleftrightarrow> a < b"
proof -
  obtain s n where a: "a = Duration s n" by (cases a)
  obtain s' n' where b: "b = Duration s' n'" by (cases b)
  show ?thesis
  proof (cases "s < s'")
    case True
    then show ?thesis by (auto simp: a b u64_checked_sub_def less_duration_def)
  next
    case False
    then have eq: "u64_checked_sub s s' = Some (s - s')" by (simp add: u64_checked_sub_def)
    show ?thesis
    proof (cases "n' \<le> n \<or> s = s'")
      case True
      with False show ?thesis
        by (auto simp: a b eq u64_checked_sub_def less_duration_def)
    next
      case neq: False
      then have "u64_checked_sub (s - s') 1 = Some (s - s' - 1)"
        by (simp add: u64_checked_sub_def flip: linorder_not_less)
      with neq False show ?thesis by (auto simp: a b eq less_duration_def)
    qed
  qed
qed

section \<open>The contract of Rewind\<close>

text \<open>
  What the clients of \<^verbatim>\<open>Rewind\<close> rely on: no slack moves a time forward, and no slack at all
  leaves it where it is. The domain of a rewind are the times a program can build (\<open>ok\<close>).
\<close>

locale rewindable =
  fixes le :: "'t \<Rightarrow> 't \<Rightarrow> bool" and ok :: "'t \<Rightarrow> bool" and rewind :: "'t \<Rightarrow> 't \<Rightarrow> 't" and zero :: 't
  assumes le_refl: "le t t"
    and le_trans: "le a b \<Longrightarrow> le b c \<Longrightarrow> le a c"
    and ok_zero: "ok zero"
    and rewind_ok: "ok t \<Longrightarrow> ok s \<Longrightarrow> ok (rewind t s)"
    and rewind_le: "ok t \<Longrightarrow> ok s \<Longrightarrow> le (rewind t s) t"
    and rewind_zero: "ok t \<Longrightarrow> rewind t zero = t"
begin

text \<open>Rewinding a frontier keeps everything at or after the original frontier.\<close>

lemma rewind_frontier_mono:
  assumes "\<And>f. f \<in> set F \<Longrightarrow> ok f" and "ok s" and "f \<in> set F" and "le f t"
  shows "\<exists>g \<in> set (map (\<lambda>f. rewind f s) F). le g t"
  using assms rewind_le le_trans by (metis in_set_conv_nth length_map nth_map)

end

lemma u64_rewind_le: "u64_rewind t s \<le> t"
  by (auto simp: u64_rewind_def word_le_nat_alt dest: u64_checked_sub_Some split: option.splits)

lemma duration_rewind_wf:
  "wf_duration t \<Longrightarrow> wf_duration s \<Longrightarrow> wf_duration (duration_rewind t s)"
  by (auto simp: duration_rewind_def dest: duration_checked_sub_Some split: option.splits)

lemma duration_rewind_le:
  assumes "wf_duration t" and "wf_duration s"
  shows "duration_rewind t s \<le> t"
proof (cases "duration_checked_sub t s")
  case None
  then show ?thesis by (simp add: duration_rewind_def)
next
  case (Some c)
  with duration_checked_sub_Some[OF assms Some] assms show ?thesis
    by (simp add: duration_rewind_def flip: dur_ns_le_iff)
qed

lemma duration_rewind_zero [simp]: "duration_rewind t (Duration 0 0) = t"
  by (cases t) (simp add: duration_rewind_def u64_checked_sub_def)

lemma u64_rewind_zero [simp]: "u64_rewind t 0 = t"
  by (simp add: u64_rewind_def u64_checked_sub_def)

interpretation u64_rew: rewindable "less_equal u64_ops" "\<lambda>_. True" u64_rewind 0
  by unfold_locales (auto simp: total_ops_def u64_rewind_le)

interpretation duration_rew:
  rewindable "less_equal duration_ops" wf_duration duration_rewind "Duration 0 0"
  by unfold_locales
     (auto simp: total_ops_def duration_rewind_le duration_rewind_wf)

locale rewindable_product = o: rewindable leo oko ro zo + i: rewindable lei oki ri zi
  for leo :: "'o \<Rightarrow> 'o \<Rightarrow> bool" and oko ro zo and lei :: "'i \<Rightarrow> 'i \<Rightarrow> bool" and oki ri zi

sublocale rewindable_product \<subseteq> prod:
  rewindable "\<lambda>a b. leo (fst a) (fst b) \<and> lei (snd a) (snd b)" "\<lambda>t. oko (fst t) \<and> oki (snd t)"
    "product_rewind ro ri" "(zo, zi)"
  using o.le_trans i.le_trans
  by unfold_locales
     (auto simp: product_rewind_def o.le_refl i.le_refl o.ok_zero i.ok_zero
        o.rewind_ok i.rewind_ok o.rewind_le i.rewind_le o.rewind_zero i.rewind_zero)

interpretation pair_rew:
  rewindable "pair_less_equal duration_ops u64_ops" "\<lambda>t. wf_duration (first t)" pair_rewind
    "Pair (Duration 0 0) 0"
  by unfold_locales
     (auto simp: pair_less_equal_def pair_rewind_def total_ops_def Let_def duration_rewind_le
        u64_rewind_le duration_rewind_wf)

text \<open>The product of the interpretations above: a scope nested in a computation over \<^verbatim>\<open>u64\<close>.\<close>

interpretation u64_nested:
  rewindable_product "less_equal u64_ops" "\<lambda>_. True" u64_rewind 0
    "less_equal u64_ops" "\<lambda>_. True" u64_rewind 0
  by unfold_locales

section \<open>The contract of PartialOrder and Lattice\<close>

locale time_lattice =
  fixes L :: "'t lattice_ops"
  assumes refl: "less_equal L a a"
    and trans: "less_equal L a b \<Longrightarrow> less_equal L b c \<Longrightarrow> less_equal L a c"
    and antisym: "less_equal L a b \<Longrightarrow> less_equal L b a \<Longrightarrow> a = b"
    and minimum: "less_equal L (tminimum L) a"
    and join_ub1: "less_equal L a (tjoin L a b)"
    and join_ub2: "less_equal L b (tjoin L a b)"
    and join_least: "less_equal L a c \<Longrightarrow> less_equal L b c \<Longrightarrow> less_equal L (tjoin L a b) c"
    and meet_lb1: "less_equal L (tmeet L a b) a"
    and meet_lb2: "less_equal L (tmeet L a b) b"
    and meet_greatest: "less_equal L c a \<Longrightarrow> less_equal L c b \<Longrightarrow> less_equal L c (tmeet L a b)"
begin

lemma join_absorb: "less_equal L a b \<Longrightarrow> tjoin L a b = b"
  by (meson antisym join_least join_ub2 refl)

lemma meet_absorb: "less_equal L a b \<Longrightarrow> tmeet L a b = a"
  by (meson antisym meet_greatest meet_lb1 refl)

lemma join_commute: "tjoin L a b = tjoin L b a"
  by (meson antisym join_least join_ub1 join_ub2)

lemma meet_commute: "tmeet L a b = tmeet L b a"
  by (meson antisym meet_greatest meet_lb1 meet_lb2)

lemma join_le_iff: "less_equal L (tjoin L a b) c \<longleftrightarrow> less_equal L a c \<and> less_equal L b c"
  by (meson join_least join_ub1 join_ub2 trans)

lemma le_meet_iff: "less_equal L c (tmeet L a b) \<longleftrightarrow> less_equal L c a \<and> less_equal L c b"
  by (meson meet_greatest meet_lb1 meet_lb2 trans)

lemma eq_refl: "a = b \<Longrightarrow> less_equal L a b"
  by (simp add: refl)

end

lemma total_ops_lattice:
  assumes "\<And>a. b \<le> a"
  shows "time_lattice (total_ops b)"
  using assms by unfold_locales (auto simp: total_ops_def)

lemma duration_zero_le: "Duration 0 0 \<le> d"
  by (cases d) (auto simp: less_eq_duration_def)

interpretation u64_lat: time_lattice u64_ops
  by (rule total_ops_lattice) simp

interpretation duration_lat: time_lattice duration_ops
  by (rule total_ops_lattice) (rule duration_zero_le)

locale lattice_pair = s: time_lattice S + t: time_lattice T
  for S :: "'s lattice_ops" and T :: "'t lattice_ops"

lemmas pair_ops_simps =
  pair_ops_def pair_less_equal_def pair_minimum_def pair_join_def pair_meet_def

sublocale lattice_pair \<subseteq> pair_lat: time_lattice "pair_ops S T"
  by unfold_locales
     (auto simp: pair_ops_simps s.refl t.refl s.minimum t.minimum s.join_ub1 t.join_ub1
        s.join_ub2 t.join_ub2 s.join_least t.join_least s.meet_lb1 t.meet_lb1 s.meet_lb2 t.meet_lb2
        s.meet_greatest t.meet_greatest
        intro: s.trans t.trans s.antisym t.antisym intro!: pair.expand)

context lattice_pair
begin

lemma pair_is_lattice: "time_lattice (pair_ops S T)"
  by (rule pair_lat.time_lattice_axioms)

end

locale lattice_base = base: time_lattice L for L :: "'t lattice_ops"

lemmas altneu_ops_simps =
  altneu_ops_def altneu_less_equal_def altneu_minimum_def altneu_join_def altneu_meet_def alt_def

sublocale lattice_base \<subseteq> altneu_lat: time_lattice "altneu_ops L"
proof unfold_locales
  fix a b c :: "'t altneu"
  show "less_equal (altneu_ops L) a b \<Longrightarrow> less_equal (altneu_ops L) b c \<Longrightarrow>
      less_equal (altneu_ops L) a c"
    using base.trans[of "inner_time a" "inner_time b" "inner_time c"]
      base.antisym[of "inner_time a" "inner_time b"]
    by (auto simp: altneu_ops_simps split: if_splits)
  show "less_equal (altneu_ops L) a b \<Longrightarrow> less_equal (altneu_ops L) b a \<Longrightarrow> a = b"
    using base.antisym[of "inner_time a" "inner_time b"]
    by (auto simp: altneu_ops_simps altneu.expand split: if_splits)
  show "less_equal (altneu_ops L) a c \<Longrightarrow> less_equal (altneu_ops L) b c \<Longrightarrow>
      less_equal (altneu_ops L) (tjoin (altneu_ops L) a b) c"
    using base.join_least[of "inner_time a" "inner_time c" "inner_time b"] base.refl
    by (auto simp: altneu_ops_simps Let_def split: if_splits)
  show "less_equal (altneu_ops L) c a \<Longrightarrow> less_equal (altneu_ops L) c b \<Longrightarrow>
      less_equal (altneu_ops L) c (tmeet (altneu_ops L) a b)"
    using base.meet_greatest[of "inner_time c" "inner_time a" "inner_time b"] base.refl
    by (auto simp: altneu_ops_simps Let_def split: if_splits)
qed (auto simp: altneu_ops_simps Let_def base.refl base.minimum base.join_ub1 base.join_ub2
      base.meet_lb1 base.meet_lb2)

context lattice_base
begin

lemma altneu_is_lattice: "time_lattice (altneu_ops L)"
  by (rule altneu_lat.time_lattice_axioms)

end

interpretation bitemporal: lattice_pair duration_ops u64_ops
  by unfold_locales

interpretation bitemporal_base: lattice_base "pair_ops duration_ops u64_ops"
  by unfold_locales

interpretation u64_base: lattice_base u64_ops
  by unfold_locales

section \<open>Coarsening\<close>

lemma nat_coarsen:
  assumes "0 < (w :: nat)"
  shows "t < (t div w + 1) * w" and "(t div w + 1) * w \<le> t + w"
    and "w dvd m \<Longrightarrow> t < m \<Longrightarrow> (t div w + 1) * w \<le> m"
proof -
  have split: "t = t div w * w + t mod w" by simp
  have "t mod w < w" using assms by simp
  with split have "t < t div w * w + w" by linarith
  then show "t < (t div w + 1) * w" by simp
  show "(t div w + 1) * w \<le> t + w" by simp
  assume "w dvd m" and "t < m"
  then obtain k where m: "m = w * k" by blast
  with \<open>t < m\<close> assms have "t div w < k" by (simp add: less_mult_imp_div_less mult.commute)
  then have "(t div w + 1) * w \<le> k * w" by (intro mult_right_mono) auto
  then show "(t div w + 1) * w \<le> m" by (simp add: m mult.commute)
qed

lemma word_coarsen:
  fixes t w :: "'n::len word"
  assumes "w \<noteq> 0" and "unat t + unat w < 2 ^ LENGTH('n)"
  shows "unat ((t div w + 1) * w) = (unat t div unat w + 1) * unat w"
proof -
  have pos: "0 < unat w" using assms(1) by (simp add: unat_gt_0)
  have le: "(unat t div unat w + 1) * unat w < 2 ^ LENGTH('n)"
    using nat_coarsen(2)[OF pos, of "unat t"] assms(2) by linarith
  have "(unat t div unat w + 1) * 1 \<le> (unat t div unat w + 1) * unat w"
    using pos by (intro mult_left_mono) auto
  from le_less_trans[OF this le] have "unat t div unat w + 1 < 2 ^ LENGTH('n)" by simp
  then have "unat (t div w + 1) = unat t div unat w + 1"
    by (simp add: unat_word_ariths unat_div)
  with le show ?thesis by (simp add: unat_word_ariths)
qed

lemma duration_new_ns:
  assumes "unat s + unat n div 1000000000 < 2 ^ 64"
  shows "\<exists>d. duration_new s n = Inr d \<and> wf_duration d \<and> dur_ns d = unat s * 1000000000 + unat n"
proof -
  let ?c = "ucast (n div NANOS_PER_SEC) :: u64"
  have c: "unat ?c = unat n div 1000000000"
    using unsigned_less[of "n div NANOS_PER_SEC", where 'a = nat]
    by (simp add: unsigned_ucast_eq take_bit_nat_eq_self unat_div)
  have "unat (s + ?c) = unat s + unat n div 1000000000"
    using assms c by (simp add: unat_word_ariths)
  moreover have "unat (n mod NANOS_PER_SEC) = unat n mod 1000000000" by (simp add: unat_mod)
  ultimately show ?thesis
    using assms c by (simp add: duration_new_def Let_def wf_duration_unat dur_ns_def add_mult_distrib)
qed

section \<open>Properties\<close>

text \<open>The product order of \<^verbatim>\<open>Pair\<close> and the lexicographic \<^verbatim>\<open>AltNeu\<close> over it are lattices with a
  minimum whenever the coordinates are: \<^verbatim>\<open>less_equal\<close> is a partial order, \<^verbatim>\<open>join\<close> and \<^verbatim>\<open>meet\<close> are
  least upper and greatest lower bounds in it, which is what differential dataflow asks of a
  timestamp.\<close>

theorem altneu_pair_lattice:
  assumes "time_lattice S" and "time_lattice T"
  shows "time_lattice (altneu_ops (pair_ops S T))"
  using assms
  by (intro lattice_base.altneu_is_lattice lattice_base.intro lattice_pair.pair_is_lattice
      lattice_pair.intro)

theorem altneu_pair_lattice_witness:
  "time_lattice (altneu_ops (pair_ops duration_ops u64_ops))"
  by (rule altneu_pair_lattice) (rule duration_lat.time_lattice_axioms u64_lat.time_lattice_axioms)+

text \<open>\<^verbatim>\<open>Duration::rewind\<close> subtracts the slack exactly, in nanoseconds, when the slack is not longer
  than the time, and otherwise returns the time unchanged; the result is a valid duration.\<close>

theorem duration_rewind_exact:
  assumes "wf_duration t" and "wf_duration slack"
  shows "wf_duration (duration_rewind t slack) \<and>
    dur_ns (duration_rewind t slack) =
      (if dur_ns slack \<le> dur_ns t then dur_ns t - dur_ns slack else dur_ns t)"
proof (cases "duration_checked_sub t slack")
  case None
  then have "\<not> dur_ns slack \<le> dur_ns t"
    using assms by (simp add: duration_checked_sub_None dur_ns_le_iff)
  with None assms show ?thesis by (simp add: duration_rewind_def)
next
  case (Some c)
  with duration_checked_sub_Some[OF assms Some] show ?thesis by (simp add: duration_rewind_def)
qed

theorem duration_rewind_exact_witness:
  "wf_duration (duration_rewind (Duration 12 345000000) (Duration 0 45000000)) \<and>
   dur_ns (duration_rewind (Duration 12 345000000) (Duration 0 45000000)) = 12300000000"
  using duration_rewind_exact[of "Duration 12 345000000" "Duration 0 45000000"]
  by (simp add: dur_ns_def)

text \<open>C39: \<^verbatim>\<open>Coarsen for u64\<close> returns the least multiple of the window that lies strictly after the
  time, whenever time plus window does not overflow, and panics exactly on a zero window.\<close>

theorem u64_coarsen_least_multiple:
  assumes "unat t + unat w < 2 ^ 64"
  shows "(u64_coarsen t w = Inl ''attempt to divide by zero'' \<longleftrightarrow> w = 0) \<and>
    (\<forall>c. u64_coarsen t w = Inr c \<longrightarrow>
       t < c \<and> unat w dvd unat c \<and> (\<forall>m. unat w dvd m \<longrightarrow> unat t < m \<longrightarrow> unat c \<le> m))"
proof (cases "w = 0")
  case True
  then show ?thesis by (simp add: u64_coarsen_def)
next
  case False
  then have pos: "0 < unat w" by (simp add: unat_gt_0)
  have "unat ((t div w + 1) * w) = (unat t div unat w + 1) * unat w"
    using False assms by (intro word_coarsen) simp_all
  with False nat_coarsen(1,2)[OF pos, of "unat t"] nat_coarsen(3)[OF pos, of _ "unat t"]
  show ?thesis by (auto simp: u64_coarsen_def word_less_nat_alt)
qed

theorem u64_coarsen_least_multiple_witness:
  "u64_coarsen 11 10 = Inr 20 \<and> (11 :: u64) < 20 \<and> (10 :: nat) dvd 20"
  using u64_coarsen_least_multiple[of 11 10] by (simp add: u64_coarsen_def)

text \<open>\<^verbatim>\<open>Coarsen for Duration\<close> with a window of whole seconds returns, without panicking, the least
  multiple of the window strictly after the time, whatever the nanoseconds of the time.\<close>

theorem duration_coarsen_whole_seconds:
  assumes "wf_duration t" and "dnanos w = 0" and "dsecs w \<noteq> 0"
    and "unat (dsecs t) + unat (dsecs w) < 2 ^ 64"
  shows "\<exists>c. duration_coarsen t w = Inr c \<and> wf_duration c \<and> dur_ns t < dur_ns c \<and>
    dur_ns w dvd dur_ns c \<and> (\<forall>m. dur_ns w dvd m \<longrightarrow> dur_ns t < m \<longrightarrow> dur_ns c \<le> m)"
proof -
  let ?s = "(dsecs t div dsecs w + 1) * dsecs w"
  let ?W = "unat (dsecs w)" and ?T = "unat (dsecs t)"
  have pos: "0 < ?W" using assms(3) by (simp add: unat_gt_0)
  have s: "unat ?s = (?T div ?W + 1) * ?W"
    using assms(3,4) by (intro word_coarsen) simp_all
  obtain c where c: "duration_new ?s 0 = Inr c" "wf_duration c" "dur_ns c = unat ?s * 1000000000"
    using duration_new_ns[of ?s 0] unsigned_less[of ?s] by auto
  have n: "unat (dnanos t) < 1000000000" using assms(1) by (simp add: wf_duration_unat)
  have w: "dur_ns w = ?W * 1000000000" using assms(2) by (simp add: dur_ns_def)
  have "?T + 1 \<le> unat ?s" using nat_coarsen(1)[OF pos, of ?T] s by simp
  then have "(?T + 1) * 1000000000 \<le> dur_ns c" unfolding c(3) by (intro mult_right_mono) simp_all
  then have lt: "dur_ns t < dur_ns c" using n by (simp add: dur_ns_def)
  have dvd: "dur_ns w dvd dur_ns c" by (simp add: w c(3) s)
  have least: "dur_ns c \<le> m" if dm: "dur_ns w dvd m" and tm: "dur_ns t < m" for m
  proof -
    obtain k where "m = dur_ns w * k" using dm by blast
    then have m: "m = ?W * k * 1000000000" by (simp add: w)
    then have "?T < ?W * k" using tm by (auto simp: dur_ns_def)
    then have "unat ?s \<le> ?W * k" using nat_coarsen(3)[OF pos, of "?W * k" ?T] s by simp
    then show ?thesis by (simp add: m c(3))
  qed
  have "duration_coarsen t w = Inr c" using assms(2,3) c(1) by (simp add: duration_coarsen_def)
  with c(2) lt dvd least show ?thesis by blast
qed

theorem duration_coarsen_whole_seconds_witness:
  "\<exists>c. duration_coarsen (Duration 10 500) (Duration 10 0) = Inr c \<and> wf_duration c \<and>
     dur_ns (Duration 10 500) < dur_ns c"
  using duration_coarsen_whole_seconds[of "Duration 10 500" "Duration 10 0"] by auto

text \<open>With a window that has a fractional part, \<^verbatim>\<open>Coarsen for Duration\<close> rounds seconds and
  nanoseconds separately: a window of 1.5 s takes 1 s to 2.5 s, which is no multiple of the window,
  and an empty window moves 1.5 s back to 1 s.\<close>

theorem duration_coarsen_componentwise:
  "duration_coarsen (Duration 1 0) (Duration 1 500000000) = Inr (Duration 2 500000000) \<and>
   \<not> dur_ns (Duration 1 500000000) dvd dur_ns (Duration 2 500000000) \<and>
   duration_coarsen (Duration 1 500000000) (Duration 0 0) = Inr (Duration 1 0) \<and>
   Duration 1 0 < Duration 1 500000000"
  by (simp add: duration_coarsen_def duration_new_def dur_ns_def less_duration_def)

text \<open>A slack longer than the time is dropped, so rewinding is not monotone: 5 rewound by 10 is 5 but
  10 rewound by 10 is 0, and likewise for durations.\<close>

theorem rewind_not_monotone:
  "(5 :: u64) \<le> 10 \<and> u64_rewind 10 10 < u64_rewind 5 10 \<and>
   duration_rewind (Duration 10 0) (Duration 10 0) < duration_rewind (Duration 5 0) (Duration 10 0)"
  by (simp add: u64_rewind_def duration_rewind_def u64_checked_sub_def less_duration_def)


end
