(* ===== verification/Collections.thy ===== *)
theory Collections
  imports Timestamps
begin

text \<open>
  Differential collections as the sources see them through \<^verbatim>\<open>.inner\<close>: lists of updates
  \<^verbatim>\<open>(data, time, diff)\<close>, with the record-wise operators. What a collection contains is its
  multiplicity per record and time, \<open>acc\<close>; two update lists with the same multiplicities are the same
  collection. The stateful operators of differential dataflow (arrange, reduce, join, distinct) are
  parameters where they occur.
\<close>

type_synonym ('d, 't) update = "'d \<times> 't \<times> int"
type_synonym ('d, 't) collection = "('d, 't) update list"

fun upd_contrib :: "'d \<Rightarrow> 't \<Rightarrow> ('d, 't) update \<Rightarrow> int" where
  "upd_contrib x t (y, s, d) = (if y = x \<and> s = t then d else 0)"

definition acc :: "('d, 't) collection \<Rightarrow> 'd \<Rightarrow> 't \<Rightarrow> int" where
  "acc c x t = (\<Sum>u \<leftarrow> c. upd_contrib x t u)"

definition coll_map :: "('a \<Rightarrow> 'b) \<Rightarrow> ('a, 't) collection \<Rightarrow> ('b, 't) collection" where
  "coll_map f c = map (\<lambda>(x, t, d). (f x, t, d)) c"

definition coll_flat_map :: "('a \<Rightarrow> 'b list) \<Rightarrow> ('a, 't) collection \<Rightarrow> ('b, 't) collection" where
  "coll_flat_map f c = concat (map (\<lambda>(x, t, d). map (\<lambda>y. (y, t, d)) (f x)) c)"

definition coll_filter :: "('a \<Rightarrow> bool) \<Rightarrow> ('a, 't) collection \<Rightarrow> ('a, 't) collection" where
  "coll_filter P c = filter (\<lambda>(x, t, d). P x) c"

definition coll_negate :: "('a, 't) collection \<Rightarrow> ('a, 't) collection" where
  "coll_negate c = map (\<lambda>(x, t, d). (x, t, - d)) c"

text \<open>The closures passed to \<^verbatim>\<open>map\<close> and \<^verbatim>\<open>filter\<close> may panic on a record.\<close>

definition coll_map_run :: "('a \<Rightarrow> 'b run) \<Rightarrow> ('a, 't) collection \<Rightarrow> ('b, 't) collection run" where
  "coll_map_run f c = run_map (\<lambda>(x, t, d). run_bind (f x) (\<lambda>y. Inr (y, t, d))) c"

definition coll_filter_run :: "('a \<Rightarrow> bool run) \<Rightarrow> ('a, 't) collection \<Rightarrow> ('a, 't) collection run" where
  "coll_filter_run P c =
     run_bind (run_map (\<lambda>(x, t, d). run_bind (P x) (\<lambda>b. Inr (b, x, t, d))) c)
       (\<lambda>r. Inr (map snd (filter fst r)))"

section \<open>Multiplicities\<close>

lemma acc_Nil [simp]: "acc [] x t = 0"
  by (simp add: acc_def)

lemma acc_Cons [simp]: "acc (u # c) x t = upd_contrib x t u + acc c x t"
  by (simp add: acc_def)

lemma acc_append [simp]: "acc (c @ c') x t = acc c x t + acc c' x t"
  by (simp add: acc_def)

lemma acc_concat: "acc (concat cs) x t = (\<Sum>c \<leftarrow> cs. acc c x t)"
  by (induction cs) auto

lemma acc_negate [simp]: "acc (coll_negate c) x t = - acc c x t"
  by (induction c) (auto simp: coll_negate_def)

lemma acc_filter [simp]: "acc (coll_filter P c) x t = (if P x then acc c x t else 0)"
  by (induction c) (auto simp: coll_filter_def)

lemma acc_mset: "mset c = mset c' \<Longrightarrow> acc c x t = acc c' x t"
  by (metis acc_def mset_map sum_mset_sum_list)

lemma acc_absent: "(\<And>d. (x, t, d) \<notin> set c) \<Longrightarrow> acc c x t = 0"
proof (induction c)
  case Nil
  then show ?case by simp
next
  case (Cons u c)
  then have "acc c x t = 0" by simp
  moreover obtain y s d where "u = (y, s, d)" by (metis prod_cases3)
  ultimately show ?case using Cons.prems[of d] by auto
qed

lemma acc_map_inj: "inj f \<Longrightarrow> acc (coll_map f c) (f x) t = acc c x t"
  by (induction c) (auto simp: coll_map_def inj_eq)

lemma coll_map_run_total:
  assumes "\<And>x t d. (x, t, d) \<in> set c \<Longrightarrow> f x = Inr (g x)"
  shows "coll_map_run f c = Inr (coll_map g c)"
  unfolding coll_map_run_def coll_map_def using assms by (intro run_map_total) auto

lemma coll_filter_run_total:
  assumes "\<And>x t d. (x, t, d) \<in> set c \<Longrightarrow> P x = Inr (Q x)"
  shows "coll_filter_run P c = Inr (coll_filter Q c)"
proof -
  have "run_map (\<lambda>(x, t, d). run_bind (P x) (\<lambda>b. Inr (b, x, t, d))) c =
      Inr (map (\<lambda>(x, t, d). (Q x, x, t, d)) c)"
    using assms by (intro run_map_total) auto
  moreover have "map snd (filter fst (map (\<lambda>(x, t, d). (Q x, x, t, d)) c)) = coll_filter Q c"
    by (induction c) (auto simp: coll_filter_def)
  ultimately show ?thesis by (simp add: coll_filter_run_def)
qed

section \<open>Frontiers\<close>

text \<open>\<^verbatim>\<open>frontier.less_equal(t)\<close>: some element of the frontier is at or before \<open>t\<close>, so that updates at
  \<open>t\<close> may still arrive.\<close>

definition frontier_le :: "'t lattice_ops \<Rightarrow> 't list \<Rightarrow> 't \<Rightarrow> bool" where
  "frontier_le L F t \<longleftrightarrow> list_ex (\<lambda>f. less_equal L f t) F"

context time_lattice
begin

lemma frontier_le_trans: "frontier_le L F s \<Longrightarrow> less_equal L s t \<Longrightarrow> frontier_le L F t"
  by (auto simp: frontier_le_def list_ex_iff intro: trans)

end

end
