(* ===== verification/Values.thy ===== *)
theory Values
  imports Timestamps
begin

text \<open>
  The data model of \<^verbatim>\<open>src/src/lib.rs\<close>: values with their derived order, client-facing errors,
  datoms, attribute configurations and shutdown handles.

  A 32 bit rational is its mathematical value; its arithmetic belongs to \<^verbatim>\<open>num_rational\<close> and is a
  parameter wherever the sources use it. The optional variant \<^verbatim>\<open>Real\<close> (feature \<^verbatim>\<open>real\<close>) is off in
  the default build.
\<close>

type_synonym eid = u64
type_synonym aid = string
type_synonym var = u32
type_synonym client = usize

section \<open>Values\<close>

datatype df_value =
    Aid aid
  | String string
  | Bool bool
  | Number i64
  | Rational32 rat
  | Eid eid
  | Instant u64
  | Uuid "128 word"

type_synonym tuple = "df_value list"

definition with_namespace :: "aid \<Rightarrow> aid \<Rightarrow> aid" where
  "with_namespace self namespace = namespace @ ''/'' @ self"

definition into_value :: "aid \<Rightarrow> df_value" where
  "into_value self = Aid self"

definition value_from_str :: "string \<Rightarrow> df_value" where
  "value_from_str v = String v"

fun value_into_eid :: "df_value \<Rightarrow> eid run" where
  "value_into_eid (Eid e) = Inr e"
| "value_into_eid _ = Inl ''Value can't be converted to Eid''"

text \<open>The derived \<^verbatim>\<open>Ord\<close> compares the variants in order of declaration, then their payload.\<close>

fun value_key :: "df_value \<Rightarrow> nat \<times> string \<times> int \<times> rat" where
  "value_key (Aid a) = (0, a, 0, 0)"
| "value_key (String s) = (1, s, 0, 0)"
| "value_key (Bool b) = (2, [], of_bool b, 0)"
| "value_key (Number n) = (3, [], sint n, 0)"
| "value_key (Rational32 r) = (4, [], 0, r)"
| "value_key (Eid e) = (5, [], uint e, 0)"
| "value_key (Instant t) = (6, [], uint t, 0)"
| "value_key (Uuid u) = (7, [], uint u, 0)"

lemma value_key_inj [simp]: "value_key a = value_key b \<longleftrightarrow> a = b"
  by (cases a; cases b) (auto simp: signed_word_eqI unsigned_word_eqI)

instantiation df_value :: linorder
begin

definition less_eq_df_value :: "df_value \<Rightarrow> df_value \<Rightarrow> bool" where
  "less_eq_df_value a b \<longleftrightarrow> value_key a \<le> value_key b"

definition less_df_value :: "df_value \<Rightarrow> df_value \<Rightarrow> bool" where
  "less_df_value a b \<longleftrightarrow> value_key a < value_key b"

instance
  by standard
     (auto simp: less_eq_df_value_def less_df_value_def less_le_not_le
        simp flip: value_key_inj intro: order_trans order_antisym)

end

section \<open>JSON values\<close>

text \<open>
  The values of \<^verbatim>\<open>serde_json\<close>: an object is the association list of its entries. Printing a \<^verbatim>\<open>u64\<close>
  is decimal notation.
\<close>

datatype json =
    JNull
  | JBool bool
  | JNumber i64
  | JString string
  | JArray "json list"
  | JObject "(string \<times> json) list"

fun decimal :: "nat \<Rightarrow> string" where
  "decimal n =
     (if n < 10 then [char_of (48 + n)] else decimal (n div 10) @ [char_of (48 + n mod 10)])"

declare decimal.simps [simp del]

fun value_into_json :: "df_value \<Rightarrow> json run" where
  "value_into_json (Eid v) = Inr (JString (decimal (unat v)))"
| "value_into_json (Aid v) = Inr (JString v)"
| "value_into_json (String v) = Inr (JString v)"
| "value_into_json (Bool v) = Inr (JBool v)"
| "value_into_json (Number v) = Inr (JNumber v)"
| "value_into_json _ = Inl ''not yet implemented''"

section \<open>Errors\<close>

record error =
  category :: string
  message :: string

definition incorrect :: "string \<Rightarrow> error" where
  "incorrect e = \<lparr> category = ''df.error.category/incorrect'', message = e \<rparr>"

definition not_found :: "string \<Rightarrow> error" where
  "not_found e = \<lparr> category = ''df.error.category/not-found'', message = e \<rparr>"

definition conflict :: "string \<Rightarrow> error" where
  "conflict e = \<lparr> category = ''df.error.category/conflict'', message = e \<rparr>"

definition fault :: "string \<Rightarrow> error" where
  "fault e = \<lparr> category = ''df.error.category/fault'', message = e \<rparr>"

definition unsupported :: "string \<Rightarrow> error" where
  "unsupported e = \<lparr> category = ''df.error.category/unsupported'', message = e \<rparr>"

lemma error_category_distinct:
  "incorrect a \<noteq> not_found b" "incorrect a \<noteq> conflict b" "incorrect a \<noteq> fault b"
  "incorrect a \<noteq> unsupported b" "not_found a \<noteq> conflict b" "not_found a \<noteq> fault b"
  "not_found a \<noteq> unsupported b" "conflict a \<noteq> fault b" "conflict a \<noteq> unsupported b"
  "fault a \<noteq> unsupported b"
  by (simp_all add: incorrect_def not_found_def conflict_def fault_def unsupported_def)

text \<open>\<^verbatim>\<open>Result<T, Error>\<close> of a computation that may also panic.\<close>

type_synonym 'a outcome = "(error + 'a) run"

section \<open>Datoms and outputs\<close>

datatype 'a datom = Datom (datom_e: df_value) (datom_a: 'a) (datom_v: df_value) (datom_t: "time option")
  (datom_diff: int)

definition datom_add :: "eid \<Rightarrow> 'a \<Rightarrow> df_value \<Rightarrow> 'a datom" where
  "datom_add e a v = Datom (Eid e) a v None 1"

definition datom_add_at :: "eid \<Rightarrow> 'a \<Rightarrow> df_value \<Rightarrow> time \<Rightarrow> 'a datom" where
  "datom_add_at e a v t = Datom (Eid e) a v (Some t) 1"

definition datom_retract :: "eid \<Rightarrow> 'a \<Rightarrow> df_value \<Rightarrow> 'a datom" where
  "datom_retract e a v = Datom (Eid e) a v None (- 1)"

definition datom_retract_at :: "eid \<Rightarrow> 'a \<Rightarrow> df_value \<Rightarrow> time \<Rightarrow> 'a datom" where
  "datom_retract_at e a v t = Datom (Eid e) a v (Some t) (- 1)"

type_synonym result_diff = "tuple \<times> time \<times> int"

datatype df_output =
    QueryDiff string "result_diff list"
  | Json string json time int
  | Message client json
  | OError client error u64

section \<open>Attribute configurations\<close>

datatype input_semantics = Raw | LastWriteWins | Distinct

datatype index_direction = Forward | Both

datatype query_support = Basic | Delta | AdaptiveWCO

fun query_support_rank :: "query_support \<Rightarrow> nat" where
  "query_support_rank Basic = 0"
| "query_support_rank Delta = 1"
| "query_support_rank AdaptiveWCO = 2"

record attribute_config =
  input_semantics :: input_semantics
  trace_slack :: "time option"
  index_direction :: index_direction
  query_support :: query_support

definition default_config :: attribute_config where
  "default_config =
     \<lparr> input_semantics = Raw, trace_slack = None, index_direction = Forward,
       query_support = Basic \<rparr>"

definition tx_time :: "input_semantics \<Rightarrow> attribute_config" where
  "tx_time s = default_config \<lparr> input_semantics := s, trace_slack := Some (TxId 1) \<rparr>"

definition real_time :: "input_semantics \<Rightarrow> attribute_config" where
  "real_time s = default_config \<lparr> input_semantics := s, trace_slack := Some (Real (Duration 0 0)) \<rparr>"

definition uncompacted :: "input_semantics \<Rightarrow> attribute_config" where
  "uncompacted s = default_config \<lparr> input_semantics := s, trace_slack := None \<rparr>"

section \<open>Shutdown handles\<close>

text \<open>A handle is the list of its buttons; dropping it presses them in order.\<close>

type_synonym 'b shutdown_handle = "'b list"

definition handle_empty :: "'b shutdown_handle" where
  "handle_empty = []"

definition from_button :: "'b \<Rightarrow> 'b shutdown_handle" where
  "from_button b = [b]"

definition add_button :: "'b shutdown_handle \<Rightarrow> 'b \<Rightarrow> 'b shutdown_handle" where
  "add_button h b = h @ [b]"

definition merge_with :: "'b shutdown_handle \<Rightarrow> 'b shutdown_handle \<Rightarrow> 'b shutdown_handle" where
  "merge_with h other = h @ other"

definition merge_handles :: "'b shutdown_handle \<Rightarrow> 'b shutdown_handle \<Rightarrow> 'b shutdown_handle" where
  "merge_handles left right = [] @ left @ right"

definition drop_handle :: "('b \<Rightarrow> 's \<Rightarrow> 's) \<Rightarrow> 'b shutdown_handle \<Rightarrow> 's \<Rightarrow> 's" where
  "drop_handle press h s = fold press h s"

lemmas handle_defs =
  handle_empty_def from_button_def add_button_def merge_with_def merge_handles_def

end
