(* ===== verification/Sessions.thy ===== *)
theory Sessions
  imports Collections Values
begin

text \<open>
  Input sessions, from \<^verbatim>\<open>src/src/domain/unordered_session.rs\<close>. A session buffers updates and ships them
  through a timely handle under its capability. The handle is modelled by the log of batches it was
  given, each with the time of the capability it was shipped under; the capacity of the buffer follows
  \<^verbatim>\<open>Vec::reserve\<close>.

  The locale \<open>input_session\<close> is what a domain relies on: updates are neither lost nor reordered, none
  is stamped before the capability, and advancing and flushing moves the capability to the new time. It
  is interpreted on the operations of \<^verbatim>\<open>UnorderedSession\<close>.
\<close>

record ('d, 't) session =
  ses_time :: 't
  ses_cap :: 't
  buffer :: "('d, 't) collection"
  capacity :: usize
  given :: "('t \<times> ('d, 't) collection) list"

definition less_than :: "'t lattice_ops \<Rightarrow> 't \<Rightarrow> 't \<Rightarrow> bool" where
  "less_than L a b \<longleftrightarrow> less_equal L a b \<and> a \<noteq> b"

definition session_from :: "'t \<Rightarrow> ('d, 't) session" where
  "session_from cap = \<lparr> ses_time = cap, ses_cap = cap, buffer = [], capacity = 0, given = [] \<rparr>"

text \<open>\<^verbatim>\<open>handle.session(cap).give_iterator(buffer.drain(..))\<close>.\<close>

definition give_buffer :: "('d, 't) session \<Rightarrow> ('d, 't) session" where
  "give_buffer s = s \<lparr> given := given s @ [(ses_cap s, buffer s)], buffer := [] \<rparr>"

definition reserve :: "usize \<Rightarrow> ('d, 't) session \<Rightarrow> ('d, 't) session" where
  "reserve additional s =
     (if capacity s - length (buffer s) < additional
      then s \<lparr> capacity := max (2 * capacity s) (length (buffer s) + additional) \<rparr>
      else s)"

definition make_room :: "('d, 't) session \<Rightarrow> ('d, 't) session" where
  "make_room s =
     (if length (buffer s) = capacity s
      then reserve 1024 (if buffer s \<noteq> [] then give_buffer s else s)
      else s)"

definition session_update :: "'d \<Rightarrow> int \<Rightarrow> ('d, 't) session \<Rightarrow> ('d, 't) session" where
  "session_update element change s =
     (let s1 = make_room s in s1 \<lparr> buffer := buffer s1 @ [(element, ses_cap s1, change)] \<rparr>)"

definition session_update_at ::
  "'t lattice_ops \<Rightarrow> 'd \<Rightarrow> 't \<Rightarrow> int \<Rightarrow> ('d, 't) session \<Rightarrow> ('d, 't) session run" where
  "session_update_at L element time change s =
     (if less_equal L (ses_cap s) time
      then let s1 = make_room s in Inr (s1 \<lparr> buffer := buffer s1 @ [(element, time, change)] \<rparr>)
      else Inl ''assertion failed: self.cap.time().less_equal(&time)'')"

definition session_flush :: "'t lattice_ops \<Rightarrow> ('d, 't) session \<Rightarrow> ('d, 't) session" where
  "session_flush L s =
     (let s1 = give_buffer s
      in if less_than L (ses_cap s1) (ses_time s1) then s1 \<lparr> ses_cap := ses_time s1 \<rparr> else s1)"

definition session_advance_to ::
  "'t lattice_ops \<Rightarrow> 't \<Rightarrow> ('d, 't) session \<Rightarrow> ('d, 't) session run" where
  "session_advance_to L time s =
     (if \<not> less_equal L (ses_time s) time
      then Inl ''assertion failed: self.epoch().less_equal(&time)''
      else Inr (s \<lparr> ses_time := time \<rparr>))"

definition session_epoch :: "('d, 't) session \<Rightarrow> 't" where
  "session_epoch s = ses_time s"

text \<open>\<^verbatim>\<open>close\<close> takes the session by value, so that it is dropped, which flushes it.\<close>

definition session_close :: "'t lattice_ops \<Rightarrow> ('d, 't) session \<Rightarrow> ('d, 't) session" where
  "session_close L s = session_flush L s"

section \<open>What a session has accepted\<close>

definition session_log :: "('d, 't) session \<Rightarrow> ('d, 't) collection" where
  "session_log s = concat (map snd (given s)) @ buffer s"

text \<open>Capability discipline: nothing is buffered or was shipped before the capability it is shipped
  under, and capabilities were only downgraded.\<close>

definition session_inv :: "'t lattice_ops \<Rightarrow> ('d, 't) session \<Rightarrow> bool" where
  "session_inv L s \<longleftrightarrow>
     less_equal L (ses_cap s) (ses_time s) \<and>
     length (buffer s) \<le> capacity s \<and>
     list_all (\<lambda>(d, t, r). less_equal L (ses_cap s) t) (buffer s) \<and>
     list_all (\<lambda>(cap, batch). less_equal L cap (ses_cap s) \<and>
       list_all (\<lambda>(d, t, r). less_equal L cap t) batch) (given s) \<and>
     sorted_wrt (less_equal L) (map fst (given s))"

lemma make_room_log [simp]: "session_log (make_room s) = session_log s"
  by (simp add: session_log_def make_room_def reserve_def give_buffer_def)

lemma make_room_fields [simp]:
  "ses_time (make_room s) = ses_time s" "ses_cap (make_room s) = ses_cap s"
  by (simp_all add: make_room_def reserve_def give_buffer_def)

lemma session_log_append [simp]: "session_log (s \<lparr> buffer := buffer s @ us \<rparr>) = session_log s @ us"
  by (simp add: session_log_def)

lemma session_log_times [simp]:
  "session_log (s \<lparr> ses_time := t \<rparr>) = session_log s" "session_log (s \<lparr> ses_cap := t \<rparr>) = session_log s"
  by (simp_all add: session_log_def)

lemma give_buffer_log [simp]: "session_log (give_buffer s) = session_log s"
  by (simp add: session_log_def give_buffer_def)

text \<open>The contract a domain relies on.\<close>

locale input_session =
  fixes le :: "'t \<Rightarrow> 't \<Rightarrow> bool" and inv :: "'s \<Rightarrow> bool" and log :: "'s \<Rightarrow> ('d, 't) collection"
    and at_time :: "'s \<Rightarrow> 't" and cap_time :: "'s \<Rightarrow> 't"
    and update :: "'d \<Rightarrow> int \<Rightarrow> 's \<Rightarrow> 's" and update_at :: "'d \<Rightarrow> 't \<Rightarrow> int \<Rightarrow> 's \<Rightarrow> 's run"
    and flush :: "'s \<Rightarrow> 's" and advance_to :: "'t \<Rightarrow> 's \<Rightarrow> 's run"
  assumes update_log: "log (update d r s) = log s @ [(d, cap_time s, r)]"
    and update_inv: "inv s \<Longrightarrow> inv (update d r s)"
    and update_times: "at_time (update d r s) = at_time s" "cap_time (update d r s) = cap_time s"
    and update_at_iff: "returns (update_at d t r s) \<longleftrightarrow> le (cap_time s) t"
    and update_at_log: "update_at d t r s = Inr s' \<Longrightarrow> log s' = log s @ [(d, t, r)]"
    and update_at_inv: "inv s \<Longrightarrow> update_at d t r s = Inr s' \<Longrightarrow> inv s'"
    and update_at_times: "update_at d t r s = Inr s' \<Longrightarrow> at_time s' = at_time s \<and> cap_time s' = cap_time s"
    and flush_log: "log (flush s) = log s"
    and flush_inv: "inv s \<Longrightarrow> inv (flush s)"
    and flush_times: "inv s \<Longrightarrow> at_time (flush s) = at_time s \<and> cap_time (flush s) = at_time s"
    and advance_iff: "returns (advance_to t s) \<longleftrightarrow> le (at_time s) t"
    and advance_log: "advance_to t s = Inr s' \<Longrightarrow> log s' = log s"
    and advance_inv: "inv s \<Longrightarrow> advance_to t s = Inr s' \<Longrightarrow> inv s'"
    and advance_time: "advance_to t s = Inr s' \<Longrightarrow> at_time s' = t"
begin

definition advance_and_flush :: "'t \<Rightarrow> 's \<Rightarrow> 's run" where
  "advance_and_flush t s = run_bind (advance_to t s) (\<lambda>s'. Inr (flush s'))"

lemma advance_and_flush_spec:
  assumes "inv s"
  shows "returns (advance_and_flush t s) \<longleftrightarrow> le (at_time s) t"
    and "advance_and_flush t s = Inr s' \<Longrightarrow>
      inv s' \<and> log s' = log s \<and> at_time s' = t \<and> cap_time s' = t"
  using assms advance_iff[of t s] advance_inv advance_log advance_time flush_inv flush_log flush_times
  by (auto simp: advance_and_flush_def run_simps returns_def)

end

section \<open>The operations keep the contract\<close>

context time_lattice
begin

lemma make_room_inv: "session_inv L s \<Longrightarrow> session_inv L (make_room s)"
  by (auto simp: session_inv_def make_room_def reserve_def give_buffer_def sorted_wrt_append refl
      list_all_iff)

lemma make_room_capacity: "session_inv L s \<Longrightarrow> length (buffer (make_room s)) < capacity (make_room s)"
  by (auto simp: session_inv_def make_room_def reserve_def give_buffer_def)

lemma session_update_inv: "session_inv L s \<Longrightarrow> session_inv L (session_update d r s)"
  using make_room_inv[of s] make_room_capacity[of s]
  by (simp add: session_update_def Let_def session_inv_def refl)

lemma session_update_at_inv:
  "session_inv L s \<Longrightarrow> session_update_at L d t r s = Inr s' \<Longrightarrow> session_inv L s'"
  using make_room_inv[of s] make_room_capacity[of s]
  by (auto simp: session_update_at_def Let_def session_inv_def split: if_splits)

lemma session_flush_inv: "session_inv L s \<Longrightarrow> session_inv L (session_flush L s)"
  by (auto simp: session_flush_def give_buffer_def session_inv_def Let_def less_than_def refl
      sorted_wrt_append list_all_iff intro: trans)

lemma session_flush_times:
  "session_inv L s \<Longrightarrow> ses_time (session_flush L s) = ses_time s \<and> ses_cap (session_flush L s) = ses_time s"
  by (auto simp: session_flush_def give_buffer_def session_inv_def less_than_def Let_def)

lemma session_input_session:
  "input_session (less_equal L) (session_inv L) session_log ses_time ses_cap session_update
     (session_update_at L) (session_flush L) (session_advance_to L)"
proof unfold_locales
  fix s s' :: "('b, 't) session" and t
  assume "session_inv L s" and "session_advance_to L t s = Inr s'"
  then show "session_inv L s'"
    by (auto simp: session_advance_to_def session_inv_def split: if_splits intro: trans)
qed (simp_all add: session_update_inv session_update_at_inv session_flush_inv session_flush_times,
     auto simp: session_update_def session_update_at_def session_flush_def session_advance_to_def
       Let_def returns_def split: if_splits)

end

interpretation u64_session: input_session "less_equal u64_ops" "session_inv u64_ops" session_log ses_time
  ses_cap session_update "session_update_at u64_ops" "session_flush u64_ops" "session_advance_to u64_ops"
  by (rule u64_lat.session_input_session)

section \<open>Refinement\<close>

text \<open>A session as its user sees it: the current time, the time new updates are stamped with, and the
  updates accepted so far.\<close>

record ('d, 't) abstract_session =
  abs_time :: 't
  abs_cap :: 't
  abs_log :: "('d, 't) collection"

definition abs_session :: "('d, 't) session \<Rightarrow> ('d, 't) abstract_session" where
  "abs_session s = \<lparr> abs_time = ses_time s, abs_cap = ses_cap s, abs_log = session_log s \<rparr>"

datatype ('d, 't) session_op = Update 'd int | UpdateAt 'd 't int | Flush | AdvanceTo 't

fun session_step ::
  "'t lattice_ops \<Rightarrow> ('d, 't) session_op \<Rightarrow> ('d, 't) session \<Rightarrow> ('d, 't) session run" where
  "session_step L (Update d r) s = Inr (session_update d r s)"
| "session_step L (UpdateAt d t r) s = session_update_at L d t r s"
| "session_step L Flush s = Inr (session_flush L s)"
| "session_step L (AdvanceTo t) s = session_advance_to L t s"

fun session_run ::
  "'t lattice_ops \<Rightarrow> ('d, 't) session_op list \<Rightarrow> ('d, 't) session \<Rightarrow> ('d, 't) session run" where
  "session_run L [] s = Inr s"
| "session_run L (x # xs) s = run_bind (session_step L x s) (session_run L xs)"

fun abstract_step ::
  "'t lattice_ops \<Rightarrow> ('d, 't) session_op \<Rightarrow> ('d, 't) abstract_session \<Rightarrow> ('d, 't) abstract_session option" where
  "abstract_step L (Update d r) a = Some (a \<lparr> abs_log := abs_log a @ [(d, abs_cap a, r)] \<rparr>)"
| "abstract_step L (UpdateAt d t r) a =
     (if less_equal L (abs_cap a) t then Some (a \<lparr> abs_log := abs_log a @ [(d, t, r)] \<rparr>) else None)"
| "abstract_step L Flush a = Some (a \<lparr> abs_cap := abs_time a \<rparr>)"
| "abstract_step L (AdvanceTo t) a =
     (if less_equal L (abs_time a) t then Some (a \<lparr> abs_time := t \<rparr>) else None)"

fun abstract_run ::
  "'t lattice_ops \<Rightarrow> ('d, 't) session_op list \<Rightarrow> ('d, 't) abstract_session \<Rightarrow> ('d, 't) abstract_session option" where
  "abstract_run L [] a = Some a"
| "abstract_run L (x # xs) a = Option.bind (abstract_step L x a) (abstract_run L xs)"

fun returned :: "'a run \<Rightarrow> 'a option" where
  "returned (Inl _) = None"
| "returned (Inr x) = Some x"

context time_lattice
begin

lemma session_step_refines:
  assumes "session_inv L s"
  shows "map_option abs_session (returned (session_step L x s)) = abstract_step L x (abs_session s)"
proof (cases x)
  case Flush
  then show ?thesis
    using session_flush_times[OF assms] input_session.flush_log[OF session_input_session, of s]
    by (simp add: abs_session_def)
qed (simp_all add: abs_session_def session_update_def session_update_at_def session_advance_to_def Let_def)

lemma session_step_inv: "session_inv L s \<Longrightarrow> session_step L x s = Inr s' \<Longrightarrow> session_inv L s'"
  using session_update_inv session_update_at_inv session_flush_inv
    input_session.advance_inv[OF session_input_session]
  by (cases x) auto

lemma session_run_refines:
  "session_inv L s \<Longrightarrow>
   map_option abs_session (returned (session_run L xs s)) = abstract_run L xs (abs_session s)"
proof (induction xs arbitrary: s)
  case Nil
  then show ?case by simp
next
  case (Cons x xs)
  note step = session_step_refines[OF Cons.prems, of x]
  show ?case
  proof (cases "session_step L x s")
    case (Inl m)
    with step show ?thesis by simp
  next
    case (Inr s')
    with step Cons.IH[OF session_step_inv[OF Cons.prems Inr]] show ?thesis by (simp flip: step)
  qed
qed

lemma session_run_inv: "session_inv L s \<Longrightarrow> session_run L xs s = Inr s' \<Longrightarrow> session_inv L s'"
  by (induction xs arbitrary: s) (auto simp: run_simps dest: session_step_inv)

lemma session_from_inv: "session_inv L (session_from c)"
  by (simp add: session_inv_def session_from_def refl)

end

section \<open>Properties\<close>



end
