(* ===== verification/Domains.thy ===== *)
theory Domains
  imports Sessions
begin

text \<open>
  Domains, from \<^verbatim>\<open>src/src/domain/mod.rs\<close>: attributes that share a timestamp semantics, their input
  sessions, epoch, traces and rules. Attribute identifiers are strings, the only implementation of
  \<^verbatim>\<open>AsAid\<close>. The probe is an opaque handle whose current frontier is a parameter of the operations that
  read it; a trace handle is the arranged contents and the two frontiers the domain allows it to
  compact to.
\<close>

section \<open>State\<close>

record ('d, 't) trace_agent =
  contents :: "('d, 't) collection"
  advanced :: "'t list"
  distinguished :: "'t list"

type_synonym ('k, 't) trace_key_handle = "('k \<times> unit, 't) trace_agent"
type_synonym ('k, 'v, 't) trace_val_handle = "('k \<times> 'v, 't) trace_agent"

record ('t, 'r, 'b, 'pr) domain =
  namespace :: string
  now_at :: 't
  last_advance :: "'t list"
  input_sessions :: "(aid, (df_value \<times> df_value, 't) session) hash_map"
  domain_probe :: 'pr
  probed_source_count :: usize
  attributes :: "(aid, attribute_config) hash_map"
  forward_count :: "(aid, (df_value, 't) trace_key_handle) hash_map"
  forward_propose :: "(aid, (df_value, df_value, 't) trace_val_handle) hash_map"
  forward_validate :: "(aid, (df_value \<times> df_value, 't) trace_key_handle) hash_map"
  reverse_count :: "(aid, (df_value, 't) trace_key_handle) hash_map"
  reverse_propose :: "(aid, (df_value, df_value, 't) trace_val_handle) hash_map"
  reverse_validate :: "(aid, (df_value \<times> df_value, 't) trace_key_handle) hash_map"
  rules :: "(aid, 'r) hash_map"
  shutdown_handles :: "(string, 'b shutdown_handle) hash_map"

text \<open>The traits of the timestamp type that a domain uses: \<^verbatim>\<open>PartialOrder\<close> and \<^verbatim>\<open>Lattice\<close>, \<^verbatim>\<open>Rewind\<close>,
  \<^verbatim>\<open>From<Time>\<close>, \<^verbatim>\<open>Debug\<close> and \<^verbatim>\<open>Default\<close>.\<close>

record 't time_ops =
  lat :: "'t lattice_ops"
  rewind_by :: "'t \<Rightarrow> 't \<Rightarrow> 't"
  from_time :: "time \<Rightarrow> 't run"
  debug :: "'t \<Rightarrow> string"
  dflt :: 't

section \<open>Construction and composition\<close>

definition domain_new :: "'t time_ops \<Rightarrow> 'pr \<Rightarrow> 't \<Rightarrow> ('t, 'r, 'b, 'pr) domain" where
  "domain_new T probe start_at =
     \<lparr> namespace = [], now_at = start_at, last_advance = [tminimum (lat T)], input_sessions = [],
       domain_probe = probe, probed_source_count = 0, attributes = [], forward_count = [],
       forward_propose = [], forward_validate = [], reverse_count = [], reverse_propose = [],
       reverse_validate = [], rules = [], shutdown_handles = [] \<rparr>"

definition domain_new_from ::
  "'pr \<Rightarrow> string \<Rightarrow> ('t, 'r, 'b, 'pr) domain \<Rightarrow> ('t, 'r, 'b, 'pr) domain" where
  "domain_new_from probe ns base =
     \<lparr> namespace = ns, now_at = now_at base, last_advance = last_advance base, input_sessions = [],
       domain_probe = probe, probed_source_count = 0, attributes = [], forward_count = [],
       forward_propose = [], forward_validate = [], reverse_count = [], reverse_propose = [],
       reverse_validate = [], rules = [], shutdown_handles = [] \<rparr>"

definition domain_add_assign ::
  "'t time_ops \<Rightarrow> ('t, 'r, 'b, 'pr) domain \<Rightarrow> ('t, 'r, 'b, 'pr) domain \<Rightarrow>
   ('t, 'r, 'b, 'pr) domain run" where
  "domain_add_assign T self other =
     (if namespace self \<noteq> namespace other
      then Inl ''Only domains within a namespace can be composed.''
      else if list_ex (\<lambda>k. map_of (attributes other) k \<noteq> None) (keys_of (attributes self))
      then Inl ''Domain attributes clash.''
      else if probed_source_count other \<noteq> 0 \<and> probed_source_count self \<noteq> 0
      then Inl ''Domain composition not supported for two domains with external sources.''
      else Inr (self \<lparr>
        now_at := tmeet (lat T) (now_at self) (now_at other),
        input_sessions := hm_extend (input_sessions self) (input_sessions other),
        domain_probe := (if probed_source_count self = 0 then domain_probe other else domain_probe self),
        probed_source_count :=
          (if probed_source_count self = 0 then probed_source_count other else probed_source_count self),
        attributes := hm_extend (attributes self) (attributes other),
        forward_count := hm_extend (forward_count self) (forward_count other),
        forward_propose := hm_extend (forward_propose self) (forward_propose other),
        forward_validate := hm_extend (forward_validate self) (forward_validate other),
        reverse_count := hm_extend (reverse_count self) (reverse_count other),
        reverse_propose := hm_extend (reverse_propose self) (reverse_propose other),
        reverse_validate := hm_extend (reverse_validate self) (reverse_validate other),
        rules := hm_extend (rules self) (rules other),
        shutdown_handles := hm_extend (shutdown_handles self) (shutdown_handles other) \<rparr>))"

section \<open>Inputs\<close>

text \<open>\<^verbatim>\<open>transact\<close> returns on the first unknown attribute and keeps what it has applied before.\<close>

fun transact ::
  "'t time_ops \<Rightarrow> aid datom list \<Rightarrow> ('t, 'r, 'b, 'pr) domain \<Rightarrow>
   ((error + unit) \<times> ('t, 'r, 'b, 'pr) domain) run" where
  "transact T [] dm = Inr (Inr (), dm)"
| "transact T (Datom e a v t diff # tx_data) dm =
     (case map_of (input_sessions dm) a of
        None \<Rightarrow> Inr (Inl (not_found (''Attribute '' @ a @ '' does not exist.'')), dm)
      | Some handle \<Rightarrow>
          run_bind (case t of
              None \<Rightarrow> Inr (session_update (e, v) diff handle)
            | Some t \<Rightarrow> run_bind (from_time T t)
                (\<lambda>time. session_update_at (lat T) (e, v) time diff handle))
            (\<lambda>handle'. transact T tx_data
               (dm \<lparr> input_sessions := hm_insert a handle' (input_sessions dm) \<rparr>)))"

text \<open>Closing an input drops its session, which ships what is left in its buffer; the closed session is
  returned with the domain.\<close>

definition close_input ::
  "'t time_ops \<Rightarrow> aid \<Rightarrow> ('t, 'r, 'b, 'pr) domain \<Rightarrow>
   (error + unit) \<times> ('t, 'r, 'b, 'pr) domain \<times> (df_value \<times> df_value, 't) session option" where
  "close_input T name dm =
     (case map_of (input_sessions dm) name of
        None \<Rightarrow> (Inl (not_found (''Input '' @ name @ '' does not exist.'')), dm, None)
      | Some handle \<Rightarrow>
          (Inr (), dm \<lparr> input_sessions := hm_remove name (input_sessions dm) \<rparr>,
           Some (session_close (lat T) handle)))"

section \<open>Progress\<close>

definition epoch :: "('t, 'r, 'b, 'pr) domain \<Rightarrow> 't" where
  "epoch dm = now_at dm"

definition advance_epoch ::
  "'t time_ops \<Rightarrow> 't \<Rightarrow> ('t, 'r, 'b, 'pr) domain \<Rightarrow> ((error + unit) \<times> ('t, 'r, 'b, 'pr) domain) run" where
  "advance_epoch T next dm =
     (if \<not> less_equal (lat T) (now_at dm) next
      then Inr (Inl (conflict (''Domain is at '' @ debug T (now_at dm) @
                '', you attempted to rewind to '' @ debug T next @ ''.'')), dm)
      else if now_at dm \<noteq> next
      then run_bind (hm_map_run (\<lambda>handle. run_bind (session_advance_to (lat T) next handle)
               (\<lambda>handle'. Inr (session_flush (lat T) handle'))) (input_sessions dm))
             (\<lambda>sessions. Inr (Inr (), dm \<lparr> input_sessions := sessions, now_at := next \<rparr>))
      else Inr (Inr (), dm))"

definition compact_trace ::
  "aid \<Rightarrow> 't list \<Rightarrow> (aid, ('d, 't) trace_agent) hash_map \<Rightarrow> (aid, ('d, 't) trace_agent) hash_map" where
  "compact_trace name frontier m =
     map (\<lambda>(k, tr). (k, if k = name then tr \<lparr> advanced := frontier, distinguished := frontier \<rparr> else tr)) m"

definition compact_attribute ::
  "aid \<Rightarrow> 't list \<Rightarrow> ('t, 'r, 'b, 'pr) domain \<Rightarrow> ('t, 'r, 'b, 'pr) domain" where
  "compact_attribute name frontier dm =
     dm \<lparr> forward_count := compact_trace name frontier (forward_count dm),
       forward_propose := compact_trace name frontier (forward_propose dm),
       forward_validate := compact_trace name frontier (forward_validate dm),
       reverse_count := compact_trace name frontier (reverse_count dm),
       reverse_propose := compact_trace name frontier (reverse_propose dm),
       reverse_validate := compact_trace name frontier (reverse_validate dm) \<rparr>"

fun compact_attributes ::
  "'t time_ops \<Rightarrow> 't list \<Rightarrow> (aid, attribute_config) hash_map \<Rightarrow> ('t, 'r, 'b, 'pr) domain \<Rightarrow>
   ('t, 'r, 'b, 'pr) domain run" where
  "compact_attributes T frontier [] dm = Inr dm"
| "compact_attributes T frontier ((name, config) # attrs) dm =
     (case trace_slack config of
        None \<Rightarrow> compact_attributes T frontier attrs dm
      | Some slack \<Rightarrow>
          run_bind (run_map (\<lambda>t. run_bind (from_time T slack) (\<lambda>s. Inr (rewind_by T t s))) frontier)
            (\<lambda>slacking. compact_attributes T frontier attrs (compact_attribute name slacking dm)))"

definition advance_traces ::
  "'t time_ops \<Rightarrow> 't list \<Rightarrow> ('t, 'r, 'b, 'pr) domain \<Rightarrow> ('t, 'r, 'b, 'pr) domain run" where
  "advance_traces T frontier dm =
     (if list_ex (\<lambda>t. list_ex (\<lambda>f. less_than (lat T) f t) (last_advance dm)) frontier
      then compact_attributes T frontier (attributes dm) (dm \<lparr> last_advance := frontier \<rparr>)
      else Inr dm)"

definition advance ::
  "'t::linorder time_ops \<Rightarrow> ('pr \<Rightarrow> 't list) \<Rightarrow> ('t, 'r, 'b, 'pr) domain \<Rightarrow>
   ((error + unit) \<times> ('t, 'r, 'b, 'pr) domain) run" where
  "advance T probe_frontier dm =
     (if probed_source_count dm = 0
      then run_bind (advance_traces T [epoch dm] dm) (\<lambda>dm'. Inr (Inr (), dm'))
      else let frontier = probe_frontier (domain_probe dm) in
        if frontier = []
        then run_bind (advance_traces T [epoch dm] dm) (\<lambda>dm'. Inr (Inr (), dm'))
        else run_bind (if \<not> frontier_le (lat T) frontier (epoch dm)
                       then advance_epoch T (Max (set frontier)) dm
                       else Inr (Inr (), dm))
               (\<lambda>(res, dm1). case res of
                  Inl err \<Rightarrow> Inr (Inl err, dm1)
                | Inr _ \<Rightarrow> run_bind (advance_traces T frontier dm1) (\<lambda>dm2. Inr (Inr (), dm2))))"

definition dominates ::
  "'t time_ops \<Rightarrow> ('pr \<Rightarrow> 't list) \<Rightarrow> 't list \<Rightarrow> ('t, 'r, 'b, 'pr) domain \<Rightarrow> bool" where
  "dominates T probe_frontier frontier dm =
     (if probed_source_count dm = 0 then list_ex (\<lambda>f. less_than (lat T) f (epoch dm)) frontier
      else if frontier = [] then False
      else list_all (\<lambda>t. list_ex (\<lambda>f. less_than (lat T) f t) frontier)
             (probe_frontier (domain_probe dm)))"

section \<open>Look-ups\<close>

definition rule_of :: "aid \<Rightarrow> ('t, 'r, 'b, 'pr) domain \<Rightarrow> 'r option" where
  "rule_of name dm = map_of (rules dm) name"

definition has_attribute :: "aid \<Rightarrow> ('t, 'r, 'b, 'pr) domain \<Rightarrow> bool" where
  "has_attribute name dm \<longleftrightarrow> map_of (attributes dm) name \<noteq> None"

definition forward_count_of :: "aid \<Rightarrow> ('t, 'r, 'b, 'pr) domain \<Rightarrow> (df_value, 't) trace_key_handle option" where
  "forward_count_of name dm = map_of (forward_count dm) name"

definition forward_propose_of ::
  "aid \<Rightarrow> ('t, 'r, 'b, 'pr) domain \<Rightarrow> (df_value, df_value, 't) trace_val_handle option" where
  "forward_propose_of name dm = map_of (forward_propose dm) name"

definition forward_validate_of ::
  "aid \<Rightarrow> ('t, 'r, 'b, 'pr) domain \<Rightarrow> (df_value \<times> df_value, 't) trace_key_handle option" where
  "forward_validate_of name dm = map_of (forward_validate dm) name"

definition reverse_count_of :: "aid \<Rightarrow> ('t, 'r, 'b, 'pr) domain \<Rightarrow> (df_value, 't) trace_key_handle option" where
  "reverse_count_of name dm = map_of (reverse_count dm) name"

definition reverse_propose_of ::
  "aid \<Rightarrow> ('t, 'r, 'b, 'pr) domain \<Rightarrow> (df_value, df_value, 't) trace_val_handle option" where
  "reverse_propose_of name dm = map_of (reverse_propose dm) name"

definition reverse_validate_of ::
  "aid \<Rightarrow> ('t, 'r, 'b, 'pr) domain \<Rightarrow> (df_value \<times> df_value, 't) trace_key_handle option" where
  "reverse_validate_of name dm = map_of (reverse_validate dm) name"

section \<open>Domains under construction\<close>

record ('t, 'r, 'b, 'pr) scoped_domain =
  raw :: "(aid, (df_value \<times> df_value, 't) collection) hash_map"
  scoped :: "('t, 'r, 'b, 'pr) domain"

text \<open>A freshly arranged collection: nothing may be compacted yet.\<close>

definition arrange :: "'t time_ops \<Rightarrow> ('d, 't) collection \<Rightarrow> ('d, 't) trace_agent" where
  "arrange T c = \<lparr> contents = c, advanced = [tminimum (lat T)], distinguished = [tminimum (lat T)] \<rparr>"

definition scoped_add_assign ::
  "'t time_ops \<Rightarrow> ('t, 'r, 'b, 'pr) scoped_domain \<Rightarrow> ('t, 'r, 'b, 'pr) scoped_domain \<Rightarrow>
   ('t, 'r, 'b, 'pr) scoped_domain run" where
  "scoped_add_assign T self other =
     run_bind (domain_add_assign T (scoped self) (scoped other))
       (\<lambda>dm. Inr \<lparr> raw = hm_extend (raw self) (raw other), scoped = dm \<rparr>)"

definition raw_index ::
  "('t, 'r, 'b, 'pr) scoped_domain \<Rightarrow> aid \<Rightarrow> (df_value \<times> df_value, 't) collection run" where
  "raw_index sd name = expect ''no entry found for key'' (map_of (raw sd) name)"

text \<open>\<^verbatim>\<open>for aid in keys { map.insert(aid, self.raw[aid].map(f).arrange_named(..).trace) }\<close>.\<close>

fun install_indices ::
  "'t time_ops \<Rightarrow> ('t, 'r, 'b, 'pr) scoped_domain \<Rightarrow> (df_value \<times> df_value \<Rightarrow> 'd) \<Rightarrow> aid list \<Rightarrow>
   (aid, ('d, 't) trace_agent) hash_map \<Rightarrow> (aid, ('d, 't) trace_agent) hash_map run" where
  "install_indices T sd f [] m = Inr m"
| "install_indices T sd f (name # names) m =
     run_bind (raw_index sd name)
       (\<lambda>c. install_indices T sd f names (hm_insert name (arrange T (coll_map f c)) m))"

definition with_query_support ::
  "'t time_ops \<Rightarrow> query_support \<Rightarrow> ('t, 'r, 'b, 'pr) scoped_domain \<Rightarrow>
   ('t, 'r, 'b, 'pr) scoped_domain run" where
  "with_query_support T support sd =
     (let dm = scoped sd; names = keys_of (forward_propose dm) in
      run_bind (if support = AdaptiveWCO
                then install_indices T sd (\<lambda>(k, _). (k, ())) names (forward_count dm)
                else Inr (forward_count dm)) (\<lambda>fc.
      run_bind (if query_support_rank Delta \<le> query_support_rank support
                then install_indices T sd (\<lambda>t. (t, ())) names (forward_validate dm)
                else Inr (forward_validate dm)) (\<lambda>fv.
      Inr (sd \<lparr> scoped := dm \<lparr> forward_count := fc, forward_validate := fv \<rparr> \<rparr>))))"

definition with_reverse_indices ::
  "'t time_ops \<Rightarrow> ('t, 'r, 'b, 'pr) scoped_domain \<Rightarrow> ('t, 'r, 'b, 'pr) scoped_domain run" where
  "with_reverse_indices T sd =
     (let dm = scoped sd in
      run_bind (install_indices T sd (\<lambda>(_, v). (v, ())) (keys_of (forward_count dm)) (reverse_count dm)) (\<lambda>rc.
      run_bind (install_indices T sd (\<lambda>(e, v). (v, e)) (keys_of (forward_propose dm)) (reverse_propose dm)) (\<lambda>rp.
      run_bind (install_indices T sd (\<lambda>pair. (pair, ())) (keys_of (forward_validate dm)) (reverse_validate dm)) (\<lambda>rv.
      Inr (sd \<lparr> scoped := dm \<lparr> reverse_count := rc, reverse_propose := rp, reverse_validate := rv \<rparr> \<rparr>)))))"

definition with_slack ::
  "('t \<Rightarrow> time) \<Rightarrow> 't \<Rightarrow> ('t, 'r, 'b, 'pr) scoped_domain \<Rightarrow> ('t, 'r, 'b, 'pr) scoped_domain" where
  "with_slack into slack sd =
     sd \<lparr> scoped := scoped sd \<lparr> attributes :=
       map (\<lambda>(k, config). (k, config \<lparr> trace_slack := Some (into slack) \<rparr>)) (attributes (scoped sd)) \<rparr> \<rparr>"

definition scoped_into :: "('t, 'r, 'b, 'pr) scoped_domain \<Rightarrow> ('t, 'r, 'b, 'pr) domain" where
  "scoped_into sd = scoped sd"

text \<open>The attribute itself: its forward index and its default configuration.\<close>

definition singleton_of ::
  "'t time_ops \<Rightarrow> aid \<Rightarrow> (df_value \<times> df_value, 't) collection \<Rightarrow> ('t, 'r, 'b, 'pr) domain \<Rightarrow>
   ('t, 'r, 'b, 'pr) scoped_domain" where
  "singleton_of T name pairs dm =
     \<lparr> raw = [(name, pairs)],
       scoped = dm \<lparr> forward_propose := hm_insert name (arrange T pairs) (forward_propose dm),
         attributes := hm_insert name default_config (attributes dm) \<rparr> \<rparr>"

definition singleton_timeless ::
  "'t time_ops \<Rightarrow> 'pr \<Rightarrow> aid \<Rightarrow> ((df_value \<times> df_value) \<times> int) list \<Rightarrow> ('t, 'r, 'b, 'pr) scoped_domain" where
  "singleton_timeless T probe name stream =
     singleton_of T name (map (\<lambda>(data, diff). (data, dflt T, diff)) stream) (domain_new T probe (dflt T))"

definition singleton_sourced ::
  "'t time_ops \<Rightarrow> 'pr \<Rightarrow> aid \<Rightarrow> (df_value \<times> df_value, 't) collection \<Rightarrow> ('t, 'r, 'b, 'pr) scoped_domain" where
  "singleton_sourced T probe name pairs =
     (let dm = domain_new T probe (dflt T)
      in singleton_of T name pairs (dm \<lparr> probed_source_count := probed_source_count dm + 1 \<rparr>))"

definition singleton_transactable ::
  "'t time_ops \<Rightarrow> 'pr \<Rightarrow> aid \<Rightarrow> 't \<Rightarrow> (df_value \<times> df_value, 't) collection \<Rightarrow>
   ('t, 'r, 'b, 'pr) scoped_domain" where
  "singleton_transactable T probe name cap pairs =
     (let dm = domain_new T probe (dflt T)
      in singleton_of T name pairs
           (dm \<lparr> input_sessions := hm_insert name (session_from cap) (input_sessions dm) \<rparr>))"

section \<open>Invariant\<close>

text \<open>No input session is ahead of the domain epoch, and every session keeps its capability
  discipline.\<close>

definition domain_inv :: "'t lattice_ops \<Rightarrow> ('t, 'r, 'b, 'pr) domain \<Rightarrow> bool" where
  "domain_inv L dm \<longleftrightarrow>
     distinct (keys_of (input_sessions dm)) \<and>
     (\<forall>(k, s) \<in> set (input_sessions dm). session_inv L s \<and> less_equal L (ses_time s) (now_at dm))"

definition advance_session :: "'t lattice_ops \<Rightarrow> 't \<Rightarrow> ('d, 't) session \<Rightarrow> ('d, 't) session" where
  "advance_session L t s = session_flush L (s \<lparr> ses_time := t \<rparr>)"

lemma domain_new_inv: "domain_inv L (domain_new T probe t)"
  by (simp add: domain_inv_def domain_new_def)

context time_lattice
begin

lemma advance_session_run:
  "less_equal L (ses_time s) t \<Longrightarrow>
   run_bind (session_advance_to L t s) (\<lambda>s'. Inr (session_flush L s')) = Inr (advance_session L t s)"
  by (simp add: session_advance_to_def advance_session_def)

lemma advance_session_spec:
  assumes "session_inv L s" and "less_equal L (ses_time s) t"
  shows "session_inv L (advance_session L t s) \<and> ses_time (advance_session L t s) = t \<and>
    ses_cap (advance_session L t s) = t \<and> session_log (advance_session L t s) = session_log s \<and>
    buffer (advance_session L t s) = []"
proof -
  have adv: "session_advance_to L t s = Inr (s \<lparr> ses_time := t \<rparr>)"
    using assms(2) by (simp add: session_advance_to_def)
  have inv: "session_inv L (s \<lparr> ses_time := t \<rparr>)"
    by (rule input_session.advance_inv[OF session_input_session assms(1) adv])
  have "buffer (session_flush L s') = []" for s' :: "('b, 't) session"
    by (simp add: session_flush_def give_buffer_def Let_def)
  with session_flush_inv[OF inv] session_flush_times[OF inv]
    input_session.flush_log[OF session_input_session, of "s \<lparr> ses_time := t \<rparr>"]
  show ?thesis by (simp add: advance_session_def)
qed

lemma advance_epoch_spec:
  assumes "lat T = L" and "domain_inv L dm" and "less_equal L (now_at dm) t"
  shows "advance_epoch T t dm = Inr (Inr (), if now_at dm = t then dm else
      dm \<lparr> input_sessions := map (\<lambda>(k, s). (k, advance_session L t s)) (input_sessions dm), now_at := t \<rparr>)"
proof -
  have "hm_map_run (\<lambda>handle. run_bind (session_advance_to L t handle) (\<lambda>h. Inr (session_flush L h)))
      (input_sessions dm) = Inr (map (\<lambda>(k, s). (k, advance_session L t s)) (input_sessions dm))"
  proof (rule hm_map_run_total)
    fix k s
    assume "(k, s) \<in> set (input_sessions dm)"
    then have "less_equal L (ses_time s) t" using assms(2,3) trans by (fastforce simp: domain_inv_def)
    then show "run_bind (session_advance_to L t s) (\<lambda>h. Inr (session_flush L h)) = Inr (advance_session L t s)"
      by (rule advance_session_run)
  qed
  with assms(1,3) show ?thesis by (simp add: advance_epoch_def)
qed

end

section \<open>Properties\<close>

lemma domain_inv_advanced:
  assumes "time_lattice L" and "domain_inv L dm" and "less_equal L (now_at dm) t"
  shows "domain_inv L (dm \<lparr> input_sessions := map (\<lambda>(k, s). (k, advance_session L t s)) (input_sessions dm),
    now_at := t \<rparr>)"
proof -
  have "session_inv L (advance_session L t s) \<and> less_equal L (ses_time (advance_session L t s)) t"
    if "(k, s) \<in> set (input_sessions dm)" for k s
    using that assms time_lattice.advance_session_spec[OF assms(1), of s t]
      time_lattice.trans[OF assms(1)] time_lattice.refl[OF assms(1)]
    by (fastforce simp: domain_inv_def)
  then show ?thesis using assms(2) by (auto simp: domain_inv_def)
qed


definition u64_time :: "u64 time_ops" where
  "u64_time = \<lparr> lat = u64_ops, rewind_by = u64_rewind, from_time = time_into_u64,
     debug = (\<lambda>t. decimal (unat t)), dflt = 0 \<rparr>"

definition demo_domain :: "(u64, unit, unit, unit) domain" where
  "demo_domain = (domain_new u64_time () 5) \<lparr>
     input_sessions := [(''age'', session_from 5)], attributes := [(''age'', tx_time Raw)],
     forward_propose := [(''age'', arrange u64_time [])] \<rparr>"

lemma demo_domain_inv: "domain_inv u64_ops demo_domain"
  by (simp add: domain_inv_def demo_domain_def domain_new_def session_from_def session_inv_def
      total_ops_def)


text \<open>The updates that a transaction adds to one attribute, stamped with the capability of its session
  unless the datom carries a time.\<close>

fun stamped ::
  "'t time_ops \<Rightarrow> aid \<Rightarrow> 't \<Rightarrow> aid datom list \<Rightarrow> (df_value \<times> df_value, 't) collection" where
  "stamped T name cap [] = []"
| "stamped T name cap (Datom e a v t diff # tx) =
     (if a = name
      then [((e, v), case t of None \<Rightarrow> cap | Some x \<Rightarrow> projr (from_time T x), diff)] else []) @
     stamped T name cap tx"

definition transactable :: "'t time_ops \<Rightarrow> ('t, 'r, 'b, 'pr) domain \<Rightarrow> aid datom \<Rightarrow> bool" where
  "transactable T dm d \<longleftrightarrow>
     (case map_of (input_sessions dm) (datom_a d) of
        None \<Rightarrow> False
      | Some s \<Rightarrow> (case datom_t d of
          None \<Rightarrow> True
        | Some t \<Rightarrow> (case from_time T t of Inl _ \<Rightarrow> False | Inr x \<Rightarrow> less_equal (lat T) (ses_cap s) x)))"

lemma transact_step:
  assumes "time_lattice (lat T)" and "domain_inv (lat T) dm" and "transactable T dm (Datom e a v t diff)"
  shows "\<exists>s s'. map_of (input_sessions dm) a = Some s \<and>
    transact T (Datom e a v t diff # tx) dm =
      transact T tx (dm \<lparr> input_sessions := hm_insert a s' (input_sessions dm) \<rparr>) \<and>
    domain_inv (lat T) (dm \<lparr> input_sessions := hm_insert a s' (input_sessions dm) \<rparr>) \<and>
    ses_cap s' = ses_cap s \<and> session_log s' = session_log s @ stamped T a (ses_cap s) [Datom e a v t diff]"
proof -
  note contract = time_lattice.session_input_session[OF assms(1)]
  obtain s where s: "map_of (input_sessions dm) a = Some s"
    using assms(3) by (auto simp: transactable_def split: option.splits)
  have inv: "session_inv (lat T) s" "less_equal (lat T) (ses_time s) (now_at dm)"
    using assms(2) map_of_SomeD[OF s] by (auto simp: domain_inv_def)
  have keep: "domain_inv (lat T) (dm \<lparr> input_sessions := hm_insert a s' (input_sessions dm) \<rparr>)"
    if "session_inv (lat T) s'" "ses_time s' = ses_time s" for s'
    using that assms(2) inv
    by (fastforce simp: domain_inv_def distinct_update dest!: hm_insert_set)
  show ?thesis
  proof (cases t)
    case None
    let ?s' = "session_update (e, v) diff s"
    have "transact T (Datom e a v t diff # tx) dm =
        transact T tx (dm \<lparr> input_sessions := hm_insert a ?s' (input_sessions dm) \<rparr>)"
      by (simp add: s None)
    moreover have "session_inv (lat T) ?s'" using inv(1) by (rule input_session.update_inv[OF contract])
    ultimately show ?thesis
      using keep[of ?s'] input_session.update_times[OF contract, of "(e, v)" diff s]
        input_session.update_log[OF contract, of "(e, v)" diff s] s None
      by fastforce
  next
    case (Some x)
    then obtain y where y: "from_time T x = Inr y" "less_equal (lat T) (ses_cap s) y"
      using assms(3) s by (auto simp: transactable_def split: sum.splits)
    then obtain s' where s': "session_update_at (lat T) (e, v) y diff s = Inr s'"
      by (simp add: session_update_at_def Let_def)
    then have "transact T (Datom e a v t diff # tx) dm =
        transact T tx (dm \<lparr> input_sessions := hm_insert a s' (input_sessions dm) \<rparr>)"
      by (simp add: s Some y)
    moreover have "session_inv (lat T) s'" using inv(1) s' by (rule input_session.update_at_inv[OF contract])
    ultimately show ?thesis
      using keep[of s'] input_session.update_at_times[OF contract s']
        input_session.update_at_log[OF contract s'] s y Some
      by fastforce
  qed
qed

lemma transactable_insert:
  "map_of (input_sessions dm) a = Some s \<Longrightarrow> ses_cap s' = ses_cap s \<Longrightarrow> transactable T dm d \<Longrightarrow>
   transactable T (dm \<lparr> input_sessions := hm_insert a s' (input_sessions dm) \<rparr>) d"
  by (auto simp: transactable_def split: option.splits if_splits sum.splits)

text \<open>C21: A transaction whose datoms all name existing inputs and whose explicit times convert and are
  not before the capability of their input succeeds, and appends to every input exactly its own datoms,
  in order, each once and with the right time; the domain invariant is kept.\<close>

theorem transact_appends:
  assumes "time_lattice (lat T)" and "domain_inv (lat T) dm" and "list_all (transactable T dm) tx"
  shows "\<exists>dm'. transact T tx dm = Inr (Inr (), dm') \<and> domain_inv (lat T) dm' \<and> now_at dm' = now_at dm \<and>
    (\<forall>name. case map_of (input_sessions dm) name of
        None \<Rightarrow> map_of (input_sessions dm') name = None
      | Some s \<Rightarrow> (\<exists>s'. map_of (input_sessions dm') name = Some s' \<and> ses_cap s' = ses_cap s \<and>
          session_log s' = session_log s @ stamped T name (ses_cap s) tx))"
  using assms(2,3)
proof (induction tx arbitrary: dm)
  case Nil
  then show ?case by (auto split: option.splits)
next
  case (Cons d tx)
  obtain e a v t diff where d: "d = Datom e a v t diff" by (cases d)
  from transact_step[OF assms(1) Cons.prems(1), of e a v t diff tx] Cons.prems(2)
  obtain s s' where s: "map_of (input_sessions dm) a = Some s" "ses_cap s' = ses_cap s"
    "transact T (d # tx) dm = transact T tx (dm \<lparr> input_sessions := hm_insert a s' (input_sessions dm) \<rparr>)"
    "domain_inv (lat T) (dm \<lparr> input_sessions := hm_insert a s' (input_sessions dm) \<rparr>)"
    "session_log s' = session_log s @ stamped T a (ses_cap s) [d]"
    by (auto simp: d)
  have "list_all (transactable T (dm \<lparr> input_sessions := hm_insert a s' (input_sessions dm) \<rparr>)) tx"
    using Cons.prems(2) transactable_insert[OF s(1,2)] by (auto simp: list_all_iff)
  from Cons.IH[OF s(4) this] obtain dm' where dm':
    "transact T tx (dm \<lparr> input_sessions := hm_insert a s' (input_sessions dm) \<rparr>) = Inr (Inr (), dm')"
    "domain_inv (lat T) dm'" "now_at dm' = now_at dm"
    "\<forall>name. case ((map_of (input_sessions dm))(a \<mapsto> s')) name of
        None \<Rightarrow> map_of (input_sessions dm') name = None
      | Some s \<Rightarrow> (\<exists>s'. map_of (input_sessions dm') name = Some s' \<and> ses_cap s' = ses_cap s \<and>
          session_log s' = session_log s @ stamped T name (ses_cap s) tx)" by auto
  have "case map_of (input_sessions dm) name of
        None \<Rightarrow> map_of (input_sessions dm') name = None
      | Some s \<Rightarrow> (\<exists>s'. map_of (input_sessions dm') name = Some s' \<and> ses_cap s' = ses_cap s \<and>
          session_log s' = session_log s @ stamped T name (ses_cap s) (d # tx))" for name
    using dm'(4)[rule_format, of name] s(1,2,5) by (cases "name = a") (auto simp: d split: option.splits)
  with dm' s(3) show ?case by auto
qed

theorem transact_appends_witness:
  "\<exists>dm' s'. transact u64_time [datom_add 1 ''age'' (Number 12), datom_add_at 2 ''age'' (Number 30) (TxId 9)]
      demo_domain = Inr (Inr (), dm') \<and> map_of (input_sessions dm') ''age'' = Some s' \<and>
    session_log s' = [((Eid 1, Number 12), 5, 1), ((Eid 2, Number 30), 9, 1)]"
proof -
  let ?tx = "[datom_add 1 ''age'' (Number 12), datom_add_at 2 ''age'' (Number 30) (TxId 9)]"
  have T: "time_lattice (lat u64_time)" "domain_inv (lat u64_time) demo_domain"
    using u64_lat.time_lattice_axioms demo_domain_inv by (simp_all add: u64_time_def)
  have "list_all (transactable u64_time demo_domain) ?tx"
    by (simp add: transactable_def demo_domain_def datom_add_def datom_add_at_def u64_time_def
        session_from_def total_ops_def)
  from transact_appends[OF T this] obtain dm' where dm': "transact u64_time ?tx demo_domain = Inr (Inr (), dm')"
    and all: "\<forall>name. case map_of (input_sessions demo_domain) name of
        None \<Rightarrow> map_of (input_sessions dm') name = None
      | Some s \<Rightarrow> (\<exists>s'. map_of (input_sessions dm') name = Some s' \<and> ses_cap s' = ses_cap s \<and>
          session_log s' = session_log s @ stamped u64_time name (ses_cap s) ?tx)" by blast
  from all[rule_format, of "''age''"] dm' show ?thesis
    by (auto simp: demo_domain_def session_from_def session_log_def datom_add_def datom_add_at_def
        u64_time_def)
qed

text \<open>A transaction is not atomic: when a later datom names an unknown attribute it fails with not
  found, but the earlier datoms stay in their inputs.\<close>

theorem transact_not_atomic:
  "\<exists>dm' s'. transact u64_time [datom_add 1 ''age'' (Number 12), datom_add 1 ''name'' (String ''x'')]
      demo_domain = Inr (Inl (not_found ''Attribute name does not exist.''), dm') \<and>
    map_of (input_sessions dm') ''age'' = Some s' \<and> session_log s' = [((Eid 1, Number 12), 5, 1)]"
  by (simp add: demo_domain_def datom_add_def session_update_def Let_def session_from_def make_room_def
      reserve_def session_log_def)

subsection \<open>Compaction\<close>

lemma compact_trace_get:
  "map_of (compact_trace name F m) k =
     map_option (\<lambda>tr. if k = name then tr \<lparr> advanced := F, distinguished := F \<rparr> else tr) (map_of m k)"
  by (induction m) (auto simp: compact_trace_def)

lemma compact_attribute_keeps [simp]:
  "input_sessions (compact_attribute n F dm) = input_sessions dm" "now_at (compact_attribute n F dm) = now_at dm"
  "attributes (compact_attribute n F dm) = attributes dm"
  "forward_propose (compact_attribute n F dm) = compact_trace n F (forward_propose dm)"
  by (simp_all add: compact_attribute_def)

lemma compact_attributes_keeps:
  "compact_attributes T F attrs dm = Inr dm' \<Longrightarrow>
   input_sessions dm' = input_sessions dm \<and> now_at dm' = now_at dm \<and> attributes dm' = attributes dm"
  by (induction T F attrs dm rule: compact_attributes.induct) (auto simp: run_simps split: option.splits)

lemma compact_attributes_returns:
  "(\<And>name config slack. (name, config) \<in> set attrs \<Longrightarrow> trace_slack config = Some slack \<Longrightarrow>
      returns (from_time T slack)) \<Longrightarrow> returns (compact_attributes T F attrs dm)"
proof (induction T F attrs dm rule: compact_attributes.induct)
  case (2 T F name config attrs dm)
  show ?case
  proof (cases "trace_slack config")
    case None
    with 2 show ?thesis by auto
  next
    case (Some slack)
    with "2.prems" obtain s where "from_time T slack = Inr s" by (force simp: returns_def)
    then have "run_map (\<lambda>t. run_bind (from_time T slack) (\<lambda>s. Inr (rewind_by T t s))) F =
        Inr (map (\<lambda>t. rewind_by T t s) F)" by (intro run_map_total) simp
    with Some "2.IH"(2) "2.prems" show ?thesis by fastforce
  qed
qed simp

lemma compact_attributes_other:
  "name \<notin> set (keys_of attrs) \<Longrightarrow> compact_attributes T F attrs dm = Inr dm' \<Longrightarrow>
   map_of (forward_propose dm') name = map_of (forward_propose dm) name"
proof (induction T F attrs dm rule: compact_attributes.induct)
  case (2 T F n config attrs dm)
  then show ?case
    by (cases "trace_slack config") (auto simp: run_simps compact_trace_get option.map_id0 id_def[symmetric])
qed simp

lemma compact_attributes_propose:
  assumes "distinct (keys_of attrs)" and "(name, config) \<in> set attrs" and "trace_slack config = Some slack"
    and "from_time T slack = Inr s"
  shows "compact_attributes T F attrs dm = Inr dm' \<Longrightarrow> map_of (forward_propose dm) name = Some tr \<Longrightarrow>
    map_of (forward_propose dm') name =
      Some (tr \<lparr> advanced := map (\<lambda>f. rewind_by T f s) F, distinguished := map (\<lambda>f. rewind_by T f s) F \<rparr>)"
  using assms
proof (induction attrs arbitrary: dm tr)
  case Nil
  then show ?case by simp
next
  case (Cons e attrs)
  obtain n c where e: "e = (n, c)" by fastforce
  show ?case
  proof (cases "n = name")
    case True
    then have c: "c = config" using Cons.prems(3,4) e by (force dest: eq_key_imp_eq_value)
    let ?F = "map (\<lambda>f. rewind_by T f s) F"
    have rm: "run_map (\<lambda>t. run_bind (from_time T slack) (\<lambda>s. Inr (rewind_by T t s))) F = Inr ?F"
      using Cons.prems(6) by (intro run_map_total) simp
    have "name \<notin> set (keys_of attrs)" using Cons.prems(3) e True by simp
    moreover have "compact_attributes T F attrs (compact_attribute name ?F dm) = Inr dm'"
      using Cons.prems(1,5) by (simp add: e True c rm)
    ultimately show ?thesis
      using compact_attributes_other[of name attrs T F "compact_attribute name ?F dm" dm'] Cons.prems(2)
      by (simp add: compact_trace_get)
  next
    case False
    then have "(name, config) \<in> set attrs" using Cons.prems(4) e by auto
    show ?thesis
    proof (cases "trace_slack c")
      case None
      with Cons \<open>(name, config) \<in> set attrs\<close> e show ?thesis by auto
    next
      case (Some sl)
      with Cons.prems(1) obtain G where "compact_attributes T F attrs (compact_attribute n G dm) = Inr dm'"
        by (auto simp: e run_simps)
      with Cons False \<open>(name, config) \<in> set attrs\<close> show ?thesis
        by (auto simp: e compact_trace_get)
    qed
  qed
qed



subsection \<open>Following the sources\<close>

lemma advance_traces_inv:
  "domain_inv L dm \<Longrightarrow> advance_traces T F dm = Inr dm' \<Longrightarrow> domain_inv L dm' \<and> now_at dm' = now_at dm"
  unfolding advance_traces_def
  by (auto split: if_splits dest!: compact_attributes_keeps simp: domain_inv_def)

definition slack_converts :: "'t time_ops \<Rightarrow> ('t, 'r, 'b, 'pr) domain \<Rightarrow> bool" where
  "slack_converts T dm \<longleftrightarrow> list_all (\<lambda>(name, config).
     case trace_slack config of None \<Rightarrow> True | Some slack \<Rightarrow> (case from_time T slack of Inl _ \<Rightarrow> False | Inr _ \<Rightarrow> True))
     (attributes dm)"

lemma slack_converts_returns:
  "slack_converts T dm \<Longrightarrow> (name, config) \<in> set (attributes dm) \<Longrightarrow> trace_slack config = Some slack \<Longrightarrow>
   returns (from_time T slack)"
  by (cases "from_time T slack") (fastforce simp: slack_converts_def list_all_iff returns_def)+

lemma advance_traces_returns: "slack_converts T dm \<Longrightarrow> returns (advance_traces T F dm)"
  using slack_converts_returns compact_attributes_returns[of "attributes dm" T F "dm \<lparr> last_advance := F \<rparr>"]
  by (fastforce simp: advance_traces_def)



definition bi_time :: "(duration, u64) pair time_ops" where
  "bi_time = \<lparr> lat = pair_ops duration_ops u64_ops, rewind_by = pair_rewind, from_time = time_into_pair,
     debug = (\<lambda>_. []), dflt = Pair (Duration 0 0) 0 \<rparr>"

text \<open>Over bitemporal times advancing a domain can fail although the sources only moved forward: the
  epoch (0 s, 9) lies behind no element of the frontier {(1 s, 2)}, the maximum of the frontier by the
  lexicographic order does not dominate it, and the domain reports an attempt to rewind.\<close>

theorem advance_bitemporal_conflict:
  "\<exists>msg. advance bi_time (\<lambda>_. [Pair (Duration 1 0) 2])
     ((domain_new bi_time () (Pair (Duration 0 0) 9)) \<lparr> probed_source_count := 1 \<rparr> :: (_, unit, unit, unit) domain) =
   Inr (Inl (conflict msg), (domain_new bi_time () (Pair (Duration 0 0) 9)) \<lparr> probed_source_count := 1 \<rparr>)"
  by (simp add: advance_def domain_new_def epoch_def bi_time_def frontier_le_def pair_ops_def pair_less_equal_def
      total_ops_def less_eq_duration_def advance_epoch_def) blast

text \<open>Adding an attribute to a running domain takes the epoch back to the epoch of the new attribute
  while the existing inputs stay where they are; advancing the epoch afterwards to a time between the two
  panics in the input session instead of being refused.\<close>

theorem add_attribute_rewinds_epoch:
  "\<exists>dm. domain_add_assign u64_time demo_domain
       (scoped_into (singleton_transactable u64_time () ''name'' 0 [])) = Inr dm \<and> now_at dm = 0 \<and>
     advance_epoch u64_time 3 dm = Inl ''assertion failed: self.epoch().less_equal(&time)''"
  by (simp add: domain_add_assign_def demo_domain_def domain_new_def scoped_into_def singleton_transactable_def
      singleton_of_def u64_time_def total_ops_def hm_extend_def advance_epoch_def hm_map_run_def
      session_advance_to_def session_from_def)

subsection \<open>Index contents\<close>


text \<open>C32: The reverse validation index is keyed like the forward one, by (entity, value). A join that
  reaches an entity from a value looks up (value, entity): for a single tuple the reverse index proposes
  the entity, but the validation of that very proposal finds nothing.\<close>

theorem reverse_validate_misses:
  assumes "e \<noteq> v"
  shows "\<exists>sd1 sd2 rp rv. with_query_support T AdaptiveWCO
       (singleton_transactable T probe name cap [((e, v), t, 1)]) = Inr sd1 \<and>
     with_reverse_indices T sd1 = Inr sd2 \<and>
     reverse_propose_of name (scoped sd2) = Some rp \<and> reverse_validate_of name (scoped sd2) = Some rv \<and>
     acc (contents rp) (v, e) t = 1 \<and> acc (contents rv) ((v, e), ()) t = 0"
  using assms
  by (simp add: with_query_support_def with_reverse_indices_def singleton_transactable_def singleton_of_def
      domain_new_def Let_def raw_index_def expect_def arrange_def coll_map_def
      reverse_propose_of_def reverse_validate_of_def)

theorem reverse_validate_misses_witness:
  "\<exists>sd1 sd2 rp rv. with_query_support u64_time AdaptiveWCO
       (singleton_transactable u64_time () ''edge'' 0 [((Eid 1, Eid 2), 0, 1)] :: (_, unit, unit, _) scoped_domain) =
         Inr sd1 \<and>
     with_reverse_indices u64_time sd1 = Inr sd2 \<and>
     reverse_propose_of ''edge'' (scoped sd2) = Some rp \<and> reverse_validate_of ''edge'' (scoped sd2) = Some rv \<and>
     acc (contents rp) (Eid 2, Eid 1) 0 = 1 \<and> acc (contents rv) ((Eid 2, Eid 1), ()) 0 = 0"
  by (rule reverse_validate_misses) simp

end
