(* ===== verification/Bindings.thy ===== *)
theory Bindings
  imports Values
begin

text \<open>
  The binding language of \<^verbatim>\<open>src/src/binding/mod.rs\<close>. The trait \<^verbatim>\<open>AsBinding\<close> uses its prefix argument
  only through \<^verbatim>\<open>binds\<close>, so a prefix is the function \<open>var \<Rightarrow> usize option\<close>. Its assertions are
  panics. The locale \<open>as_binding\<close> is the contract of the trait; it is interpreted on the operations of
  every kind of binding.
\<close>

type_synonym prefix = "var \<Rightarrow> usize option"

section \<open>Vectors of variables\<close>

definition vec_variables :: "var list \<Rightarrow> var list" where
  "vec_variables self = []"

definition vec_binds :: "var list \<Rightarrow> var \<Rightarrow> usize option" where
  "vec_binds self variable = position (\<lambda>x. variable = x) self"

definition vec_ready_to_extend :: "var list \<Rightarrow> prefix \<Rightarrow> var option" where
  "vec_ready_to_extend self prefix = None"

definition vec_required_to_extend :: "var list \<Rightarrow> prefix \<Rightarrow> var \<Rightarrow> var option option run" where
  "vec_required_to_extend self prefix target = Inr (Some None)"

section \<open>Bindings\<close>

datatype 'a attribute_binding =
  AttributeBinding (ab_variables: "var \<times> var") (source_attribute: 'a)

datatype constant_binding = ConstantBinding (cb_variable: var) (cb_value: df_value)

datatype binary_predicate = LT | GT | LTE | GTE | EQ | NEQ

datatype binary_predicate_binding =
  BinaryPredicateBinding (bp_variables: "var \<times> var") (bp_predicate: binary_predicate)

text \<open>\<^verbatim>\<open>AntijoinBinding\<close> only boxes the binding it negates.\<close>

datatype 'a binding =
    Attribute "'a attribute_binding"
  | Not "'a binding"
  | Constant constant_binding
  | BinaryPredicate binary_predicate_binding

definition binding_attribute :: "var \<Rightarrow> 'a \<Rightarrow> var \<Rightarrow> 'a binding" where
  "binding_attribute e name v = Attribute (AttributeBinding (e, v) name)"

definition binding_constant :: "var \<Rightarrow> df_value \<Rightarrow> 'a binding" where
  "binding_constant variable val = Constant (ConstantBinding variable val)"

definition binding_binary_predicate :: "binary_predicate \<Rightarrow> var \<Rightarrow> var \<Rightarrow> 'a binding" where
  "binding_binary_predicate predicate x y =
     BinaryPredicate (BinaryPredicateBinding (x, y) predicate)"

definition binding_not :: "'a binding \<Rightarrow> 'a binding" where
  "binding_not b = Not b"

subsection \<open>Two variables\<close>

text \<open>Attribute and predicate bindings answer for a pair of variables in the same way.\<close>

definition two_binds :: "var \<times> var \<Rightarrow> var \<Rightarrow> usize option" where
  "two_binds vs variable =
     (if fst vs = variable then Some 0 else if snd vs = variable then Some 1 else None)"

definition two_ready_to_extend :: "var \<times> var \<Rightarrow> prefix \<Rightarrow> var option" where
  "two_ready_to_extend vs prefix =
     (if prefix (fst vs) \<noteq> None \<and> prefix (snd vs) = None then Some (snd vs)
      else if prefix (snd vs) \<noteq> None \<and> prefix (fst vs) = None then Some (fst vs)
      else None)"

definition two_required_to_extend :: "var \<times> var \<Rightarrow> prefix \<Rightarrow> var \<Rightarrow> var option option run" where
  "two_required_to_extend vs prefix target =
     (case two_binds vs target of
        None \<Rightarrow> Inr None
      | Some offset \<Rightarrow>
          if offset = 0 then
            if prefix (fst vs) \<noteq> None then Inl ''assertion failed''
            else (case prefix (snd vs) of None \<Rightarrow> Inr (Some (Some (snd vs))) | Some _ \<Rightarrow> Inr (Some None))
          else
            if prefix (snd vs) \<noteq> None then Inl ''assertion failed''
            else (case prefix (fst vs) of None \<Rightarrow> Inr (Some (Some (fst vs))) | Some _ \<Rightarrow> Inr (Some None)))"

subsection \<open>Constants\<close>

definition constant_binds :: "constant_binding \<Rightarrow> var \<Rightarrow> usize option" where
  "constant_binds c variable = (if cb_variable c = variable then Some 0 else None)"

definition constant_ready_to_extend :: "constant_binding \<Rightarrow> prefix \<Rightarrow> var option" where
  "constant_ready_to_extend c prefix =
     (if prefix (cb_variable c) = None then Some (cb_variable c) else None)"

definition constant_required_to_extend ::
  "constant_binding \<Rightarrow> prefix \<Rightarrow> var \<Rightarrow> var option option run" where
  "constant_required_to_extend c prefix target =
     (case constant_binds c target of
        None \<Rightarrow> Inr None
      | Some _ \<Rightarrow> (case prefix target of
                     None \<Rightarrow> Inr (Some (Some (cb_variable c)))
                   | Some _ \<Rightarrow> Inr (Some None)))"

subsection \<open>Dispatch\<close>

fun variables :: "'a binding \<Rightarrow> var list" where
  "variables (Attribute b) = [fst (ab_variables b), snd (ab_variables b)]"
| "variables (Not b) = variables b"
| "variables (Constant b) = [cb_variable b]"
| "variables (BinaryPredicate b) = [fst (bp_variables b), snd (bp_variables b)]"

fun binds :: "'a binding \<Rightarrow> var \<Rightarrow> usize option" where
  "binds (Attribute b) variable = two_binds (ab_variables b) variable"
| "binds (Not b) variable = binds b variable"
| "binds (Constant b) variable = constant_binds b variable"
| "binds (BinaryPredicate b) variable = two_binds (bp_variables b) variable"

fun ready_to_extend :: "'a binding \<Rightarrow> prefix \<Rightarrow> var option" where
  "ready_to_extend (Attribute b) prefix = two_ready_to_extend (ab_variables b) prefix"
| "ready_to_extend (Not b) prefix = ready_to_extend b prefix"
| "ready_to_extend (Constant b) prefix = constant_ready_to_extend b prefix"
| "ready_to_extend (BinaryPredicate b) prefix = two_ready_to_extend (bp_variables b) prefix"

fun required_to_extend :: "'a binding \<Rightarrow> prefix \<Rightarrow> var \<Rightarrow> var option option run" where
  "required_to_extend (Attribute b) prefix target =
     two_required_to_extend (ab_variables b) prefix target"
| "required_to_extend (Not b) prefix target = required_to_extend b prefix target"
| "required_to_extend (Constant b) prefix target = constant_required_to_extend b prefix target"
| "required_to_extend (BinaryPredicate b) prefix target =
     two_required_to_extend (bp_variables b) prefix target"

definition can_extend :: "'a binding \<Rightarrow> prefix \<Rightarrow> var \<Rightarrow> bool" where
  "can_extend b prefix target \<longleftrightarrow> ready_to_extend b prefix = Some target"

subsection \<open>The derived order\<close>

fun predicate_tag :: "binary_predicate \<Rightarrow> nat" where
  "predicate_tag LT = 0"
| "predicate_tag GT = 1"
| "predicate_tag LTE = 2"
| "predicate_tag GTE = 3"
| "predicate_tag EQ = 4"
| "predicate_tag NEQ = 5"

fun binding_key :: "'a binding \<Rightarrow> nat list \<times> (var \<times> var) \<times> 'a list \<times> df_value \<times> nat" where
  "binding_key (Attribute b) = ([0], ab_variables b, [source_attribute b], Bool False, 0)"
| "binding_key (Not b) = (case binding_key b of (tags, key) \<Rightarrow> (1 # tags, key))"
| "binding_key (Constant b) = ([2], (cb_variable b, 0), [], cb_value b, 0)"
| "binding_key (BinaryPredicate b) = ([3], bp_variables b, [], Bool False, predicate_tag (bp_predicate b))"

lemma predicate_tag_inj [simp]: "predicate_tag a = predicate_tag b \<longleftrightarrow> a = b"
  by (cases a; cases b) simp_all

lemma binding_key_inj [simp]: "binding_key a = binding_key b \<longleftrightarrow> a = b"
proof (induction a arbitrary: b)
  case (Attribute x)
  obtain e v a where "x = AttributeBinding (e, v) a" by (metis attribute_binding.exhaust prod.exhaust)
  then show ?case by (cases b) (auto split: prod.splits simp: attribute_binding.expand)
next
  case (Not a)
  show ?case
  proof (cases b)
    case (Not b')
    then show ?thesis using Not.IH[of b'] by (cases "binding_key a"; cases "binding_key b'") auto
  qed (simp_all split: prod.splits)
next
  case (Constant x)
  then show ?case by (cases b) (auto split: prod.splits simp: constant_binding.expand)
next
  case (BinaryPredicate x)
  then show ?case by (cases b) (auto split: prod.splits simp: binary_predicate_binding.expand)
qed

instantiation binding :: (linorder) linorder
begin

definition less_eq_binding :: "'a binding \<Rightarrow> 'a binding \<Rightarrow> bool" where
  "less_eq_binding a b \<longleftrightarrow> binding_key a \<le> binding_key b"

definition less_binding :: "'a binding \<Rightarrow> 'a binding \<Rightarrow> bool" where
  "less_binding a b \<longleftrightarrow> binding_key a < binding_key b"

instance
  by standard
     (auto simp: less_eq_binding_def less_binding_def less_le_not_le
        simp flip: binding_key_inj intro: order_trans order_antisym)

end

section \<open>The contract of AsBinding\<close>

locale as_binding =
  fixes bvars :: "var list" and bbinds :: prefix and bready :: "prefix \<Rightarrow> var option"
    and brequired :: "prefix \<Rightarrow> var \<Rightarrow> var option option run"
  assumes binds_offset: "bbinds v = Some i \<Longrightarrow> i < length bvars \<and> bvars ! i = v"
    and binds_complete: "v \<in> set bvars \<Longrightarrow> bbinds v \<noteq> None"
    and ready_new: "bready p = Some v \<Longrightarrow> v \<in> set bvars \<and> p v = None"
    and ready_local: "(\<And>v. v \<in> set bvars \<Longrightarrow> p v = None \<longleftrightarrow> q v = None) \<Longrightarrow> bready p = bready q"
    and required_returns: "p v = None \<Longrightarrow> returns (brequired p v)"
    and required_bound: "brequired p v = Inr r \<Longrightarrow> r = None \<longleftrightarrow> bbinds v = None"
begin

lemma binds_iff: "bbinds v \<noteq> None \<longleftrightarrow> v \<in> set bvars"
  using binds_offset binds_complete by (metis not_None_eq nth_mem)

lemma closed_not_ready: "(\<And>v. v \<in> set bvars \<Longrightarrow> p v \<noteq> None) \<Longrightarrow> bready p = None"
  using ready_new by (metis option.exhaust)

lemma ready_binds: "bready p = Some v \<Longrightarrow> bbinds v \<noteq> None"
  using ready_new binds_complete by blast

end

lemmas two_defs = two_binds_def two_ready_to_extend_def two_required_to_extend_def
lemmas constant_defs =
  constant_binds_def constant_ready_to_extend_def constant_required_to_extend_def

interpretation two: as_binding
  "[fst vs, snd vs]" "two_binds vs" "two_ready_to_extend vs" "two_required_to_extend vs"
  for vs :: "var \<times> var"
  by unfold_locales
     (auto simp: two_defs split: if_splits option.splits)

interpretation const: as_binding
  "[cb_variable c]" "constant_binds c" "constant_ready_to_extend c" "constant_required_to_extend c"
  for c :: constant_binding
  by unfold_locales (auto simp: constant_defs split: if_splits option.splits)

lemma binding_as_binding:
  "as_binding (variables b) (binds b) (ready_to_extend b) (required_to_extend b)"
  by (induction b)
     (simp_all add: two.as_binding_axioms const.as_binding_axioms)

interpretation bnd: as_binding
  "variables b" "binds b" "ready_to_extend b" "required_to_extend b" for b :: "'a binding"
  by (rule binding_as_binding)

end
