(* ===== verification/Relations.thy ===== *)
theory Relations
  imports Domains Bindings
begin

text \<open>
  Relations between variables, from \<^verbatim>\<open>src/src/lib.rs\<close>: collections of tuples and attributes, their
  projections and their partition into key and value parts.

  A relation lives in the iterative scope, whose times pair the time of the domain with a round. The
  buttons of a shutdown handle are named by the trace they were imported from. Reading a trace into a
  scope belongs to differential dataflow and is the parameter \<open>import_trace\<close>. The locale
  \<open>relation_contract\<close> is what the plans rely on; it is interpreted for both kinds of relations.
\<close>

datatype button = Propose aid | ReversePropose aid | Count aid | Validate aid | ReverseCount aid | ReverseValidate aid

type_synonym handle = "button shutdown_handle"
type_synonym ('t, 'r, 'pr) dom = "('t, 'r, button, 'pr) domain"
type_synonym 't nested = "'t \<times> u64"
type_synonym 't tuples = "(tuple, 't nested) collection"
type_synonym 't import = "(df_value, df_value, 't) trace_val_handle \<Rightarrow> (df_value \<times> df_value, 't) collection"

definition enter :: "('d, 't) collection \<Rightarrow> ('d, 't nested) collection" where
  "enter c = map (\<lambda>(x, t, d). (x, (t, 0), d)) c"

record 't collection_relation =
  rel_variables :: "var list"
  rel_tuples :: "'t tuples"

datatype 't implemented =
    ImplAttribute "aid attribute_binding"
  | ImplCollection "'t collection_relation"

section \<open>Collections\<close>

text \<open>\<^verbatim>\<open>target_variables.iter().map(|x| tuple[variables.binds(*x).unwrap()])\<close>.\<close>

definition project_tuple :: "var list \<Rightarrow> var list \<Rightarrow> tuple \<Rightarrow> tuple run" where
  "project_tuple vars targets tup =
     run_map (\<lambda>x. run_bind (expect ''called `Option::unwrap()` on a `None` value'' (vec_binds vars x))
       (\<lambda>idx. vec_index tup idx)) targets"

definition collection_projected ::
  "'t collection_relation \<Rightarrow> var list \<Rightarrow> ('t tuples \<times> handle) run" where
  "collection_projected rel targets =
     (if rel_variables rel = targets then Inr (rel_tuples rel, handle_empty)
      else run_bind (coll_map_run (project_tuple (rel_variables rel) targets) (rel_tuples rel))
             (\<lambda>c. Inr (c, handle_empty)))"

definition value_offsets :: "var list \<Rightarrow> var list \<Rightarrow> usize list" where
  "value_offsets vars keys = map fst (filter (\<lambda>(idx, variable). variable \<notin> set keys) (enumerate 0 vars))"

definition collection_by_variables ::
  "'t collection_relation \<Rightarrow> var list \<Rightarrow> ((tuple \<times> tuple, 't nested) collection \<times> handle) run" where
  "collection_by_variables rel keys =
     (let vars = rel_variables rel in
      if keys = vars then Inr (coll_map (\<lambda>x. (x, [])) (rel_tuples rel), handle_empty)
      else if keys = [] then Inr (coll_map (\<lambda>x. ([], x)) (rel_tuples rel), handle_empty)
      else if length vars < length keys then Inl ''capacity overflow''
      else run_bind (run_map (\<lambda>x. expect ''called `Option::unwrap()` on a `None` value'' (vec_binds vars x)) keys)
        (\<lambda>key_offsets.
         run_bind (coll_map_run (\<lambda>tup.
             run_bind (run_map (vec_index tup) key_offsets) (\<lambda>key.
             run_bind (run_map (vec_index tup) (value_offsets vars keys)) (\<lambda>vals.
             Inr (key, vals)))) (rel_tuples rel))
           (\<lambda>c. Inr (c, handle_empty))))"

section \<open>Attributes\<close>

definition attribute_tuples ::
  "'t import \<Rightarrow> ('t, 'r, 'pr) dom \<Rightarrow> aid attribute_binding \<Rightarrow>
   ((df_value \<times> df_value, 't nested) collection \<times> handle) run" where
  "attribute_tuples import_trace dm b =
     (case forward_propose_of (source_attribute b) dm of
        None \<Rightarrow> Inl ''attribute does not exist''
      | Some propose_trace \<Rightarrow>
          Inr (enter (import_trace propose_trace), from_button (Propose (source_attribute b))))"

definition attribute_projected ::
  "'t import \<Rightarrow> ('t, 'r, 'pr) dom \<Rightarrow> aid attribute_binding \<Rightarrow> var list \<Rightarrow> ('t tuples \<times> handle) run" where
  "attribute_projected import_trace dm b targets =
     run_bind (attribute_tuples import_trace dm b) (\<lambda>(c, shutdown).
       let (e, v) = ab_variables b in
       if targets = [e, v] then Inr (coll_map (\<lambda>(e, v). [e, v]) c, shutdown)
       else if targets = [v, e] then Inr (coll_map (\<lambda>(e, v). [v, e]) c, shutdown)
       else if targets = [e] then Inr (coll_map (\<lambda>(e, v). [e]) c, shutdown)
       else if targets = [v] then Inr (coll_map (\<lambda>(e, v). [v]) c, shutdown)
       else Inl ''invalid projection'')"

definition attribute_by_variables ::
  "'t import \<Rightarrow> ('t, 'r, 'pr) dom \<Rightarrow> aid attribute_binding \<Rightarrow> var list \<Rightarrow>
   ((tuple \<times> tuple, 't nested) collection \<times> handle) run" where
  "attribute_by_variables import_trace dm b keys =
     run_bind (attribute_tuples import_trace dm b) (\<lambda>(c, shutdown).
       let (e, v) = ab_variables b in
       if keys = [e, v] then Inr (coll_map (\<lambda>(e, v). ([e, v], [])) c, shutdown)
       else if keys = [v, e] then Inr (coll_map (\<lambda>(e, v). ([v, e], [])) c, shutdown)
       else if keys = [e] then Inr (coll_map (\<lambda>(e, v). ([e], [v])) c, shutdown)
       else if keys = [v] then Inr (coll_map (\<lambda>(e, v). ([v], [e])) c, shutdown)
       else Inl ''invalid projection'')"

section \<open>Dispatch\<close>

fun impl_variables :: "'t implemented \<Rightarrow> var list" where
  "impl_variables (ImplAttribute b) = variables (Attribute b)"
| "impl_variables (ImplCollection r) = rel_variables r"

fun impl_binds :: "'t implemented \<Rightarrow> var \<Rightarrow> usize option" where
  "impl_binds (ImplAttribute b) variable = binds (Attribute b) variable"
| "impl_binds (ImplCollection r) variable = vec_binds (rel_variables r) variable"

fun impl_projected ::
  "'t import \<Rightarrow> ('t, 'r, 'pr) dom \<Rightarrow> 't implemented \<Rightarrow> var list \<Rightarrow> ('t tuples \<times> handle) run" where
  "impl_projected import_trace dm (ImplAttribute b) targets = attribute_projected import_trace dm b targets"
| "impl_projected import_trace dm (ImplCollection r) targets = collection_projected r targets"

fun impl_tuples ::
  "'t import \<Rightarrow> ('t, 'r, 'pr) dom \<Rightarrow> 't implemented \<Rightarrow> ('t tuples \<times> handle) run" where
  "impl_tuples import_trace dm (ImplAttribute b) =
     attribute_projected import_trace dm b (variables (Attribute b))"
| "impl_tuples import_trace dm (ImplCollection r) = Inr (rel_tuples r, handle_empty)"

fun impl_by_variables ::
  "'t import \<Rightarrow> ('t, 'r, 'pr) dom \<Rightarrow> 't implemented \<Rightarrow> var list \<Rightarrow>
   ((tuple \<times> tuple, 't nested) collection \<times> handle) run" where
  "impl_by_variables import_trace dm (ImplAttribute b) keys = attribute_by_variables import_trace dm b keys"
| "impl_by_variables import_trace dm (ImplCollection r) keys = collection_by_variables r keys"

section \<open>The meaning of a relation\<close>

text \<open>The value of a variable in a tuple, and the rows a relation stands for.\<close>

definition value_of :: "var list \<Rightarrow> tuple \<Rightarrow> var \<Rightarrow> df_value" where
  "value_of vars tup x = tup ! the (vec_binds vars x)"

definition wf_tuples :: "var list \<Rightarrow> 't tuples \<Rightarrow> bool" where
  "wf_tuples vars c \<longleftrightarrow> list_all (\<lambda>(tup, t, d). length tup = length vars) c"

fun impl_rows :: "'t import \<Rightarrow> ('t, 'r, 'pr) dom \<Rightarrow> 't implemented \<Rightarrow> 't tuples" where
  "impl_rows import_trace dm (ImplAttribute b) =
     (case forward_propose_of (source_attribute b) dm of
        None \<Rightarrow> []
      | Some tr \<Rightarrow> coll_map (\<lambda>(e, v). [e, v]) (enter (import_trace tr)))"
| "impl_rows import_trace dm (ImplCollection r) = rel_tuples r"

definition impl_ok :: "'t import \<Rightarrow> ('t, 'r, 'pr) dom \<Rightarrow> 't implemented \<Rightarrow> bool" where
  "impl_ok import_trace dm r \<longleftrightarrow>
     distinct (impl_variables r) \<and> wf_tuples (impl_variables r) (impl_rows import_trace dm r) \<and>
     (case r of ImplAttribute b \<Rightarrow> forward_propose_of (source_attribute b) dm \<noteq> None | _ \<Rightarrow> True)"

locale relation_contract =
  fixes ok :: bool and vars :: "var list" and rows :: "'t tuples"
    and projected :: "var list \<Rightarrow> ('t tuples \<times> handle) run"
    and by_variables :: "var list \<Rightarrow> ((tuple \<times> tuple, 't nested) collection \<times> handle) run"
    and supported :: "var list \<Rightarrow> bool"
  assumes projected_law: "ok \<Longrightarrow> supported targets \<Longrightarrow> set targets \<subseteq> set vars \<Longrightarrow>
      \<exists>h. projected targets = Inr (coll_map (\<lambda>tup. map (value_of vars tup) targets) rows, h)"
    and by_variables_law: "ok \<Longrightarrow> supported keys \<Longrightarrow> set keys \<subseteq> set vars \<Longrightarrow> distinct keys \<Longrightarrow>
      \<exists>h. by_variables keys = Inr (coll_map (\<lambda>tup. (map (value_of vars tup) keys,
        map (value_of vars tup) (filter (\<lambda>x. x \<notin> set keys) vars))) rows, h)"

lemma vec_binds_value:
  assumes "x \<in> set vars" and "length tup = length vars"
  shows "\<exists>i. vec_binds vars x = Some i \<and> i < length tup \<and> vars ! i = x \<and> value_of vars tup x = tup ! i"
proof -
  obtain i where i: "vec_binds vars x = Some i"
    using assms(1) position_None[of "\<lambda>y. x = y" vars] by (cases "vec_binds vars x") (auto simp: vec_binds_def)
  with position_Some[of "\<lambda>y. x = y" vars i] assms(2) show ?thesis
    by (auto simp: vec_binds_def value_of_def)
qed

lemma project_tuple_total:
  assumes "set targets \<subseteq> set vars" and "length tup = length vars"
  shows "project_tuple vars targets tup = Inr (map (value_of vars tup) targets)"
  unfolding project_tuple_def
proof (rule run_map_total)
  fix x assume "x \<in> set targets"
  then have "x \<in> set vars" using assms(1) by auto
  from vec_binds_value[OF this assms(2)]
  show "run_bind (expect ''called `Option::unwrap()` on a `None` value'' (vec_binds vars x)) (\<lambda>idx. vec_index tup idx) =
      Inr (value_of vars tup x)"
    by (auto simp: expect_def vec_index_def)
qed

lemma value_of_self: "distinct vars \<Longrightarrow> length tup = length vars \<Longrightarrow> map (value_of vars tup) vars = tup"
  by (rule nth_equalityI) (auto simp: value_of_def vec_binds_def position_eq_distinct)

lemma coll_map_cong_tuples:
  "wf_tuples vars c \<Longrightarrow> (\<And>tup. length tup = length vars \<Longrightarrow> f tup = g tup) \<Longrightarrow> coll_map f c = coll_map g c"
  by (auto simp: coll_map_def wf_tuples_def list_all_iff)

lemma value_offsets_values:
  assumes "distinct vars" and "length tup = length vars"
  shows "map (\<lambda>i. tup ! i) (value_offsets vars keys) = map (value_of vars tup) (filter (\<lambda>x. x \<notin> set keys) vars)"
proof -
  have "map (\<lambda>i. tup ! i) (map fst (filter (\<lambda>(i, x). x \<notin> set keys) (enumerate n xs))) =
      map (value_of vars tup) (filter (\<lambda>x. x \<notin> set keys) xs)"
    if "\<And>i. i < length xs \<Longrightarrow> n + i < length vars \<and> vars ! (n + i) = xs ! i" for n xs
    using that
  proof (induction xs arbitrary: n)
    case Nil
    then show ?case by simp
  next
    case (Cons x xs)
    have n: "n < length vars" "vars ! n = x" using Cons.prems[of 0] by auto
    then have "value_of vars tup x = tup ! n"
      using position_eq_distinct[OF assms(1) n(1)] by (simp add: value_of_def vec_binds_def)
    moreover have "Suc n + i < length vars \<and> vars ! (Suc n + i) = xs ! i" if "i < length xs" for i
      using Cons.prems[of "Suc i"] that by simp
    ultimately show ?case using Cons.IH[of "Suc n"] by simp
  qed
  from this[of vars 0] show ?thesis by (simp add: value_offsets_def)
qed

lemma collection_relation_contract:
  "relation_contract (impl_ok import_trace dm (ImplCollection r)) (rel_variables r) (rel_tuples r)
     (collection_projected r) (collection_by_variables r) (\<lambda>_. True)"
proof
  fix targets
  assume ok: "impl_ok import_trace dm (ImplCollection r)" and sub: "set targets \<subseteq> set (rel_variables r)"
  then have wf: "wf_tuples (rel_variables r) (rel_tuples r)" "distinct (rel_variables r)"
    by (simp_all add: impl_ok_def)
  have "coll_map (\<lambda>tup. map (value_of (rel_variables r) tup) (rel_variables r)) (rel_tuples r) = rel_tuples r"
    using coll_map_cong_tuples[OF wf(1), of _ "\<lambda>x. x"] value_of_self[OF wf(2)] by (simp add: coll_map_def)
  moreover have "coll_map_run (project_tuple (rel_variables r) targets) (rel_tuples r) =
      Inr (coll_map (\<lambda>tup. map (value_of (rel_variables r) tup) targets) (rel_tuples r))"
    using wf(1) project_tuple_total[OF sub]
    by (intro coll_map_run_total) (auto simp: wf_tuples_def list_all_iff)
  ultimately show "\<exists>h. collection_projected r targets =
      Inr (coll_map (\<lambda>tup. map (value_of (rel_variables r) tup) targets) (rel_tuples r), h)"
    by (auto simp: collection_projected_def)
next
  fix keys
  let ?vars = "rel_variables r"
  assume ok: "impl_ok import_trace dm (ImplCollection r)" and sub: "set keys \<subseteq> set ?vars" and dist: "distinct keys"
  then have wf: "wf_tuples ?vars (rel_tuples r)" "distinct ?vars" by (simp_all add: impl_ok_def)
  let ?f = "\<lambda>tup. (map (value_of ?vars tup) keys, map (value_of ?vars tup) (filter (\<lambda>x. x \<notin> set keys) ?vars))"
  have len: "length keys \<le> length ?vars" using dist sub by (rule length_filter_distinct_le)
  define offs where "offs = map (\<lambda>x. the (vec_binds ?vars x)) keys"
  have offs: "run_map (\<lambda>x. expect ''called `Option::unwrap()` on a `None` value'' (vec_binds ?vars x)) keys = Inr offs"
    unfolding offs_def
  proof (rule run_map_total)
    fix x assume "x \<in> set keys"
    then have "vec_binds ?vars x \<noteq> None" using sub position_None[of "\<lambda>y. x = y" ?vars] by (auto simp: vec_binds_def)
    then show "expect ''called `Option::unwrap()` on a `None` value'' (vec_binds ?vars x) = Inr (the (vec_binds ?vars x))"
      by (auto simp: expect_def)
  qed
  have run: "coll_map_run (\<lambda>tup. run_bind (run_map (vec_index tup) offs) (\<lambda>key.
      run_bind (run_map (vec_index tup) (value_offsets ?vars keys)) (\<lambda>vals. Inr (key, vals)))) (rel_tuples r) =
      Inr (coll_map ?f (rel_tuples r))"
  proof (rule coll_map_run_total)
    fix tup t d assume "(tup, t, d) \<in> set (rel_tuples r)"
    then have l: "length tup = length ?vars" using wf(1) by (auto simp: wf_tuples_def list_all_iff)
    have "run_map (vec_index tup) offs = Inr (map (\<lambda>i. tup ! i) offs)"
      using vec_binds_value[of _ ?vars tup] sub l by (intro run_map_total) (fastforce simp: offs_def vec_index_def)
    moreover have "map (\<lambda>i. tup ! i) offs = map (value_of ?vars tup) keys"
      by (simp add: offs_def value_of_def)
    moreover have "run_map (vec_index tup) (value_offsets ?vars keys) = Inr (map (\<lambda>i. tup ! i) (value_offsets ?vars keys))"
      using l by (intro run_map_total) (auto simp: value_offsets_def in_set_enumerate_eq vec_index_def)
    ultimately show "run_bind (run_map (vec_index tup) offs) (\<lambda>key.
        run_bind (run_map (vec_index tup) (value_offsets ?vars keys)) (\<lambda>vals. Inr (key, vals))) = Inr (?f tup)"
      using value_offsets_values[OF wf(2) l] by simp
  qed
  have all: "coll_map (\<lambda>x. (x, [])) (rel_tuples r) = coll_map ?f (rel_tuples r)" if "keys = ?vars"
    using value_of_self[OF wf(2)] that by (intro coll_map_cong_tuples[OF wf(1)]) (simp cong: filter_cong)
  have none: "coll_map (\<lambda>x. ([], x)) (rel_tuples r) = coll_map ?f (rel_tuples r)" if "keys = []"
    using value_of_self[OF wf(2)] that by (intro coll_map_cong_tuples[OF wf(1)]) simp
  show "\<exists>h. collection_by_variables r keys = Inr (coll_map ?f (rel_tuples r), h)"
    unfolding collection_by_variables_def Let_def using all none len offs run by auto
qed

interpretation collection_rel: relation_contract
  "impl_ok import_trace dm (ImplCollection r)" "rel_variables r" "rel_tuples r"
  "collection_projected r" "collection_by_variables r" "\<lambda>_. True"
  for import_trace :: "'t import" and dm :: "('t, 'r, 'pr) dom" and r :: "'t collection_relation"
  by (rule collection_relation_contract)

subsection \<open>Attributes\<close>

definition attribute_supports :: "aid attribute_binding \<Rightarrow> var list \<Rightarrow> bool" where
  "attribute_supports b ts \<longleftrightarrow>
     (let (e, v) = ab_variables b in ts = [e, v] \<or> ts = [v, e] \<or> ts = [e] \<or> ts = [v])"

lemma value_of_pair:
  "e \<noteq> v \<Longrightarrow> value_of [e, v] [a, b] e = a" "e \<noteq> v \<Longrightarrow> value_of [e, v] [a, b] v = b"
  by (simp_all add: value_of_def vec_binds_def)

lemma coll_map_coll_map: "coll_map f (coll_map g c) = coll_map (f \<circ> g) c"
  by (induction c) (auto simp: coll_map_def)

lemma attribute_relation_contract:
  "relation_contract (impl_ok import_trace dm (ImplAttribute b)) (variables (Attribute b))
     (impl_rows import_trace dm (ImplAttribute b))
     (attribute_projected import_trace dm b) (attribute_by_variables import_trace dm b) (attribute_supports b)"
proof -
  obtain e v a where b: "b = AttributeBinding (e, v) a" by (metis attribute_binding.exhaust prod.exhaust)
  have ok: "\<exists>tr. forward_propose_of a dm = Some tr \<and> e \<noteq> v" if "impl_ok import_trace dm (ImplAttribute b)"
    using that by (auto simp: impl_ok_def b)
  have rows: "coll_map f (impl_rows import_trace dm (ImplAttribute b)) = coll_map (\<lambda>(e, v). f [e, v]) (enter (import_trace tr))"
    if "forward_propose_of a dm = Some tr" for f :: "tuple \<Rightarrow> 'd" and tr
    using that by (simp add: b coll_map_coll_map comp_def case_prod_unfold)
  note defs = b attribute_projected_def attribute_by_variables_def attribute_tuples_def value_of_pair
  show ?thesis
  proof
    fix targets assume "impl_ok import_trace dm (ImplAttribute b)" and "attribute_supports b targets"
    then obtain tr where t: "forward_propose_of a dm = Some tr" "e \<noteq> v"
      and s: "targets = [e, v] \<or> targets = [v, e] \<or> targets = [e] \<or> targets = [v]"
      using ok by (auto simp: attribute_supports_def b)
    from s show "\<exists>h. attribute_projected import_trace dm b targets = Inr (coll_map (\<lambda>tup.
        map (value_of (variables (Attribute b)) tup) targets) (impl_rows import_trace dm (ImplAttribute b)), h)"
      unfolding rows[OF t(1)] using t by (elim disjE) (simp_all add: defs)
  next
    fix keys assume "impl_ok import_trace dm (ImplAttribute b)" and "attribute_supports b keys"
    then obtain tr where t: "forward_propose_of a dm = Some tr" "e \<noteq> v"
      and s: "keys = [e, v] \<or> keys = [v, e] \<or> keys = [e] \<or> keys = [v]"
      using ok by (auto simp: attribute_supports_def b)
    from s show "\<exists>h. attribute_by_variables import_trace dm b keys = Inr (coll_map (\<lambda>tup.
        (map (value_of (variables (Attribute b)) tup) keys, map (value_of (variables (Attribute b)) tup)
          (filter (\<lambda>x. x \<notin> set keys) (variables (Attribute b))))) (impl_rows import_trace dm (ImplAttribute b)), h)"
      unfolding rows[OF t(1)] using t by (elim disjE) (simp_all add: defs)
  qed
qed

interpretation attribute_rel: relation_contract
  "impl_ok import_trace dm (ImplAttribute b)" "variables (Attribute b)" "impl_rows import_trace dm (ImplAttribute b)"
  "attribute_projected import_trace dm b" "attribute_by_variables import_trace dm b" "attribute_supports b"
  for import_trace :: "'t import" and dm :: "('t, 'r, 'pr) dom" and b :: "aid attribute_binding"
  by (rule attribute_relation_contract)

subsection \<open>Every implemented relation\<close>

fun impl_supports :: "'t implemented \<Rightarrow> var list \<Rightarrow> bool" where
  "impl_supports (ImplAttribute b) ts \<longleftrightarrow> attribute_supports b ts"
| "impl_supports (ImplCollection r) ts \<longleftrightarrow> True"

lemma implemented_relation_contract:
  "relation_contract (impl_ok import_trace dm r) (impl_variables r) (impl_rows import_trace dm r)
     (impl_projected import_trace dm r) (impl_by_variables import_trace dm r) (impl_supports r)"
proof (cases r)
  case (ImplAttribute b)
  have eta: "impl_projected import_trace dm r = attribute_projected import_trace dm b"
    "impl_by_variables import_trace dm r = attribute_by_variables import_trace dm b"
    "impl_supports r = attribute_supports b"
    by (auto simp: ImplAttribute)
  show ?thesis unfolding eta using attribute_relation_contract[of import_trace dm b] by (simp add: ImplAttribute)
next
  case (ImplCollection c)
  have eta: "impl_projected import_trace dm r = collection_projected c"
    "impl_by_variables import_trace dm r = collection_by_variables c" "impl_supports r = (\<lambda>_. True)"
    by (auto simp: ImplCollection)
  show ?thesis unfolding eta using collection_relation_contract[of import_trace dm c] by (simp add: ImplCollection)
qed

interpretation impl: relation_contract
  "impl_ok import_trace dm r" "impl_variables r" "impl_rows import_trace dm r"
  "impl_projected import_trace dm r" "impl_by_variables import_trace dm r" "impl_supports r"
  for import_trace :: "'t import" and dm :: "('t, 'r, 'pr) dom" and r :: "'t implemented"
  by (rule implemented_relation_contract)

lemma impl_tuples_rows:
  assumes "impl_ok import_trace dm r"
  shows "\<exists>h. impl_tuples import_trace dm r = Inr (impl_rows import_trace dm r, h)"
proof (cases r)
  case (ImplAttribute b)
  then show ?thesis using assms
    by (cases "ab_variables b") (auto simp: impl_ok_def attribute_projected_def attribute_tuples_def)
qed simp

section \<open>Properties\<close>

lemma mset_keys_rest:
  assumes "distinct keys" and "distinct vars" and "set keys \<subseteq> set vars"
  shows "mset (keys @ filter (\<lambda>x. x \<notin> set keys) vars) = mset vars"
proof -
  have "distinct (keys @ filter (\<lambda>x. x \<notin> set keys) vars)" using assms by auto
  moreover have "set (keys @ filter (\<lambda>x. x \<notin> set keys) vars) = set vars" using assms by auto
  ultimately show ?thesis using assms(2) by (metis set_eq_iff_mset_eq_distinct)
qed

text \<open>On a well-formed relation with a supported key, \<^verbatim>\<open>tuples_by_variables\<close> returns, its keys are what
  \<^verbatim>\<open>projected\<close> returns for the same variables, and each key followed by its values holds exactly the values of
  the tuple, reordered to the key variables first.\<close>

theorem tuples_by_variables_partition:
  assumes "impl_ok import_trace dm r" and "impl_supports r keys" and "set keys \<subseteq> set (impl_variables r)"
    and "distinct keys"
  shows "\<exists>c h h'. impl_by_variables import_trace dm r keys = Inr (c, h) \<and>
    impl_projected import_trace dm r keys = Inr (coll_map fst c, h') \<and>
    coll_map (\<lambda>(k, v). k @ v) c = coll_map (\<lambda>tup. map (value_of (impl_variables r) tup)
      (keys @ filter (\<lambda>x. x \<notin> set keys) (impl_variables r))) (impl_rows import_trace dm r) \<and>
    mset (keys @ filter (\<lambda>x. x \<notin> set keys) (impl_variables r)) = mset (impl_variables r)"
proof -
  from impl.by_variables_law[OF assms] impl.projected_law[OF assms(1-3)] obtain h h' where
    "impl_by_variables import_trace dm r keys = Inr (coll_map (\<lambda>tup. (map (value_of (impl_variables r) tup) keys,
        map (value_of (impl_variables r) tup) (filter (\<lambda>x. x \<notin> set keys) (impl_variables r))))
        (impl_rows import_trace dm r), h)"
    "impl_projected import_trace dm r keys =
       Inr (coll_map (\<lambda>tup. map (value_of (impl_variables r) tup) keys) (impl_rows import_trace dm r), h')"
    by blast
  moreover have "distinct (impl_variables r)" using assms(1) by (simp add: impl_ok_def)
  ultimately show ?thesis
    using mset_keys_rest[OF assms(4) _ assms(3)] by (simp add: coll_map_coll_map comp_def)
qed

definition demo_relation :: "u64 implemented" where
  "demo_relation = ImplCollection \<lparr> rel_variables = [1, 2, 3],
     rel_tuples = [([Eid 7, Number 8, Bool True], (0, 0), 1), ([Eid 9, Number 4, Bool False], (1, 0), - 1)] \<rparr>"

theorem tuples_by_variables_partition_witness:
  "\<exists>c h. impl_by_variables (\<lambda>_. []) (domain_new u64_time () (0 :: u64) :: (u64, unit, unit) dom) demo_relation [3, 1] =
     Inr (c, h) \<and>
   coll_map (\<lambda>(k, v). k @ v) c =
     [([Bool True, Eid 7, Number 8], (0, 0), 1), ([Bool False, Eid 9, Number 4], (1, 0), - 1)]"
proof -
  let ?dm = "domain_new u64_time () (0 :: u64) :: (u64, unit, unit) dom"
  have "impl_ok (\<lambda>_. []) ?dm demo_relation" "impl_supports demo_relation [3, 1]"
    "set [3, 1] \<subseteq> set (impl_variables demo_relation)" "distinct [3, 1 :: var]"
    by (simp_all add: demo_relation_def impl_ok_def wf_tuples_def)
  from tuples_by_variables_partition[OF this] show ?thesis
    by (auto simp: demo_relation_def coll_map_def value_of_def vec_binds_def)
qed

text \<open>With no key variables a collection relation is keyed by the empty tuple, while an attribute relation
  panics, so that a plan node that keys its children by no variable works on the one and not on the other.\<close>

theorem empty_key_only_on_collections:
  "impl_by_variables import_trace dm (ImplAttribute b) [] =
     (if forward_propose_of (source_attribute b) dm = None then Inl ''attribute does not exist''
      else Inl ''invalid projection'') \<and>
   (\<exists>c. impl_by_variables import_trace dm (ImplCollection r) [] = Inr (c, handle_empty) \<and>
      map (\<lambda>((k, v), t, d). (k @ v, t, d)) c = rel_tuples r \<and> list_all (\<lambda>((k, v), t, d). k = [] \<or> v = []) c)"
proof -
  obtain e v a where b: "b = AttributeBinding (e, v) a" by (metis attribute_binding.exhaust prod.exhaust)
  have "map (\<lambda>((k, v), t, d). (k @ v, t, d)) (coll_map (\<lambda>x. (x, [])) c) = c"
    "map (\<lambda>((k, v), t, d). (k @ v, t, d)) (coll_map (\<lambda>x. ([], x)) c) = c"
    "list_all (\<lambda>((k, v), t, d). k = [] \<or> v = []) (coll_map (\<lambda>x. (x, [])) c)"
    "list_all (\<lambda>((k, v), t, d). k = [] \<or> v = []) (coll_map (\<lambda>x. ([], x)) c)" for c :: "'t tuples"
    by (induction c) (auto simp: coll_map_def)
  note split = this
  have "collection_by_variables r [] = Inr (coll_map (if rel_variables r = [] then (\<lambda>x. (x, [])) else (\<lambda>x. ([], x))) (rel_tuples r),
      handle_empty)"
    by (simp add: collection_by_variables_def)
  then have "\<exists>c. impl_by_variables import_trace dm (ImplCollection r) [] = Inr (c, handle_empty) \<and>
      map (\<lambda>((k, v), t, d). (k @ v, t, d)) c = rel_tuples r \<and> list_all (\<lambda>((k, v), t, d). k = [] \<or> v = []) c"
    using split[of "rel_tuples r"] by (cases "rel_variables r = []") simp_all
  moreover have "impl_by_variables import_trace dm (ImplAttribute b) [] =
     (if forward_propose_of (source_attribute b) dm = None then Inl ''attribute does not exist''
      else Inl ''invalid projection'')"
    by (auto simp: b attribute_by_variables_def attribute_tuples_def split: option.splits)
  ultimately show ?thesis by blast
qed

end
