(* ===== verification/Plans.thy ===== *)
theory Plans
  imports Bindings
begin

text \<open>
  Query plans, from \<^verbatim>\<open>src/src/plan/mod.rs\<close> and the plan nodes beside it: the plan language, the
  variables a plan binds, what it depends on and its translation to bindings. The node for GraphQL
  belongs to an optional feature.

  The generic child plans of the nodes are always plans. The process-wide counter behind \<^verbatim>\<open>gensym\<close>
  is passed explicitly. A \<^verbatim>\<open>HashSet\<close> is the list of its elements, each once.
\<close>

datatype aggregation_fn = MIN_fn | MAX_fn | MEDIAN | COUNT | SUM_fn | AVG | VARIANCE

datatype df_function = TRUNCATE | ADD | SUBTRACT

datatype plan =
    Project "var list" plan
  | Aggregate "var list" plan "aggregation_fn list" "var list" "var list" "var list"
  | Union "var list" "plan list"
  | Join "var list" plan plan
  | Hector "var list" "aid binding list"
  | Antijoin "var list" plan plan
  | Negate plan
  | Filter "var list" binary_predicate plan "df_value option list"
  | Transform "var list" var plan df_function "df_value option list"
  | MatchA var aid var
  | MatchEA eid aid var
  | MatchAV var aid df_value
  | NameExpr "var list" aid
  | Pull "var list" "plan list"
  | PullLevel "var list" plan var "aid list" "aid list" bool
  | PullAll "var list" "aid list"

fun plan_variables :: "plan \<Rightarrow> var list" where
  "plan_variables (Project vs _) = vs"
| "plan_variables (Aggregate vs _ _ _ _ _) = vs"
| "plan_variables (Union vs _) = vs"
| "plan_variables (Join vs _ _) = vs"
| "plan_variables (Hector vs _) = vs"
| "plan_variables (Antijoin vs _ _) = vs"
| "plan_variables (Negate p) = plan_variables p"
| "plan_variables (Filter vs _ _ _) = vs"
| "plan_variables (Transform vs _ _ _ _) = vs"
| "plan_variables (MatchA e _ v) = [e, v]"
| "plan_variables (MatchEA _ _ v) = [v]"
| "plan_variables (MatchAV e _ _) = [e]"
| "plan_variables (NameExpr vs _) = vs"
| "plan_variables (Pull vs _) = vs"
| "plan_variables (PullLevel vs _ _ _ _ _) = vs"
| "plan_variables (PullAll vs _) = vs"

section \<open>Dependencies\<close>

record dependencies =
  dep_names :: "aid list"
  dep_attributes :: "aid list"

definition deps_none :: dependencies where
  "deps_none = \<lparr> dep_names = [], dep_attributes = [] \<rparr>"

definition deps_name :: "aid \<Rightarrow> dependencies" where
  "deps_name name = \<lparr> dep_names = [name], dep_attributes = [] \<rparr>"

definition deps_attribute :: "aid \<Rightarrow> dependencies" where
  "deps_attribute aid = \<lparr> dep_names = [], dep_attributes = [aid] \<rparr>"

definition hs_extend :: "'a list \<Rightarrow> 'a list \<Rightarrow> 'a list" where
  "hs_extend s xs = fold List.insert xs s"

definition deps_add_assign :: "dependencies \<Rightarrow> dependencies \<Rightarrow> dependencies" where
  "deps_add_assign self other =
     self \<lparr> dep_names := hs_extend (dep_names self) (dep_names other),
       dep_attributes := hs_extend (dep_attributes self) (dep_attributes other) \<rparr>"

definition deps_add :: "dependencies \<Rightarrow> dependencies \<Rightarrow> dependencies" where
  "deps_add self other = (let merged = self in deps_add_assign merged other)"

definition deps_sum :: "dependencies list \<Rightarrow> dependencies" where
  "deps_sum ds = foldl deps_add deps_none ds"

definition hector_attributes :: "aid binding list \<Rightarrow> aid list" where
  "hector_attributes bs =
     hs_extend [] (List.map_filter (\<lambda>b. case b of Attribute ab \<Rightarrow> Some (source_attribute ab) | _ \<Rightarrow> None) bs)"

fun plan_dependencies :: "plan \<Rightarrow> dependencies" where
  "plan_dependencies (Project _ p) = plan_dependencies p"
| "plan_dependencies (Aggregate _ p _ _ _ _) = plan_dependencies p"
| "plan_dependencies (Union _ ps) = deps_sum (map plan_dependencies ps)"
| "plan_dependencies (Join _ l r) = deps_add (plan_dependencies l) (plan_dependencies r)"
| "plan_dependencies (Hector _ bs) = \<lparr> dep_names = [], dep_attributes = hector_attributes bs \<rparr>"
| "plan_dependencies (Antijoin _ l r) = deps_add (plan_dependencies l) (plan_dependencies r)"
| "plan_dependencies (Negate p) = plan_dependencies p"
| "plan_dependencies (Filter _ _ p _) = plan_dependencies p"
| "plan_dependencies (Transform _ _ p _ _) = plan_dependencies p"
| "plan_dependencies (MatchA _ a _) = deps_attribute a"
| "plan_dependencies (MatchEA _ a _) = deps_attribute a"
| "plan_dependencies (MatchAV _ a _) = deps_attribute a"
| "plan_dependencies (NameExpr _ name) = deps_name name"
| "plan_dependencies (Pull _ ps) = deps_sum (map plan_dependencies ps)"
| "plan_dependencies (PullLevel _ p _ pull_attributes _ _) =
     deps_add (plan_dependencies p) (deps_sum (map deps_attribute pull_attributes))"
| "plan_dependencies (PullAll _ pull_attributes) = deps_sum (map deps_attribute pull_attributes)"

section \<open>Bindings of a plan\<close>

text \<open>\<^verbatim>\<open>fetch_sub\<close> returns the old value and wraps; the conversion to \<^verbatim>\<open>u32\<close> truncates.\<close>

definition gensym :: "u64 \<Rightarrow> var \<times> u64" where
  "gensym ctr = (ucast ctr, ctr - 1)"

definition not_hector :: "u64 \<Rightarrow> aid binding list run \<times> u64" where
  "not_hector ctr = (Inl ''This plan can't be implemented via Hector.'', ctr)"

fun into_bindings :: "plan \<Rightarrow> u64 \<Rightarrow> aid binding list run \<times> u64"
  and into_bindings_all :: "plan list \<Rightarrow> u64 \<Rightarrow> aid binding list run \<times> u64" where
  "into_bindings (Project _ p) ctr = into_bindings p ctr"
| "into_bindings (Aggregate _ p _ _ _ _) ctr = into_bindings p ctr"
| "into_bindings (Union _ ps) ctr = into_bindings_all ps ctr"
| "into_bindings (Join _ l r) ctr =
     (case into_bindings l ctr of
        (Inl m, ctr1) \<Rightarrow> (Inl m, ctr1)
      | (Inr left, ctr1) \<Rightarrow>
          (case into_bindings r ctr1 of
             (Inl m, ctr2) \<Rightarrow> (Inl m, ctr2)
           | (Inr right, ctr2) \<Rightarrow> (Inr (left @ right), ctr2)))"
| "into_bindings (Hector _ bs) ctr = (Inr bs, ctr)"
| "into_bindings (Antijoin _ _ _) ctr = (Inl ''not implemented'', ctr)"
| "into_bindings (Negate p) ctr = into_bindings p ctr"
| "into_bindings (Filter _ _ _ _) ctr = (Inl ''not implemented'', ctr)"
| "into_bindings (Transform _ _ p _ _) ctr = into_bindings p ctr"
| "into_bindings (MatchA e a v) ctr = (Inr [binding_attribute e a v], ctr)"
| "into_bindings (MatchEA match_e a v) ctr =
     (let (e, ctr1) = gensym ctr
      in (Inr [binding_attribute e a v, binding_constant e (Eid match_e)], ctr1))"
| "into_bindings (MatchAV e a match_v) ctr =
     (let (v, ctr1) = gensym ctr
      in (Inr [binding_attribute e a v, binding_constant v match_v], ctr1))"
| "into_bindings (NameExpr _ _) ctr = (Inl ''not implemented'', ctr)"
| "into_bindings (Pull _ _) ctr = not_hector ctr"
| "into_bindings (PullLevel _ _ _ _ _ _) ctr = not_hector ctr"
| "into_bindings (PullAll _ _) ctr = not_hector ctr"
| "into_bindings_all [] ctr = (Inr [], ctr)"
| "into_bindings_all (p # ps) ctr =
     (case into_bindings p ctr of
        (Inl m, ctr1) \<Rightarrow> (Inl m, ctr1)
      | (Inr bs, ctr1) \<Rightarrow>
          (case into_bindings_all ps ctr1 of
             (Inl m, ctr2) \<Rightarrow> (Inl m, ctr2)
           | (Inr rest, ctr2) \<Rightarrow> (Inr (bs @ rest), ctr2)))"

section \<open>What a plan depends on\<close>

text \<open>The names and attributes that occur in a plan. Negated bindings do not count.\<close>

definition positive_attributes :: "aid binding list \<Rightarrow> aid set" where
  "positive_attributes bs = {source_attribute ab | ab. Attribute ab \<in> set bs}"

fun mentioned_names :: "plan \<Rightarrow> aid set" where
  "mentioned_names (Project _ p) = mentioned_names p"
| "mentioned_names (Aggregate _ p _ _ _ _) = mentioned_names p"
| "mentioned_names (Union _ ps) = (\<Union>p \<in> set ps. mentioned_names p)"
| "mentioned_names (Join _ l r) = mentioned_names l \<union> mentioned_names r"
| "mentioned_names (Antijoin _ l r) = mentioned_names l \<union> mentioned_names r"
| "mentioned_names (Negate p) = mentioned_names p"
| "mentioned_names (Filter _ _ p _) = mentioned_names p"
| "mentioned_names (Transform _ _ p _ _) = mentioned_names p"
| "mentioned_names (NameExpr _ name) = {name}"
| "mentioned_names (Pull _ ps) = (\<Union>p \<in> set ps. mentioned_names p)"
| "mentioned_names (PullLevel _ p _ _ _ _) = mentioned_names p"
| "mentioned_names _ = {}"

fun mentioned_attributes :: "plan \<Rightarrow> aid set" where
  "mentioned_attributes (Project _ p) = mentioned_attributes p"
| "mentioned_attributes (Aggregate _ p _ _ _ _) = mentioned_attributes p"
| "mentioned_attributes (Union _ ps) = (\<Union>p \<in> set ps. mentioned_attributes p)"
| "mentioned_attributes (Join _ l r) = mentioned_attributes l \<union> mentioned_attributes r"
| "mentioned_attributes (Hector _ bs) = positive_attributes bs"
| "mentioned_attributes (Antijoin _ l r) = mentioned_attributes l \<union> mentioned_attributes r"
| "mentioned_attributes (Negate p) = mentioned_attributes p"
| "mentioned_attributes (Filter _ _ p _) = mentioned_attributes p"
| "mentioned_attributes (Transform _ _ p _ _) = mentioned_attributes p"
| "mentioned_attributes (MatchA _ a _) = {a}"
| "mentioned_attributes (MatchEA _ a _) = {a}"
| "mentioned_attributes (MatchAV _ a _) = {a}"
| "mentioned_attributes (NameExpr _ _) = {}"
| "mentioned_attributes (Pull _ ps) = (\<Union>p \<in> set ps. mentioned_attributes p)"
| "mentioned_attributes (PullLevel _ p _ attrs _ _) = mentioned_attributes p \<union> set attrs"
| "mentioned_attributes (PullAll _ attrs) = set attrs"

lemma set_hs_extend [simp]: "set (hs_extend s xs) = set s \<union> set xs"
  unfolding hs_extend_def by (induction xs arbitrary: s) auto

lemma distinct_hs_extend [simp]: "distinct s \<Longrightarrow> distinct (hs_extend s xs)"
  unfolding hs_extend_def by (induction xs arbitrary: s) auto

definition wf_deps :: "dependencies \<Rightarrow> bool" where
  "wf_deps d \<longleftrightarrow> distinct (dep_names d) \<and> distinct (dep_attributes d)"

lemma deps_add_sets [simp]:
  "set (dep_names (deps_add a b)) = set (dep_names a) \<union> set (dep_names b)"
  "set (dep_attributes (deps_add a b)) = set (dep_attributes a) \<union> set (dep_attributes b)"
  "wf_deps a \<Longrightarrow> wf_deps (deps_add a b)"
  by (simp_all add: deps_add_def deps_add_assign_def Let_def wf_deps_def)

lemma deps_foldl_sets:
  "set (dep_names (foldl deps_add d ds)) = set (dep_names d) \<union> (\<Union>x \<in> set ds. set (dep_names x))"
  "set (dep_attributes (foldl deps_add d ds)) = set (dep_attributes d) \<union> (\<Union>x \<in> set ds. set (dep_attributes x))"
  "wf_deps d \<Longrightarrow> wf_deps (foldl deps_add d ds)"
  by (induction ds arbitrary: d) auto

lemma wf_deps_none: "wf_deps deps_none"
  by (simp add: deps_none_def wf_deps_def)

lemma deps_sum_sets [simp]:
  "set (dep_names (deps_sum ds)) = (\<Union>x \<in> set ds. set (dep_names x))"
  "set (dep_attributes (deps_sum ds)) = (\<Union>x \<in> set ds. set (dep_attributes x))"
  "wf_deps (deps_sum ds)"
  unfolding deps_sum_def deps_foldl_sets(1,2)
  by (simp_all add: deps_foldl_sets(3) wf_deps_none) (simp_all add: deps_none_def)

lemma hector_attributes_set: "set (hector_attributes bs) = positive_attributes bs"
  unfolding hector_attributes_def set_hs_extend positive_attributes_def
  by (induction bs) (auto simp: List.map_filter_simps split: binding.splits)

lemma wf_deps_hector: "wf_deps \<lparr> dep_names = [], dep_attributes = hector_attributes bs \<rparr>"
  by (simp add: wf_deps_def hector_attributes_def)

lemma wf_deps_single:
  "wf_deps \<lparr> dep_names = [x], dep_attributes = [] \<rparr>" "wf_deps \<lparr> dep_names = [], dep_attributes = [x] \<rparr>"
  by (simp_all add: wf_deps_def)

lemma plan_dependencies_mentioned:
  "set (dep_names (plan_dependencies p)) = mentioned_names p \<and>
   set (dep_attributes (plan_dependencies p)) = mentioned_attributes p \<and> wf_deps (plan_dependencies p)"
  by (induction p)
     (auto simp: hector_attributes_set deps_attribute_def deps_name_def wf_deps_hector wf_deps_single)

text \<open>\<^verbatim>\<open>dependencies\<close> of a plan holds exactly the names of its \<^verbatim>\<open>NameExpr\<close> nodes and the attributes of its
  match patterns, pull expressions and positive bindings, each once.\<close>

theorem plan_dependencies_exact:
  "set (dep_names (plan_dependencies p)) = mentioned_names p \<and>
   set (dep_attributes (plan_dependencies p)) = mentioned_attributes p \<and> wf_deps (plan_dependencies p)"
  by (rule plan_dependencies_mentioned)

section \<open>Fresh variables\<close>

fun hector_compatible :: "plan \<Rightarrow> bool" where
  "hector_compatible (Project _ p) = hector_compatible p"
| "hector_compatible (Aggregate _ p _ _ _ _) = hector_compatible p"
| "hector_compatible (Union _ ps) = list_all hector_compatible ps"
| "hector_compatible (Join _ l r) = (hector_compatible l \<and> hector_compatible r)"
| "hector_compatible (Negate p) = hector_compatible p"
| "hector_compatible (Transform _ _ p _ _) = hector_compatible p"
| "hector_compatible (Hector _ _) = True"
| "hector_compatible (MatchA _ _ _) = True"
| "hector_compatible (MatchEA _ _ _) = True"
| "hector_compatible (MatchAV _ _ _) = True"
| "hector_compatible _ = False"

text \<open>The constants of the match patterns, in the order in which their bindings are generated.\<close>

fun pattern_constants :: "plan \<Rightarrow> df_value list" where
  "pattern_constants (Project _ p) = pattern_constants p"
| "pattern_constants (Aggregate _ p _ _ _ _) = pattern_constants p"
| "pattern_constants (Union _ ps) = concat (map pattern_constants ps)"
| "pattern_constants (Join _ l r) = pattern_constants l @ pattern_constants r"
| "pattern_constants (Negate p) = pattern_constants p"
| "pattern_constants (Transform _ _ p _ _) = pattern_constants p"
| "pattern_constants (MatchEA e _ _) = [Eid e]"
| "pattern_constants (MatchAV _ _ v) = [v]"
| "pattern_constants _ = []"

fun hector_free :: "plan \<Rightarrow> bool" where
  "hector_free (Project _ p) = hector_free p"
| "hector_free (Aggregate _ p _ _ _ _) = hector_free p"
| "hector_free (Union _ ps) = list_all hector_free ps"
| "hector_free (Join _ l r) = (hector_free l \<and> hector_free r)"
| "hector_free (Negate p) = hector_free p"
| "hector_free (Transform _ _ p _ _) = hector_free p"
| "hector_free (Hector _ _) = False"
| "hector_free _ = True"

definition constant_bindings :: "aid binding list \<Rightarrow> (var \<times> df_value) list" where
  "constant_bindings bs =
     List.map_filter (\<lambda>b. case b of Constant c \<Rightarrow> Some (cb_variable c, cb_value c) | _ \<Rightarrow> None) bs"

fun gensyms :: "u64 \<Rightarrow> nat \<Rightarrow> var list" where
  "gensyms ctr 0 = []"
| "gensyms ctr (Suc n) = ucast ctr # gensyms (ctr - 1) n"

lemma length_gensyms [simp]: "length (gensyms ctr n) = n"
  by (induction n arbitrary: ctr) auto

lemma gensyms_add: "gensyms ctr (m + n) = gensyms ctr m @ gensyms (ctr - of_nat m) n"
  by (induction m arbitrary: ctr) (auto simp: algebra_simps)

lemma gensyms_nth: "i < n \<Longrightarrow> gensyms ctr n ! i = ucast (ctr - of_nat i)"
  by (induction n arbitrary: ctr i) (auto simp: nth_Cons algebra_simps split: nat.splits)

lemma ucast_sub:
  fixes a b :: u64
  shows "(ucast (a - b) :: u32) = ucast a - ucast b"
proof transfer
  fix a b :: int
  have "take_bit 32 (take_bit 64 a - take_bit 64 b) = take_bit 32 (take_bit 32 (take_bit 64 a) - take_bit 32 (take_bit 64 b))"
    by (simp only: take_bit_diff)
  also have "\<dots> = take_bit 32 (a - b)" by (simp add: take_bit_diff)
  finally show "take_bit LENGTH(32) (take_bit LENGTH(64) (a - b)) =
      take_bit LENGTH(32) (take_bit LENGTH(64) a - take_bit LENGTH(64) b)"
    by simp
qed

lemma ucast_sub_inj:
  fixes ctr :: u64
  assumes "i < 2 ^ 32" and "j < 2 ^ 32" and "(ucast (ctr - of_nat i) :: u32) = ucast (ctr - of_nat j)"
  shows "i = j"
proof -
  have "(ucast ctr :: u32) - of_nat i = ucast ctr - of_nat j"
    using assms unfolding ucast_sub by (simp add: unsigned_of_nat take_bit_nat_eq_self)
  then have "(of_nat i :: u32) = of_nat j" by simp
  with assms(1,2) show ?thesis by (simp add: word_of_nat_eq_iff take_bit_nat_eq_self)
qed

lemma distinct_gensyms: "n \<le> 2 ^ 32 \<Longrightarrow> distinct (gensyms ctr n)"
  unfolding distinct_conv_nth using ucast_sub_inj[of _ _ ctr] by (auto simp: gensyms_nth)

lemma constant_bindings_append [simp]:
  "constant_bindings (xs @ ys) = constant_bindings xs @ constant_bindings ys"
  by (induction xs) (auto simp: constant_bindings_def List.map_filter_simps split: binding.splits)

lemma into_bindings_constants:
  "hector_compatible p \<Longrightarrow> hector_free p \<Longrightarrow>
     \<exists>bs. into_bindings p ctr = (Inr bs, ctr - of_nat (length (pattern_constants p))) \<and>
       constant_bindings bs = zip (gensyms ctr (length (pattern_constants p))) (pattern_constants p)"
  "list_all hector_compatible ps \<Longrightarrow> list_all hector_free ps \<Longrightarrow>
     \<exists>bs. into_bindings_all ps ctr =
         (Inr bs, ctr - of_nat (length (concat (map pattern_constants ps)))) \<and>
       constant_bindings bs = zip (gensyms ctr (length (concat (map pattern_constants ps))))
         (concat (map pattern_constants ps))"
proof (induction p ctr and ps ctr rule: into_bindings_into_bindings_all.induct)
  case (4 vs l r ctr)
  then obtain bl where l: "into_bindings l ctr = (Inr bl, ctr - of_nat (length (pattern_constants l)))"
    "constant_bindings bl = zip (gensyms ctr (length (pattern_constants l))) (pattern_constants l)" by auto
  with "4.IH"(2)[OF l(1)[symmetric] refl] "4.prems" show ?case by (auto simp: gensyms_add algebra_simps)
next
  case (18 p ps ctr)
  then obtain bl where l: "into_bindings p ctr = (Inr bl, ctr - of_nat (length (pattern_constants p)))"
    "constant_bindings bl = zip (gensyms ctr (length (pattern_constants p))) (pattern_constants p)" by auto
  with "18.IH"(2)[OF l(1)[symmetric] refl] "18.prems" show ?case by (auto simp: gensyms_add algebra_simps)
qed (auto simp: constant_bindings_def binding_attribute_def binding_constant_def gensym_def List.map_filter_simps)

text \<open>A plan of match patterns, joins, unions, projections, aggregations and transformations translates to
  bindings in which the constants of its patterns are bound, in order, to fresh variables that are pairwise
  different as long as there are no more than \<open>2 ^ 32\<close> of them.\<close>

theorem into_bindings_fresh:
  assumes "hector_compatible p" and "hector_free p" and "length (pattern_constants p) \<le> 2 ^ 32"
  shows "\<exists>bs ctr'. into_bindings p ctr = (Inr bs, ctr') \<and>
    map snd (constant_bindings bs) = pattern_constants p \<and> distinct (map fst (constant_bindings bs))"
  using into_bindings_constants(1)[OF assms(1,2), of ctr] distinct_gensyms[OF assms(3), of ctr] by auto

theorem into_bindings_fresh_witness:
  "\<exists>bs ctr'. into_bindings (Join [1] (MatchEA 7 ''name'' 1) (MatchAV 1 ''age'' (Number 30))) 10 = (Inr bs, ctr') \<and>
    map snd (constant_bindings bs) = [Eid 7, Number 30] \<and> distinct (map fst (constant_bindings bs))"
  using into_bindings_fresh[of "Join [1] (MatchEA 7 ''name'' 1) (MatchAV 1 ''age'' (Number 30))" 10] by simp

end
