(* ===== verification/Operators.thy ===== *)
theory Operators
  imports Collections
begin

text \<open>
  What the plans rely on of the stateful operators of differential dataflow (\<^verbatim>\<open>distinct\<close>, \<^verbatim>\<open>join_core\<close>,
  \<^verbatim>\<open>antijoin\<close>, \<^verbatim>\<open>reduce\<close>, \<^verbatim>\<open>count\<close>). The operators are parameters of the plans; their documented behaviour
  is stated on the records they may output and on the multiplicity \<open>total_at\<close> of a record at a time, the sum of all its updates at or before
  that time, as the laws \<open>distinct_law\<close>, \<open>join_law\<close>, \<open>antijoin_law\<close> and \<open>reduce_law\<close>. The second part builds, for every
  time-dependent target, updates that accumulate to it at every time, and with it operators that satisfy the
  laws.
\<close>

section \<open>Multiplicities over time\<close>

fun upd_until :: "'t lattice_ops \<Rightarrow> 'd \<Rightarrow> 't \<Rightarrow> ('d, 't) update \<Rightarrow> int" where
  "upd_until L x t (y, s, d) = (if y = x \<and> less_equal L s t then d else 0)"

definition total_at :: "'t lattice_ops \<Rightarrow> ('d, 't) collection \<Rightarrow> 'd \<Rightarrow> 't \<Rightarrow> int" where
  "total_at L c x t = (\<Sum>u \<leftarrow> c. upd_until L x t u)"

lemma total_Nil [simp]: "total_at L [] x t = 0"
  by (simp add: total_at_def)

lemma total_Cons [simp]: "total_at L (u # c) x t = upd_until L x t u + total_at L c x t"
  by (simp add: total_at_def)

lemma total_append [simp]: "total_at L (c @ c') x t = total_at L c x t + total_at L c' x t"
  by (simp add: total_at_def)

lemma total_concat: "total_at L (concat cs) x t = (\<Sum>c \<leftarrow> cs. total_at L c x t)"
  by (induction cs) auto

lemma total_negate [simp]: "total_at L (coll_negate c) x t = - total_at L c x t"
  by (induction c) (auto simp: coll_negate_def)

lemma total_filter [simp]: "total_at L (coll_filter P c) x t = (if P x then total_at L c x t else 0)"
  by (induction c) (auto simp: coll_filter_def)

lemma total_absent: "x \<notin> fst ` set c \<Longrightarrow> total_at L c x t = 0"
  by (induction c) auto

lemma total_map_inj:
  assumes "inj_on f (insert x (fst ` set c))"
  shows "total_at L (coll_map f c) (f x) t = total_at L c x t"
  using assms by (induction c) (auto simp: coll_map_def inj_on_def)

lemma total_map:
  assumes "finite A" and "fst ` set c \<subseteq> A"
  shows "total_at L (coll_map f c) y t = (\<Sum>x \<in> {x \<in> A. f x = y}. total_at L c x t)"
  using assms(2)
proof (induction c)
  case Nil
  then show ?case by (simp add: coll_map_def)
next
  case (Cons u c)
  obtain z s d where u: "u = (z, s, d)" by (metis prod_cases3)
  have "(\<Sum>x \<in> {x \<in> A. f x = y}. upd_until L x t u) =
      (\<Sum>x \<in> {x \<in> A. f x = y}. if z = x then (if less_equal L s t then d else 0) else 0)"
    by (rule sum.cong) (auto simp: u)
  also have "\<dots> = upd_until L y t (f z, s, d)"
    using assms(1) Cons.prems u by (subst sum.delta') auto
  finally have "(\<Sum>x \<in> {x \<in> A. f x = y}. upd_until L x t u) = upd_until L y t (f z, s, d)" .
  with Cons show ?case by (simp add: coll_map_def u sum.distrib)
qed

lemma total_map_notin: "y \<notin> f ` fst ` set c \<Longrightarrow> total_at L (coll_map f c) y t = 0"
  by (rule total_absent) (auto simp: coll_map_def image_iff split: prod.splits)

lemma fst_coll_map [simp]: "fst ` set (coll_map f c) = f ` fst ` set c"
  by (force simp: coll_map_def image_iff)

section \<open>Laws\<close>

definition distinct_law ::
  "'t lattice_ops \<Rightarrow> (('d, 't) collection \<Rightarrow> ('d, 't) collection) \<Rightarrow> bool" where
  "distinct_law L op \<longleftrightarrow>
     (\<forall>c x t. total_at L (op c) x t = (if total_at L c x t > 0 then 1 else 0)) \<and>
     (\<forall>c. fst ` set (op c) \<subseteq> fst ` set c)"

definition join_law ::
  "'t lattice_ops \<Rightarrow> (('k \<times> 'v, 't) collection \<Rightarrow> ('k \<times> 'w, 't) collection \<Rightarrow> ('k \<times> 'v \<times> 'w, 't) collection) \<Rightarrow> bool" where
  "join_law L op \<longleftrightarrow>
     (\<forall>a b k v w t. total_at L (op a b) (k, v, w) t = total_at L a (k, v) t * total_at L b (k, w) t) \<and>
     (\<forall>a b. fst ` set (op a b) \<subseteq> {(k, v, w). (k, v) \<in> fst ` set a \<and> (k, w) \<in> fst ` set b})"

definition antijoin_law ::
  "'t lattice_ops \<Rightarrow> (('k \<times> 'v, 't) collection \<Rightarrow> ('k, 't) collection \<Rightarrow> ('k \<times> 'v, 't) collection) \<Rightarrow> bool" where
  "antijoin_law L op \<longleftrightarrow>
     (\<forall>a b k v t. total_at L (op a b) (k, v) t = total_at L a (k, v) t * (1 - total_at L b k t)) \<and>
     (\<forall>a b. fst ` set (op a b) \<subseteq> fst ` set a)"

text \<open>\<^verbatim>\<open>reduce\<close> applies its closure to the values of a key in ascending order, each with its multiplicity, and
  only when there are any.\<close>

definition group_at ::
  "'t lattice_ops \<Rightarrow> ('k \<times> 'v::linorder, 't) collection \<Rightarrow> 'k \<Rightarrow> 't \<Rightarrow> ('v \<times> int) list" where
  "group_at L c k t =
     (let vs = sorted_list_of_set {v \<in> snd ` fst ` set c. total_at L c (k, v) t \<noteq> 0}
      in map (\<lambda>v. (v, total_at L c (k, v) t)) vs)"

definition reduce_law ::
  "'t lattice_ops \<Rightarrow>
   (('k \<Rightarrow> ('v::linorder \<times> int) list \<Rightarrow> 'w) \<Rightarrow> ('k \<times> 'v, 't) collection \<Rightarrow> ('k \<times> 'w, 't) collection) \<Rightarrow> bool" where
  "reduce_law L op \<longleftrightarrow>
     (\<forall>f c k w t. total_at L (op f c) (k, w) t =
        (if group_at L c k t \<noteq> [] \<and> f k (group_at L c k t) = w then 1 else 0)) \<and>
     (\<forall>f c k w. (k, w) \<in> fst ` set (op f c) \<longrightarrow> (\<exists>t. group_at L c k t \<noteq> [] \<and> f k (group_at L c k t) = w))"

text \<open>\<^verbatim>\<open>count\<close> pairs every record with its multiplicity, unless that is zero.\<close>

definition count_law ::
  "'t lattice_ops \<Rightarrow> (('k, 't) collection \<Rightarrow> ('k \<times> int, 't) collection) \<Rightarrow> bool" where
  "count_law L op \<longleftrightarrow>
     (\<forall>c k n t. total_at L (op c) (k, n) t = (if n \<noteq> 0 \<and> n = total_at L c k t then 1 else 0)) \<and>
     (\<forall>c. fst ` fst ` set (op c) \<subseteq> fst ` set c)"

lemma distinct_lawD:
  "distinct_law L op \<Longrightarrow> total_at L (op c) x t = (if total_at L c x t > 0 then 1 else 0)"
  "distinct_law L op \<Longrightarrow> fst ` set (op c) \<subseteq> fst ` set c"
  unfolding distinct_law_def by blast+

lemma join_lawD:
  "join_law L op \<Longrightarrow> total_at L (op a b) (k, v, w) t = total_at L a (k, v) t * total_at L b (k, w) t"
  "join_law L op \<Longrightarrow> fst ` set (op a b) \<subseteq> {(k, v, w). (k, v) \<in> fst ` set a \<and> (k, w) \<in> fst ` set b}"
  unfolding join_law_def by blast+

lemma antijoin_lawD:
  "antijoin_law L op \<Longrightarrow> total_at L (op a b) (k, v) t = total_at L a (k, v) t * (1 - total_at L b k t)"
  "antijoin_law L op \<Longrightarrow> fst ` set (op a b) \<subseteq> fst ` set a"
  unfolding antijoin_law_def by blast+

lemma reduce_lawD:
  "reduce_law L op \<Longrightarrow> total_at L (op f c) (k, w) t =
     (if group_at L c k t \<noteq> [] \<and> f k (group_at L c k t) = w then 1 else 0)"
  "reduce_law L op \<Longrightarrow> (k, w) \<in> fst ` set (op f c) \<Longrightarrow>
     \<exists>t. group_at L c k t \<noteq> [] \<and> f k (group_at L c k t) = w"
  unfolding reduce_law_def by blast+

lemma group_key: "group_at L c k t \<noteq> [] \<Longrightarrow> k \<in> fst ` fst ` set c"
proof -
  assume "group_at L c k t \<noteq> []"
  then have "{v \<in> snd ` fst ` set c. total_at L c (k, v) t \<noteq> 0} \<noteq> {}" by (auto simp: group_at_def Let_def)
  then obtain v where "total_at L c (k, v) t \<noteq> 0" by blast
  with total_absent[of "(k, v)" c L t] have "(k, v) \<in> fst ` set c" by blast
  then show ?thesis by force
qed

section \<open>Operators that satisfy the laws\<close>

text \<open>All least upper bounds of the times of a collection.\<close>

fun lubs :: "'t lattice_ops \<Rightarrow> 't list \<Rightarrow> 't list" where
  "lubs L [] = []"
| "lubs L (t # ts) = t # lubs L ts @ map (tjoin L t) (lubs L ts)"

function increment :: "'t lattice_ops \<Rightarrow> 't list \<Rightarrow> ('t \<Rightarrow> int) \<Rightarrow> 't \<Rightarrow> int" where
  "increment L T g t =
     g t - (\<Sum>s \<leftarrow> filter (\<lambda>s. less_equal L s t \<and> \<not> less_equal L t s \<and>
              card {r \<in> set T. less_equal L r s} < card {r \<in> set T. less_equal L r t}) T.
            increment L T g s)"
  by pat_completeness auto
termination
  by (relation "measure (\<lambda>(L, T, g, t). card {r \<in> set T. less_equal L r t})") auto

declare increment.simps [simp del]

definition build ::
  "'t lattice_ops \<Rightarrow> 't list \<Rightarrow> 'd list \<Rightarrow> ('d \<Rightarrow> 't \<Rightarrow> int) \<Rightarrow> ('d, 't) collection" where
  "build L ts xs g =
     concat (map (\<lambda>x. map (\<lambda>t. (x, t, increment L (remdups (lubs L ts)) (g x) t)) (remdups (lubs L ts)))
       (remdups xs))"

definition times_of :: "('d, 't) collection \<Rightarrow> 't list" where
  "times_of c = map (\<lambda>(x, t, d). t) c"

definition ref_distinct :: "'t lattice_ops \<Rightarrow> ('d, 't) collection \<Rightarrow> ('d, 't) collection" where
  "ref_distinct L c =
     build L (times_of c) (map fst c) (\<lambda>x t. if total_at L c x t > 0 then 1 else 0)"

definition ref_join ::
  "'t lattice_ops \<Rightarrow> ('k \<times> 'v, 't) collection \<Rightarrow> ('k \<times> 'w, 't) collection \<Rightarrow> ('k \<times> 'v \<times> 'w, 't) collection" where
  "ref_join L a b =
     build L (times_of a @ times_of b)
       (concat (map (\<lambda>(k, v). map (\<lambda>(_, w). (k, v, w)) (filter (\<lambda>(l, w). l = k) (map fst b))) (map fst a)))
       (\<lambda>(k, v, w) t. total_at L a (k, v) t * total_at L b (k, w) t)"

definition ref_antijoin ::
  "'t lattice_ops \<Rightarrow> ('k \<times> 'v, 't) collection \<Rightarrow> ('k, 't) collection \<Rightarrow> ('k \<times> 'v, 't) collection" where
  "ref_antijoin L a b =
     build L (times_of a @ times_of b) (map fst a)
       (\<lambda>(k, v) t. total_at L a (k, v) t * (1 - total_at L b k t))"

definition ref_count :: "'t lattice_ops \<Rightarrow> ('k, 't) collection \<Rightarrow> ('k \<times> int, 't) collection" where
  "ref_count L c =
     build L (times_of c)
       (concat (map (\<lambda>(k, _). map (\<lambda>m. (k, total_at L c k m)) (lubs L (times_of c))) c))
       (\<lambda>(k, n) t. if n \<noteq> 0 \<and> n = total_at L c k t then 1 else 0)"

definition ref_reduce ::
  "'t lattice_ops \<Rightarrow> ('k \<Rightarrow> ('v::linorder \<times> int) list \<Rightarrow> 'w) \<Rightarrow> ('k \<times> 'v, 't) collection \<Rightarrow> ('k \<times> 'w, 't) collection" where
  "ref_reduce L f c =
     build L (times_of c)
       (concat (map (\<lambda>(k, _). map (\<lambda>m. (k, f k (group_at L c k m)))
          (filter (\<lambda>m. group_at L c k m \<noteq> []) (lubs L (times_of c)))) (map fst c)))
       (\<lambda>(k, w) t. if group_at L c k t \<noteq> [] \<and> f k (group_at L c k t) = w then 1 else 0)"

context time_lattice
begin

lemma lubs_member: "t \<in> set ts \<Longrightarrow> t \<in> set (lubs L ts)"
  by (induction ts) auto

text \<open>The bounds below a time have a greatest element, above the same times of the collection.\<close>

lemma lubs_greatest:
  assumes "\<exists>s \<in> set ts. less_equal L s t"
  shows "\<exists>m \<in> set (lubs L ts). less_equal L m t \<and> (\<forall>s \<in> set ts. less_equal L s t \<longrightarrow> less_equal L s m)"
  using assms
proof (induction ts)
  case Nil
  then show ?case by simp
next
  case (Cons u ts)
  show ?case
  proof (cases "\<exists>s \<in> set ts. less_equal L s t")
    case True
    with Cons.IH obtain m where m: "m \<in> set (lubs L ts)" "less_equal L m t"
      "\<forall>s \<in> set ts. less_equal L s t \<longrightarrow> less_equal L s m" by blast
    show ?thesis
    proof (cases "less_equal L u t")
      case True
      then have "less_equal L (tjoin L u m) t" using m(2) by (rule join_least)
      moreover have "less_equal L s (tjoin L u m)" if "less_equal L s t" "s \<in> set (u # ts)" for s
        using that m(3) by (auto intro: join_ub1 trans[OF _ join_ub2])
      ultimately show ?thesis using m(1) by auto
    qed (use m in auto)
  next
    case False
    with Cons.prems show ?thesis using refl by auto
  qed
qed

lemma lubs_above: "s \<in> set (lubs L ts) \<Longrightarrow> \<exists>u \<in> set ts. less_equal L u s"
proof (induction ts arbitrary: s)
  case Nil
  then show ?case by simp
next
  case (Cons u ts)
  then show ?case using refl join_ub1 by (auto 4 4)
qed

lemma lubs_least:
  assumes "s \<in> set (lubs L ts)" and "\<And>u. u \<in> set ts \<Longrightarrow> less_equal L u s \<Longrightarrow> less_equal L u m"
  shows "less_equal L s m"
  using assms
proof (induction ts arbitrary: s)
  case Nil
  then show ?case by simp
next
  case (Cons v ts)
  consider "s = v" | "s \<in> set (lubs L ts)" | r where "r \<in> set (lubs L ts)" "s = tjoin L v r"
    using Cons.prems(1) by auto
  then show ?case
  proof cases
    case 3
    have "less_equal L r m" using Cons.IH[OF 3(1)] Cons.prems(2) 3(2) join_ub2 trans by (meson list.set_intros(2))
    moreover have "less_equal L v m" using Cons.prems(2)[of v] 3(2) join_ub1 by simp
    ultimately show ?thesis using 3(2) join_least by simp
  qed (use Cons refl in auto)
qed

lemma increment_sum:
  assumes "distinct T" and "t \<in> set T"
  shows "(\<Sum>s \<in> {s \<in> set T. less_equal L s t}. increment L T g s) = g t"
proof -
  let ?lt = "{s \<in> set T. less_equal L s t \<and> \<not> less_equal L t s}"
  have card: "card {r \<in> set T. less_equal L r s} < card {r \<in> set T. less_equal L r t}"
    if "less_equal L s t" "\<not> less_equal L t s" for s
  proof (rule psubset_card_mono)
    show "{r \<in> set T. less_equal L r s} \<subset> {r \<in> set T. less_equal L r t}"
      using that assms(2) trans refl by blast
  qed simp
  have "filter (\<lambda>s. less_equal L s t \<and> \<not> less_equal L t s \<and>
      card {r \<in> set T. less_equal L r s} < card {r \<in> set T. less_equal L r t}) T =
      filter (\<lambda>s. less_equal L s t \<and> \<not> less_equal L t s) T"
    using card by (intro filter_cong) auto
  then have "increment L T g t = g t - (\<Sum>s \<in> ?lt. increment L T g s)"
    using assms(1) by (subst increment.simps) (simp add: sum_list_distinct_conv_sum_set)
  moreover have "{s \<in> set T. less_equal L s t} = insert t ?lt" using assms(2) antisym refl by auto
  ultimately show ?thesis using refl by simp
qed

lemma total_build:
  assumes stable: "\<And>t t'. (\<forall>s \<in> set ts. less_equal L s t \<longleftrightarrow> less_equal L s t') \<Longrightarrow> g x t = g x t'"
    and base: "\<And>t. (\<forall>s \<in> set ts. \<not> less_equal L s t) \<Longrightarrow> g x t = 0"
    and support: "\<And>t. x \<notin> set xs \<Longrightarrow> g x t = 0"
  shows "total_at L (build L ts xs g) x t = g x t"
proof -
  let ?T = "remdups (lubs L ts)"
  let ?inc = "\<lambda>y. increment L ?T (g y)"
  have upds: "total_at L (map (\<lambda>t. (y, t, ?inc y t)) T') x t =
      (if y = x then \<Sum>s \<leftarrow> filter (\<lambda>s. less_equal L s t) T'. ?inc y s else 0)" for y T'
    by (induction T') auto
  have "total_at L (build L ts xs g) x t =
      (\<Sum>y \<leftarrow> remdups xs. if y = x then \<Sum>s \<leftarrow> filter (\<lambda>s. less_equal L s t) ?T. ?inc y s else 0)"
    by (simp only: build_def total_concat map_map comp_def upds)
  also have "\<dots> = (\<Sum>y \<in> set xs. if y = x then \<Sum>s \<leftarrow> filter (\<lambda>s. less_equal L s t) ?T. ?inc y s else 0)"
    by (simp add: sum_list_distinct_conv_sum_set)
  also have "\<dots> = (if x \<in> set xs then \<Sum>s \<leftarrow> filter (\<lambda>s. less_equal L s t) ?T. ?inc x s else 0)"
    by simp
  also have "(\<Sum>s \<leftarrow> filter (\<lambda>s. less_equal L s t) ?T. ?inc x s) =
      (\<Sum>s \<in> {s \<in> set ?T. less_equal L s t}. ?inc x s)"
    by (simp add: sum_list_distinct_conv_sum_set)
  finally have tot: "total_at L (build L ts xs g) x t =
      (if x \<in> set xs then \<Sum>s \<in> {s \<in> set ?T. less_equal L s t}. ?inc x s else 0)" .
  show ?thesis
  proof (cases "\<exists>s \<in> set ts. less_equal L s t")
    case False
    then have empty: "{s \<in> set ?T. less_equal L s t} = {}" using lubs_above trans by fastforce
    have "g x t = 0" using base False by blast
    with tot show ?thesis unfolding empty by simp
  next
    case True
    from lubs_greatest[OF this] obtain m where m: "m \<in> set ?T" "less_equal L m t"
      "\<forall>s \<in> set ts. less_equal L s t \<longrightarrow> less_equal L s m" by auto
    have "{s \<in> set ?T. less_equal L s t} = {s \<in> set ?T. less_equal L s m}"
      using lubs_least[of _ ts m] m trans by auto
    moreover have "g x m = g x t" using m trans by (intro stable) blast
    ultimately show ?thesis using tot support increment_sum[OF _ m(1), of "g x"] by simp
  qed
qed

lemma total_stable:
  "(\<forall>s \<in> set (times_of c). less_equal L s t \<longleftrightarrow> less_equal L s t') \<Longrightarrow> total_at L c x t = total_at L c x t'"
  by (induction c) (auto simp: times_of_def)

lemma total_base: "(\<forall>s \<in> set (times_of c). \<not> less_equal L s t) \<Longrightarrow> total_at L c x t = 0"
  by (induction c) (auto simp: times_of_def)

lemma total_unrecorded: "x \<notin> set (map fst c) \<Longrightarrow> total_at L c x t = 0"
  by (rule total_absent) simp

lemma total_ref_distinct: "total_at L (ref_distinct L c) x t = (if total_at L c x t > 0 then 1 else 0)"
  unfolding ref_distinct_def
proof (rule total_build)
  fix t t'
  assume "\<forall>s \<in> set (times_of c). less_equal L s t \<longleftrightarrow> less_equal L s t'"
  from total_stable[OF this]
  show "(if 0 < total_at L c x t then 1 else 0 :: int) = (if 0 < total_at L c x t' then 1 else 0)" by simp
qed (use total_base[of c] total_unrecorded[of x c] in auto)

lemma times_of_append [simp]: "set (times_of (a @ b)) = set (times_of a) \<union> set (times_of b)"
  by (auto simp: times_of_def)

lemma total_ref_join:
  "total_at L (ref_join L a b) (k, v, w) t = total_at L a (k, v) t * total_at L b (k, w) t"
proof -
  let ?g = "\<lambda>(k, v, w) t. total_at L a (k, v) t * total_at L b (k, w) t"
  have "total_at L (ref_join L a b) (k, v, w) t = ?g (k, v, w) t"
    unfolding ref_join_def
  proof (rule total_build)
    fix t t'
    assume "\<forall>s \<in> set (times_of a @ times_of b). less_equal L s t \<longleftrightarrow> less_equal L s t'"
    then show "?g (k, v, w) t = ?g (k, v, w) t'"
      using total_stable[of a t t'] total_stable[of b t t'] by simp
  next
    fix t
    assume "\<forall>s \<in> set (times_of a @ times_of b). \<not> less_equal L s t"
    then show "?g (k, v, w) t = 0" using total_base[of a t] by simp
  next
    fix t
    assume "(k, v, w) \<notin> set (concat (map (\<lambda>(k, v). map (\<lambda>(_, w). (k, v, w))
        (filter (\<lambda>(l, w). l = k) (map fst b))) (map fst a)))"
    then have "(k, v) \<notin> set (map fst a) \<or> (k, w) \<notin> set (map fst b)" by force
    then show "?g (k, v, w) t = 0"
      using total_unrecorded[of "(k, v)" a] total_unrecorded[of "(k, w)" b] by fastforce
  qed
  then show ?thesis by simp
qed

lemma total_ref_antijoin:
  "total_at L (ref_antijoin L a b) (k, v) t = total_at L a (k, v) t * (1 - total_at L b k t)"
proof -
  let ?g = "\<lambda>(k, v) t. total_at L a (k, v) t * (1 - total_at L b k t)"
  have "total_at L (ref_antijoin L a b) (k, v) t = ?g (k, v) t"
    unfolding ref_antijoin_def
  proof (rule total_build)
    fix t t'
    assume "\<forall>s \<in> set (times_of a @ times_of b). less_equal L s t \<longleftrightarrow> less_equal L s t'"
    then show "?g (k, v) t = ?g (k, v) t'"
      using total_stable[of a t t'] total_stable[of b t t'] by simp
  qed (use total_base[of a] total_unrecorded[of "(k, v)" a] in auto)
  then show ?thesis by simp
qed

lemma group_stable:
  "(\<forall>s \<in> set (times_of c). less_equal L s t \<longleftrightarrow> less_equal L s t') \<Longrightarrow> group_at L c k t = group_at L c k t'"
  unfolding group_at_def Let_def using total_stable[of c t t'] by simp

lemma group_base: "(\<forall>s \<in> set (times_of c). \<not> less_equal L s t) \<Longrightarrow> group_at L c k t = []"
  unfolding group_at_def Let_def using total_base[of c t] by simp

lemma total_ref_reduce:
  "total_at L (ref_reduce L f c) (k, w) t =
     (if group_at L c k t \<noteq> [] \<and> f k (group_at L c k t) = w then 1 else 0)"
proof -
  let ?g = "\<lambda>(k, w) t. if group_at L c k t \<noteq> [] \<and> f k (group_at L c k t) = w then 1 else 0 :: int"
  have "total_at L (ref_reduce L f c) (k, w) t = ?g (k, w) t"
    unfolding ref_reduce_def
  proof (rule total_build)
    fix t t' assume "\<forall>s \<in> set (times_of c). less_equal L s t \<longleftrightarrow> less_equal L s t'"
    then show "?g (k, w) t = ?g (k, w) t'" using group_stable[of c t t' k] by simp
  next
    fix t assume "\<forall>s \<in> set (times_of c). \<not> less_equal L s t"
    then show "?g (k, w) t = 0" using group_base[of c t k] by simp
  next
    fix t
    assume out: "(k, w) \<notin> set (concat (map (\<lambda>(k, _). map (\<lambda>m. (k, f k (group_at L c k m)))
        (filter (\<lambda>m. group_at L c k m \<noteq> []) (lubs L (times_of c)))) (map fst c)))"
    show "?g (k, w) t = 0"
    proof (cases "group_at L c k t = []")
      case False
      then have k: "k \<in> fst ` fst ` set c" by (rule group_key)
      have "\<exists>s \<in> set (times_of c). less_equal L s t" using False group_base[of c t k] by blast
      from lubs_greatest[OF this] obtain m where m: "m \<in> set (lubs L (times_of c))" "less_equal L m t"
        "\<forall>s \<in> set (times_of c). less_equal L s t \<longrightarrow> less_equal L s m" by blast
      then have "group_at L c k t = group_at L c k m" using trans by (intro group_stable) blast
      with out k m(1) False show ?thesis by force
    qed simp
  qed
  then show ?thesis by simp
qed

lemma total_ref_count:
  "total_at L (ref_count L c) (k, n) t = (if n \<noteq> 0 \<and> n = total_at L c k t then 1 else 0)"
proof -
  let ?g = "\<lambda>(k, n) t. if n \<noteq> 0 \<and> n = total_at L c k t then 1 else 0 :: int"
  have "total_at L (ref_count L c) (k, n) t = ?g (k, n) t"
    unfolding ref_count_def
  proof (rule total_build)
    fix t t' assume "\<forall>s \<in> set (times_of c). less_equal L s t \<longleftrightarrow> less_equal L s t'"
    then show "?g (k, n) t = ?g (k, n) t'" using total_stable[of c t t' k] by simp
  next
    fix t assume "\<forall>s \<in> set (times_of c). \<not> less_equal L s t"
    then show "?g (k, n) t = 0" using total_base[of c t k] by simp
  next
    fix t assume out: "(k, n) \<notin> set (concat (map (\<lambda>(k, _). map (\<lambda>m. (k, total_at L c k m)) (lubs L (times_of c))) c))"
    show "?g (k, n) t = 0"
    proof (rule ccontr)
      assume "?g (k, n) t \<noteq> 0"
      then have n: "n \<noteq> 0" "n = total_at L c k t" by (auto split: if_splits)
      have k: "k \<in> fst ` set c" using n total_absent[of k c L t] by auto
      have "\<exists>s \<in> set (times_of c). less_equal L s t" using n total_base[of c t k] by blast
      from lubs_greatest[OF this] obtain m where m: "m \<in> set (lubs L (times_of c))" "less_equal L m t"
        "\<forall>s \<in> set (times_of c). less_equal L s t \<longrightarrow> less_equal L s m" by blast
      then have "total_at L c k t = total_at L c k m" using trans by (intro total_stable) blast
      with out k m(1) n(2) show False by force
    qed
  qed
  then show ?thesis by simp
qed

lemma records_build: "fst ` set (build L ts xs g) \<subseteq> set xs"
  by (auto simp: build_def)

lemma ref_count_records: "fst ` fst ` set (ref_count L c) \<subseteq> fst ` set c"
  unfolding ref_count_def by (rule order_trans[OF image_mono[OF records_build]]) force

lemma ref_count_law: "count_law L (ref_count L)"
  unfolding count_law_def by (intro conjI allI total_ref_count ref_count_records)

lemma ref_distinct_records: "fst ` set (ref_distinct L c) \<subseteq> fst ` set c"
  unfolding ref_distinct_def by (rule order_trans[OF records_build]) simp

lemma ref_antijoin_records: "fst ` set (ref_antijoin L a b) \<subseteq> fst ` set a"
  unfolding ref_antijoin_def by (rule order_trans[OF records_build]) simp

lemma ref_join_records:
  "fst ` set (ref_join L a b) \<subseteq> {(k, v, w). (k, v) \<in> fst ` set a \<and> (k, w) \<in> fst ` set b}"
  unfolding ref_join_def
proof (rule order_trans[OF records_build], rule subsetI)
  fix x
  assume "x \<in> set (concat (map (\<lambda>(k, v). map (\<lambda>(_, w). (k, v, w)) (filter (\<lambda>(l, w). l = k) (map fst b))) (map fst a)))"
  then obtain k v w where "(k, v) \<in> set (map fst a)" "(k, w) \<in> set (map fst b)" "x = (k, v, w)" by auto
  then show "x \<in> {(k, v, w). (k, v) \<in> fst ` set a \<and> (k, w) \<in> fst ` set b}" by simp
qed

lemma ref_reduce_records:
  assumes "(k, w) \<in> fst ` set (ref_reduce L f c)"
  shows "\<exists>t. group_at L c k t \<noteq> [] \<and> f k (group_at L c k t) = w"
proof -
  have "(k, w) \<in> set (concat (map (\<lambda>(k, _). map (\<lambda>m. (k, f k (group_at L c k m)))
      (filter (\<lambda>m. group_at L c k m \<noteq> []) (lubs L (times_of c)))) (map fst c)))"
    using assms unfolding ref_reduce_def by (rule subsetD[OF records_build])
  then obtain m where "group_at L c k m \<noteq> []" "w = f k (group_at L c k m)" by auto
  then show ?thesis by blast
qed

lemma ref_laws:
  "distinct_law L (ref_distinct L)" "join_law L (ref_join L)" "antijoin_law L (ref_antijoin L)"
  "reduce_law L (ref_reduce L)"
  unfolding distinct_law_def join_law_def antijoin_law_def reduce_law_def
  by (intro conjI allI impI total_ref_distinct total_ref_join total_ref_antijoin total_ref_reduce
      ref_distinct_records ref_antijoin_records ref_join_records ref_reduce_records; assumption)+

end

section \<open>Times of the iterative scope\<close>

text \<open>\<^verbatim>\<open>Product<T, u64>\<close> of timely, ordered and joined componentwise.\<close>

definition nested_ops :: "'t lattice_ops \<Rightarrow> ('t \<times> u64) lattice_ops" where
  "nested_ops L =
     \<lparr> less_equal = (\<lambda>a b. less_equal L (fst a) (fst b) \<and> snd a \<le> snd b),
       tjoin = (\<lambda>a b. (tjoin L (fst a) (fst b), max (snd a) (snd b))),
       tmeet = (\<lambda>a b. (tmeet L (fst a) (fst b), min (snd a) (snd b))),
       tminimum = (tminimum L, 0) \<rparr>"

context time_lattice
begin

lemma nested_is_lattice: "time_lattice (nested_ops L)"
  by unfold_locales
     (auto simp: nested_ops_def refl minimum join_ub1 join_ub2 join_least meet_lb1 meet_lb2 meet_greatest
        intro: trans antisym prod_eqI)

end

interpretation u64_nested_lat: time_lattice "nested_ops u64_ops"
  by (rule u64_lat.nested_is_lattice)

end
