(* ===== verification/Plan_Nodes.thy ===== *)
theory Plan_Nodes
  imports Relations Plans Operators
begin

text \<open>
  How the nodes of a plan are implemented on relations, from \<^verbatim>\<open>src/src/plan\<close>: \<^verbatim>\<open>mod.rs\<close>, \<^verbatim>\<open>project.rs\<close>,
  \<^verbatim>\<open>union.rs\<close>, \<^verbatim>\<open>antijoin.rs\<close>, \<^verbatim>\<open>filter.rs\<close>, \<^verbatim>\<open>transform.rs\<close> and \<^verbatim>\<open>join.rs\<close>. A node takes the relations and shutdown
  handles of its children. Building a dataflow and running it on the updates of its inputs are one step
  here, so that a closure that panics on a record makes the node panic.

  The operators of differential dataflow are the fields of \<open>dataflow_ops\<close>; \<^verbatim>\<open>join_core\<close> with a closure that
  returns one record is the join followed by that closure on the key and both values.
\<close>

record 't dataflow_ops =
  import_trace :: "'t import"
  distinct_tuples :: "'t tuples \<Rightarrow> 't tuples"
  distinct_pairs :: "(tuple \<times> tuple, 't nested) collection \<Rightarrow> (tuple \<times> tuple, 't nested) collection"
  antijoin_pairs :: "(tuple \<times> tuple, 't nested) collection \<Rightarrow> 't tuples \<Rightarrow> (tuple \<times> tuple, 't nested) collection"
  join_pairs :: "(tuple \<times> tuple, 't nested) collection \<Rightarrow> (tuple \<times> tuple, 't nested) collection \<Rightarrow>
    (tuple \<times> tuple \<times> tuple, 't nested) collection"
  join_values :: "(df_value \<times> df_value, 't nested) collection \<Rightarrow> (df_value \<times> df_value, 't nested) collection \<Rightarrow>
    (df_value \<times> df_value \<times> df_value, 't nested) collection"
  join_paths :: "(df_value \<times> tuple, 't nested) collection \<Rightarrow> (df_value \<times> df_value, 't nested) collection \<Rightarrow>
    (df_value \<times> tuple \<times> df_value, 't nested) collection"
  reduce_pairs :: "(tuple \<Rightarrow> (tuple \<times> int) list \<Rightarrow> tuple) \<Rightarrow> (tuple \<times> tuple, 't nested) collection \<Rightarrow>
    (tuple \<times> tuple, 't nested) collection"

type_synonym 't relation = "'t implemented \<times> handle"

abbreviation collection_of :: "var list \<Rightarrow> 't tuples \<Rightarrow> 't implemented" where
  "collection_of vs c \<equiv> ImplCollection \<lparr> rel_variables = vs, rel_tuples = c \<rparr>"

section \<open>Projection, negation, union\<close>

definition project_implement ::
  "'t dataflow_ops \<Rightarrow> ('t, 'r, 'pr) dom \<Rightarrow> var list \<Rightarrow> 't relation \<Rightarrow> 't relation run" where
  "project_implement ops dm vs rel =
     (let (relation, shutdown_handle) = rel in
      run_bind (impl_projected (import_trace ops) dm relation vs)
        (\<lambda>(projected, shutdown). Inr (collection_of vs projected, merge_with shutdown_handle shutdown)))"

definition negate_implement ::
  "'t dataflow_ops \<Rightarrow> ('t, 'r, 'pr) dom \<Rightarrow> 't relation \<Rightarrow> 't relation run" where
  "negate_implement ops dm rel =
     (let (relation, shutdown_handle) = rel; vs = impl_variables relation in
      run_bind (impl_projected (import_trace ops) dm relation vs)
        (\<lambda>(projected, shutdown).
           Inr (collection_of vs (coll_negate projected), merge_with shutdown_handle shutdown)))"

text \<open>The streams of a union are built one after the other: each child is implemented and then projected.\<close>

fun union_streams ::
  "'t dataflow_ops \<Rightarrow> ('t, 'r, 'pr) dom \<Rightarrow> var list \<Rightarrow> 't relation run list \<Rightarrow> handle \<Rightarrow>
   ('t tuples list \<times> handle) run" where
  "union_streams ops dm vs [] shutdown_handle = Inr ([], shutdown_handle)"
| "union_streams ops dm vs (child # children) shutdown_handle =
     run_bind child (\<lambda>(relation, shutdown).
     run_bind (impl_projected (import_trace ops) dm relation vs) (\<lambda>(projected, shutdown').
     run_bind (union_streams ops dm vs children (merge_with (merge_with shutdown_handle shutdown) shutdown'))
       (\<lambda>(streams, shutdown_handle'). Inr (projected # streams, shutdown_handle'))))"

definition union_implement ::
  "'t dataflow_ops \<Rightarrow> ('t, 'r, 'pr) dom \<Rightarrow> var list \<Rightarrow> 't relation run list \<Rightarrow> 't relation run" where
  "union_implement ops dm vs children =
     run_bind (union_streams ops dm vs children handle_empty)
       (\<lambda>(streams, shutdown_handle). Inr (collection_of vs (distinct_tuples ops (concat streams)), shutdown_handle))"

section \<open>Antijoin\<close>

definition antijoin_implement ::
  "'t dataflow_ops \<Rightarrow> ('t, 'r, 'pr) dom \<Rightarrow> var list \<Rightarrow> 't relation \<Rightarrow> 't relation \<Rightarrow> 't relation run" where
  "antijoin_implement ops dm vs l r =
     (let (left, shutdown_left) = l; (right, shutdown_right) = r;
          shutdown_handle = merge_with (merge_with handle_empty shutdown_left) shutdown_right;
          variables = vs @ filter (\<lambda>x. x \<notin> set vs) (impl_variables left) in
      run_bind (impl_projected (import_trace ops) dm right vs) (\<lambda>(right_projected, shutdown1).
      run_bind (impl_by_variables (import_trace ops) dm left vs) (\<lambda>(left_arranged, shutdown2).
        Inr (collection_of variables
               (coll_map (\<lambda>(key, tup). key @ tup)
                  (antijoin_pairs ops (distinct_pairs ops left_arranged) (distinct_tuples ops right_projected))),
             merge_with (merge_with shutdown_handle shutdown1) shutdown2))))"

section \<open>Filter\<close>

fun compare_values :: "binary_predicate \<Rightarrow> df_value \<Rightarrow> df_value \<Rightarrow> bool" where
  "compare_values LT a b = (a < b)"
| "compare_values LTE a b = (a \<le> b)"
| "compare_values GT a b = (a > b)"
| "compare_values GTE a b = (a \<ge> b)"
| "compare_values EQ a b = (a = b)"
| "compare_values NEQ a b = (a \<noteq> b)"

definition key_offsets_of :: "'t implemented \<Rightarrow> var list \<Rightarrow> usize list run" where
  "key_offsets_of relation vs = run_map (\<lambda>x. expect ''variable not found'' (impl_binds relation x)) vs"

text \<open>\<^verbatim>\<open>tuple[key_offsets[i]]\<close>.\<close>

definition tuple_at :: "usize list \<Rightarrow> tuple \<Rightarrow> usize \<Rightarrow> df_value run" where
  "tuple_at key_offsets tup i = run_bind (vec_index key_offsets i) (\<lambda>offset. vec_index tup offset)"

definition filter_closure ::
  "binary_predicate \<Rightarrow> df_value option list \<Rightarrow> usize list \<Rightarrow> (tuple \<Rightarrow> bool run) run" where
  "filter_closure predicate constants key_offsets =
     run_bind (vec_index constants 0) (\<lambda>c0. case c0 of
       Some constant \<Rightarrow> Inr (\<lambda>tup. run_bind (tuple_at key_offsets tup 0)
           (\<lambda>v. Inr (compare_values predicate constant v)))
     | None \<Rightarrow> run_bind (vec_index constants 1) (\<lambda>c1. case c1 of
         Some constant \<Rightarrow> Inr (\<lambda>tup. run_bind (tuple_at key_offsets tup 0)
             (\<lambda>v. Inr (compare_values predicate v constant)))
       | None \<Rightarrow> Inr (\<lambda>tup. run_bind (tuple_at key_offsets tup 0) (\<lambda>v.
             run_bind (tuple_at key_offsets tup 1) (\<lambda>w. Inr (compare_values predicate v w))))))"

definition filter_implement ::
  "'t dataflow_ops \<Rightarrow> ('t, 'r, 'pr) dom \<Rightarrow> var list \<Rightarrow> binary_predicate \<Rightarrow> df_value option list \<Rightarrow>
   't relation \<Rightarrow> 't relation run" where
  "filter_implement ops dm vs predicate constants rel =
     (let (relation, shutdown_handle) = rel; variables = impl_variables relation in
      run_bind (key_offsets_of relation vs) (\<lambda>key_offsets.
      run_bind (impl_projected (import_trace ops) dm relation variables) (\<lambda>(projected, shutdown).
      run_bind (filter_closure predicate constants key_offsets) (\<lambda>closure.
      run_bind (coll_filter_run closure projected) (\<lambda>filtered.
        Inr (collection_of variables filtered, merge_with shutdown_handle shutdown))))))"

section \<open>Transform\<close>

fun number_of :: "string \<Rightarrow> df_value \<Rightarrow> i64 run" where
  "number_of m (Number s) = Inr s"
| "number_of m _ = Inl m"

fun accumulate_vars :: "string \<Rightarrow> (i64 \<Rightarrow> i64 \<Rightarrow> i64) \<Rightarrow> tuple \<Rightarrow> usize list \<Rightarrow> i64 \<Rightarrow> i64 run" where
  "accumulate_vars m f tup [] result = Inr result"
| "accumulate_vars m f tup (offset # offsets) result =
     run_bind (vec_index tup offset) (\<lambda>v. run_bind (number_of m v)
       (\<lambda>s. accumulate_vars m f tup offsets (f result s)))"

fun accumulate_constants :: "string \<Rightarrow> (i64 \<Rightarrow> i64 \<Rightarrow> i64) \<Rightarrow> df_value option list \<Rightarrow> i64 \<Rightarrow> i64 run" where
  "accumulate_constants m f [] result = Inr result"
| "accumulate_constants m f (None # args) result = accumulate_constants m f args result"
| "accumulate_constants m f (Some c # args) result =
     run_bind (number_of m c) (\<lambda>s. accumulate_constants m f args (f result s))"

definition truncate_interval :: "string \<Rightarrow> u64 run" where
  "truncate_interval interval =
     (if interval = '':minute'' then Inr 60000
      else if interval = '':hour'' then Inr 3600000
      else if interval = '':day'' then Inr 86400000
      else if interval = '':week'' then Inr 604800000
      else Inl ''Unknown interval for TRUNCATE'')"

definition truncate_tuple :: "df_value option list \<Rightarrow> usize list \<Rightarrow> tuple \<Rightarrow> tuple run" where
  "truncate_tuple constants key_offsets tup =
     run_bind (tuple_at key_offsets tup 0) (\<lambda>x.
     run_bind (case x of Instant inst \<Rightarrow> Inr inst | _ \<Rightarrow> Inl ''TRUNCATE can only be applied to timestamps'') (\<lambda>t.
     run_bind (vec_index constants 1) (\<lambda>c.
     run_bind (case c of Some (String interval) \<Rightarrow> Inr interval | None \<Rightarrow> Inr '':hour''
               | _ \<Rightarrow> Inl ''Parameter for TRUNCATE must be a string'') (\<lambda>interval_param.
     run_bind (truncate_interval interval_param) (\<lambda>mod_val.
       Inr (tup @ [Instant (t - t mod mod_val)]))))))"

definition add_tuple :: "df_value option list \<Rightarrow> usize list \<Rightarrow> tuple \<Rightarrow> tuple run" where
  "add_tuple constants key_offsets tup =
     (let m = ''ADD can only be applied to numbers'' in
      run_bind (accumulate_vars m (+) tup key_offsets 0) (\<lambda>result.
      run_bind (accumulate_constants m (+) constants result) (\<lambda>result'. Inr (tup @ [Number result']))))"

definition subtract_tuple :: "df_value option list \<Rightarrow> usize list \<Rightarrow> tuple \<Rightarrow> tuple run" where
  "subtract_tuple constants key_offsets tup =
     (let m = ''SUBTRACT can only be applied to numbers'' in
      run_bind (vec_index constants 0) (\<lambda>c.
      run_bind (case c of Some constant \<Rightarrow> number_of m constant
                | None \<Rightarrow> run_bind (tuple_at key_offsets tup 0) (number_of m)) (\<lambda>minuend.
      run_bind (accumulate_vars m (-) tup key_offsets (minuend + minuend)) (\<lambda>result.
      run_bind (accumulate_constants m (-) constants result) (\<lambda>result'. Inr (tup @ [Number result']))))))"

fun transform_tuple :: "df_function \<Rightarrow> df_value option list \<Rightarrow> usize list \<Rightarrow> tuple \<Rightarrow> tuple run" where
  "transform_tuple TRUNCATE = truncate_tuple"
| "transform_tuple ADD = add_tuple"
| "transform_tuple SUBTRACT = subtract_tuple"

definition transform_implement ::
  "'t dataflow_ops \<Rightarrow> ('t, 'r, 'pr) dom \<Rightarrow> var list \<Rightarrow> var \<Rightarrow> df_function \<Rightarrow> df_value option list \<Rightarrow>
   't relation \<Rightarrow> 't relation run" where
  "transform_implement ops dm vs result_variable function_expr constants rel =
     (let (relation, shutdown_handle) = rel; variables = impl_variables relation @ [result_variable] in
      run_bind (key_offsets_of relation vs) (\<lambda>key_offsets.
      run_bind (impl_tuples (import_trace ops) dm relation) (\<lambda>(tuples, shutdown).
      run_bind (coll_map_run (transform_tuple function_expr constants key_offsets) tuples) (\<lambda>transformed.
        Inr (collection_of variables transformed, merge_with shutdown_handle shutdown)))))"

section \<open>Join\<close>

text \<open>The index of one side of an attribute join, keyed by the target variable, with the other variable.\<close>

definition attribute_arranged ::
  "'t dataflow_ops \<Rightarrow> ('t, 'r, 'pr) dom \<Rightarrow> var \<Rightarrow> aid attribute_binding \<Rightarrow>
   ((df_value \<times> df_value, 't nested) collection \<times> var \<times> button) run" where
  "attribute_arranged ops dm target b =
     (let (e, v) = ab_variables b; a = source_attribute b in
      if target = e then
        run_bind (expect ''forward propose trace does not exist'' (forward_propose_of a dm))
          (\<lambda>tr. Inr (enter (import_trace ops tr), v, Propose a))
      else if target = v then
        run_bind (expect ''reverse propose trace does not exist'' (reverse_propose_of a dm))
          (\<lambda>tr. Inr (enter (import_trace ops tr), e, ReversePropose a))
      else Inl ''Unbound target variable in Attribute<->Attribute join.'')"

definition attribute_attribute ::
  "'t dataflow_ops \<Rightarrow> ('t, 'r, 'pr) dom \<Rightarrow> var \<Rightarrow> aid attribute_binding \<Rightarrow> aid attribute_binding \<Rightarrow>
   't relation run" where
  "attribute_attribute ops dm target left right =
     run_bind (attribute_arranged ops dm target left) (\<lambda>(left_arranged, left_var, shutdown_left).
     run_bind (attribute_arranged ops dm target right) (\<lambda>(right_arranged, right_var, shutdown_right).
       Inr (collection_of [target, left_var, right_var]
              (coll_map (\<lambda>(key, v1, v2). [key, v1, v2]) (join_values ops left_arranged right_arranged)),
            add_button (from_button shutdown_left) shutdown_right)))"

definition collection_collection ::
  "'t dataflow_ops \<Rightarrow> var list \<Rightarrow> 't collection_relation \<Rightarrow> 't collection_relation \<Rightarrow> 't relation run" where
  "collection_collection ops targets left right =
     (let variables = targets @ filter (\<lambda>x. x \<notin> set targets) (rel_variables left) @
                        filter (\<lambda>x. x \<notin> set targets) (rel_variables right) in
      run_bind (collection_by_variables left targets) (\<lambda>(left_arranged, shutdown1).
      run_bind (collection_by_variables right targets) (\<lambda>(right_arranged, shutdown2).
        Inr (collection_of variables
               (coll_map (\<lambda>(key, v1, v2). key @ v1 @ v2) (join_pairs ops left_arranged right_arranged)),
             merge_with (merge_with handle_empty shutdown1) shutdown2))))"

definition collection_attribute ::
  "'t dataflow_ops \<Rightarrow> ('t, 'r, 'pr) dom \<Rightarrow> var list \<Rightarrow> 't collection_relation \<Rightarrow> aid attribute_binding \<Rightarrow>
   't relation run" where
  "collection_attribute ops dm targets left right =
     (case forward_propose_of (source_attribute right) dm of
        None \<Rightarrow> Inl ''attribute does not exist''
      | Some propose_trace \<Rightarrow>
          (let tuples = coll_map (\<lambda>(e, v). [e, v]) (enter (import_trace ops propose_trace));
               right_collected = \<lparr> rel_variables = [fst (ab_variables right), snd (ab_variables right)],
                 rel_tuples = tuples \<rparr> in
           run_bind (collection_collection ops targets left right_collected)
             (\<lambda>(implemented, shutdown_handle).
                Inr (implemented, add_button shutdown_handle (Propose (source_attribute right))))))"

fun join_relations ::
  "'t dataflow_ops \<Rightarrow> ('t, 'r, 'pr) dom \<Rightarrow> var list \<Rightarrow> 't implemented \<Rightarrow> 't implemented \<Rightarrow> 't relation run" where
  "join_relations ops dm vs (ImplAttribute left) (ImplAttribute right) =
     (case vs of
        [target] \<Rightarrow> attribute_attribute ops dm target left right
      | [_, _] \<Rightarrow> Inl ''not implemented''
      | _ \<Rightarrow> Inl ''Attribute<->Attribute joins can't target more than two variables.'')"
| "join_relations ops dm vs (ImplAttribute left) (ImplCollection right) =
     collection_attribute ops dm vs right left"
| "join_relations ops dm vs (ImplCollection left) (ImplAttribute right) =
     collection_attribute ops dm vs left right"
| "join_relations ops dm vs (ImplCollection left) (ImplCollection right) =
     collection_collection ops vs left right"

text \<open>The assertion on the join variables precedes the implementation of the children.\<close>

definition join_implement ::
  "'t dataflow_ops \<Rightarrow> ('t, 'r, 'pr) dom \<Rightarrow> var list \<Rightarrow> 't relation run \<Rightarrow> 't relation run \<Rightarrow> 't relation run" where
  "join_implement ops dm vs l r =
     (if vs = [] then Inl ''assertion failed''
      else run_bind l (\<lambda>(left, shutdown_left). run_bind r (\<lambda>(right, shutdown_right).
        run_bind (join_relations ops dm vs left right) (\<lambda>(implemented, shutdown_handle).
          Inr (implemented, merge_with (merge_with shutdown_handle shutdown_left) shutdown_right)))))"

section \<open>Data patterns\<close>

definition match_a_implement :: "var \<Rightarrow> aid \<Rightarrow> var \<Rightarrow> 't relation" where
  "match_a_implement e a v = (ImplAttribute (AttributeBinding (e, v) a), handle_empty)"

definition match_ea_implement ::
  "'t dataflow_ops \<Rightarrow> ('t, 'r, 'pr) dom \<Rightarrow> eid \<Rightarrow> aid \<Rightarrow> var \<Rightarrow> 't relation run" where
  "match_ea_implement ops dm match_e a sym1 =
     (case forward_propose_of a dm of
        None \<Rightarrow> Inl ''attribute does not exist''
      | Some propose_trace \<Rightarrow>
          Inr (collection_of [sym1] (coll_map (\<lambda>(e, v). [v])
                 (coll_filter (\<lambda>(e, v). e = Eid match_e) (enter (import_trace ops propose_trace)))),
               from_button (Propose a)))"

definition match_av_implement ::
  "'t dataflow_ops \<Rightarrow> ('t, 'r, 'pr) dom \<Rightarrow> var \<Rightarrow> aid \<Rightarrow> df_value \<Rightarrow> 't relation run" where
  "match_av_implement ops dm sym1 a match_v =
     (case forward_propose_of a dm of
        None \<Rightarrow> Inl ''attribute does not exist''
      | Some propose_trace \<Rightarrow>
          Inr (collection_of [sym1] (coll_map (\<lambda>(e, v). [e])
                 (coll_filter (\<lambda>(e, v). v = match_v) (enter (import_trace ops propose_trace)))),
               from_button (Propose a)))"

type_synonym 't local_arrangements = "(aid, 't tuples) hash_map"

definition name_expr_implement ::
  "'t local_arrangements \<Rightarrow> var list \<Rightarrow> aid \<Rightarrow> 't relation run" where
  "name_expr_implement locals syms name =
     (case map_of locals name of
        None \<Rightarrow> Inl ''not in relation map''
      | Some named \<Rightarrow> Inr (collection_of syms named, handle_empty))"

end
