(* ===== verification/Plan_Semantics.thy ===== *)
theory Plan_Semantics
  imports Plan_Nodes
begin

text \<open>
  What the nodes of a plan compute. A valuation assigns a value to every variable; a relation denotes a
  function from times and valuations to multiplicities, and each node of a plan combines the functions of its
  children the way first-order logic does: a join multiplies, a projection sums over the hidden variables,
  an antijoin excludes.
\<close>

type_synonym valuation = "var \<Rightarrow> df_value"
type_synonym 't meaning = "'t nested \<Rightarrow> valuation \<Rightarrow> int"

definition denotes ::
  "'t lattice_ops \<Rightarrow> 't import \<Rightarrow> ('t, 'r, 'pr) dom \<Rightarrow> 't implemented \<Rightarrow> 't meaning \<Rightarrow> bool" where
  "denotes L imp dm rel m \<longleftrightarrow> impl_ok imp dm rel \<and>
     (\<forall>t \<sigma>. total_at (nested_ops L) (impl_rows imp dm rel) (map \<sigma> (impl_variables rel)) t = m t \<sigma>)"

text \<open>Valuations of a set of variables, and the sum over those that agree on the projected ones.\<close>

definition valuations :: "var set \<Rightarrow> valuation set" where
  "valuations V = {\<rho>. \<forall>x. x \<notin> V \<longrightarrow> \<rho> x = undefined}"

definition project_sum :: "var set \<Rightarrow> var list \<Rightarrow> (valuation \<Rightarrow> int) \<Rightarrow> valuation \<Rightarrow> int" where
  "project_sum V vs m \<sigma> = (\<Sum>\<rho> \<in> {\<rho> \<in> valuations V. (\<forall>x \<in> set vs. \<rho> x = \<sigma> x) \<and> m \<rho> \<noteq> 0}. m \<rho>)"

definition restrict_to :: "var list \<Rightarrow> tuple \<Rightarrow> valuation" where
  "restrict_to vars tup x = (if x \<in> set vars then value_of vars tup x else undefined)"

lemma restrict_to_valuations: "restrict_to vars tup \<in> valuations (set vars)"
  by (simp add: valuations_def restrict_to_def)

lemma map_restrict_to:
  "distinct vars \<Longrightarrow> length tup = length vars \<Longrightarrow> map (restrict_to vars tup) vars = tup"
  using value_of_self[of vars tup] by (simp add: restrict_to_def cong: map_cong)

lemma value_of_map: "x \<in> set vars \<Longrightarrow> value_of vars (map \<sigma> vars) x = \<sigma> x"
  using vec_binds_value[of x vars "map \<sigma> vars"] by auto

lemma restrict_to_map: "\<rho> \<in> valuations (set vars) \<Longrightarrow> restrict_to vars (map \<rho> vars) = \<rho>"
  by (rule ext) (auto simp: restrict_to_def value_of_map valuations_def)

lemma wf_tuples_length: "wf_tuples vars c \<Longrightarrow> tup \<in> fst ` set c \<Longrightarrow> length tup = length vars"
  by (auto simp: wf_tuples_def list_all_iff)

lemma wf_tuples_records: "wf_tuples vars c \<longleftrightarrow> (\<forall>tup \<in> fst ` set c. length tup = length vars)"
  by (auto simp: wf_tuples_def list_all_iff split: prod.splits)

section \<open>Projection\<close>

lemma total_projected:
  assumes wf: "wf_tuples vars c" and dist: "distinct vars" and sub: "set vs \<subseteq> set vars"
  shows "total_at L (coll_map (\<lambda>tup. map (value_of vars tup) vs) c) (map \<sigma> vs) t =
    project_sum (set vars) vs (\<lambda>\<rho>. total_at L c (map \<rho> vars) t) \<sigma>"
proof -
  let ?A = "fst ` set c" and ?m = "\<lambda>\<rho>. total_at L c (map \<rho> vars) t"
  let ?S = "{tup \<in> ?A. map (value_of vars tup) vs = map \<sigma> vs}"
  have "total_at L (coll_map (\<lambda>tup. map (value_of vars tup) vs) c) (map \<sigma> vs) t = (\<Sum>tup \<in> ?S. total_at L c tup t)"
    by (rule total_map) simp_all
  also have "\<dots> = (\<Sum>tup \<in> {tup \<in> ?S. total_at L c tup t \<noteq> 0}. total_at L c tup t)"
    by (rule sum.mono_neutral_right) auto
  also have "\<dots> = project_sum (set vars) vs ?m \<sigma>"
    unfolding project_sum_def
  proof (rule sum.reindex_bij_witness[where i = "\<lambda>\<rho>. map \<rho> vars" and j = "restrict_to vars"])
    fix tup assume "tup \<in> {tup \<in> ?S. total_at L c tup t \<noteq> 0}"
    then have tup: "length tup = length vars" "map (value_of vars tup) vs = map \<sigma> vs" "total_at L c tup t \<noteq> 0"
      using wf_tuples_length[OF wf] by auto
    show self: "map (restrict_to vars tup) vars = tup" by (rule map_restrict_to[OF dist tup(1)])
    from tup(2) have "\<forall>x \<in> set vs. restrict_to vars tup x = \<sigma> x" using sub by (auto simp: restrict_to_def)
    then show "restrict_to vars tup \<in> {\<rho> \<in> valuations (set vars). (\<forall>x \<in> set vs. \<rho> x = \<sigma> x) \<and> ?m \<rho> \<noteq> 0}"
      using restrict_to_valuations tup(3) self by simp
    show "total_at L c (map (restrict_to vars tup) vars) t = total_at L c tup t" by (simp add: self)
  next
    fix \<rho> assume \<rho>: "\<rho> \<in> {\<rho> \<in> valuations (set vars). (\<forall>x \<in> set vs. \<rho> x = \<sigma> x) \<and> ?m \<rho> \<noteq> 0}"
    then show "restrict_to vars (map \<rho> vars) = \<rho>" by (simp add: restrict_to_map)
    have "map \<rho> vars \<in> ?A" using \<rho> total_absent[of "map \<rho> vars" c L t] by auto
    moreover have "map (value_of vars (map \<rho> vars)) vs = map \<sigma> vs" using \<rho> sub by (auto simp: value_of_map subset_iff)
    ultimately show "map \<rho> vars \<in> {tup \<in> ?S. total_at L c tup t \<noteq> 0}" using \<rho> by simp
  qed
  finally show ?thesis .
qed

text \<open>A relation projected to its own variables in any order denotes the same.\<close>

lemma project_sum_all:
  assumes "set vs = V" and "\<And>\<rho>. (\<forall>x \<in> V. \<rho> x = \<sigma> x) \<Longrightarrow> m \<rho> = m \<sigma>"
  shows "project_sum V vs m \<sigma> = m \<sigma>"
proof -
  let ?\<rho> = "\<lambda>x. if x \<in> V then \<sigma> x else undefined"
  have eq: "\<rho> \<in> valuations V \<and> (\<forall>x \<in> set vs. \<rho> x = \<sigma> x) \<longleftrightarrow> \<rho> = ?\<rho>" for \<rho>
  proof
    assume "\<rho> \<in> valuations V \<and> (\<forall>x \<in> set vs. \<rho> x = \<sigma> x)"
    then show "\<rho> = ?\<rho>" using assms(1) by (intro ext) (simp add: valuations_def)
  qed (use assms(1) in \<open>simp add: valuations_def\<close>)
  have "{\<rho> \<in> valuations V. (\<forall>x \<in> set vs. \<rho> x = \<sigma> x) \<and> m \<rho> \<noteq> 0} = {\<rho>. \<rho> = ?\<rho> \<and> m \<rho> \<noteq> 0}"
    by (intro Collect_cong) (simp only: conj_assoc[symmetric] eq)
  also have "\<dots> = (if m ?\<rho> \<noteq> 0 then {?\<rho>} else {})" by auto
  finally have "project_sum V vs m \<sigma> = m ?\<rho>" by (simp add: project_sum_def)
  also have "\<dots> = m \<sigma>" by (rule assms(2)) simp
  finally show ?thesis .
qed

lemma denotes_ok: "denotes L imp dm rel m \<Longrightarrow> impl_ok imp dm rel"
  by (simp add: denotes_def)

lemma denotes_wf:
  "denotes L imp dm rel m \<Longrightarrow> wf_tuples (impl_variables rel) (impl_rows imp dm rel) \<and> distinct (impl_variables rel)"
  by (simp add: denotes_def impl_ok_def)

lemma denotes_total:
  "denotes L imp dm rel m \<Longrightarrow>
     total_at (nested_ops L) (impl_rows imp dm rel) (map \<sigma> (impl_variables rel)) t = m t \<sigma>"
  unfolding denotes_def by blast

lemma denotes_local:
  "denotes L imp dm rel m \<Longrightarrow> (\<forall>x \<in> set (impl_variables rel). \<rho> x = \<sigma> x) \<Longrightarrow> m t \<rho> = m t \<sigma>"
  unfolding denotes_def by (metis map_cong)

lemma denotes_collection:
  "denotes L imp dm (collection_of vs c) m \<longleftrightarrow>
     distinct vs \<and> wf_tuples vs c \<and> (\<forall>t \<sigma>. total_at (nested_ops L) c (map \<sigma> vs) t = m t \<sigma>)"
  by (auto simp: denotes_def impl_ok_def)

lemma wf_tuples_projected: "wf_tuples vs (coll_map (\<lambda>tup. map (f tup) vs) c)"
  by (auto simp: wf_tuples_records)

lemma projected_denotes:
  assumes "denotes L imp dm rel m" and "impl_supports rel vs" and "set vs \<subseteq> set (impl_variables rel)"
  shows "\<exists>c h. impl_projected imp dm rel vs = Inr (c, h) \<and> wf_tuples vs c \<and>
    (\<forall>t \<sigma>. total_at (nested_ops L) c (map \<sigma> vs) t = project_sum (set (impl_variables rel)) vs (m t) \<sigma>)"
proof -
  obtain h where h: "impl_projected imp dm rel vs =
      Inr (coll_map (\<lambda>tup. map (value_of (impl_variables rel) tup) vs) (impl_rows imp dm rel), h)"
    using impl.projected_law[OF denotes_ok[OF assms(1)] assms(2,3)] by blast
  note wf = denotes_wf[OF assms(1)]
  show ?thesis
    using h wf_tuples_projected total_projected[OF conjunct1[OF wf] conjunct2[OF wf] assms(3), of "nested_ops L"]
      denotes_total[OF assms(1)] by auto
qed

lemma project_implement_denotes:
  assumes "denotes L (import_trace ops) dm rel m" and "impl_supports rel vs"
    and "set vs \<subseteq> set (impl_variables rel)" and "distinct vs"
  shows "\<exists>rel' h'. project_implement ops dm vs (rel, h) = Inr (rel', h') \<and> impl_variables rel' = vs \<and>
    denotes L (import_trace ops) dm rel' (\<lambda>t. project_sum (set (impl_variables rel)) vs (m t))"
  using projected_denotes[OF assms(1-3)] assms(4)
  by (auto simp: project_implement_def denotes_collection)

lemma impl_supports_self: "impl_supports rel (impl_variables rel)"
  by (cases rel) (auto simp: attribute_supports_def split: prod.splits)

lemma projected_self_denotes:
  assumes "denotes L imp dm rel m"
  shows "\<exists>c h. impl_projected imp dm rel (impl_variables rel) = Inr (c, h) \<and> wf_tuples (impl_variables rel) c \<and>
    (\<forall>t \<sigma>. total_at (nested_ops L) c (map \<sigma> (impl_variables rel)) t = m t \<sigma>)"
proof -
  have "project_sum (set (impl_variables rel)) (impl_variables rel) (m t) \<sigma> = m t \<sigma>" for t \<sigma>
    by (rule project_sum_all[OF refl]) (rule denotes_local[OF assms])
  with projected_denotes[OF assms impl_supports_self] show ?thesis by simp
qed

lemma wf_tuples_negate [simp]: "wf_tuples vs (coll_negate c) = wf_tuples vs c"
  by (induction c) (auto simp: wf_tuples_def coll_negate_def)

lemma negate_implement_denotes:
  assumes "denotes L (import_trace ops) dm rel m"
  shows "\<exists>rel' h'. negate_implement ops dm (rel, h) = Inr (rel', h') \<and> impl_variables rel' = impl_variables rel \<and>
    denotes L (import_trace ops) dm rel' (\<lambda>t \<sigma>. - m t \<sigma>)"
  using projected_self_denotes[OF assms] denotes_wf[OF assms]
  by (auto simp: negate_implement_def denotes_collection)

section \<open>Laws of the operators\<close>

definition ops_laws :: "'t lattice_ops \<Rightarrow> 't dataflow_ops \<Rightarrow> bool" where
  "ops_laws L ops \<longleftrightarrow>
     distinct_law (nested_ops L) (distinct_tuples ops) \<and> distinct_law (nested_ops L) (distinct_pairs ops) \<and>
     antijoin_law (nested_ops L) (antijoin_pairs ops) \<and> join_law (nested_ops L) (join_pairs ops) \<and>
     join_law (nested_ops L) (join_values ops) \<and> join_law (nested_ops L) (join_paths ops) \<and>
     reduce_law (nested_ops L) (reduce_pairs ops)"

lemma ops_lawsD:
  assumes "ops_laws L ops"
  shows "distinct_law (nested_ops L) (distinct_tuples ops)" "distinct_law (nested_ops L) (distinct_pairs ops)"
    "antijoin_law (nested_ops L) (antijoin_pairs ops)" "join_law (nested_ops L) (join_pairs ops)"
    "join_law (nested_ops L) (join_values ops)" "join_law (nested_ops L) (join_paths ops)"
    "reduce_law (nested_ops L) (reduce_pairs ops)"
  using assms by (simp_all add: ops_laws_def)

section \<open>Union\<close>

lemma union_streams_denotes:
  assumes "list_all2 (\<lambda>child (V, m). \<exists>rel h. child = Inr (rel, h) \<and> denotes L (import_trace ops) dm rel m \<and>
      set (impl_variables rel) = V \<and> impl_supports rel vs \<and> set vs \<subseteq> V) children ms"
  shows "\<exists>cs h'. union_streams ops dm vs children h = Inr (cs, h') \<and> wf_tuples vs (concat cs) \<and>
    (\<forall>t \<sigma>. total_at (nested_ops L) (concat cs) (map \<sigma> vs) t = (\<Sum>(V, m) \<leftarrow> ms. project_sum V vs (m t) \<sigma>))"
  using assms
proof (induction children ms arbitrary: h rule: list_all2_induct)
  case Nil
  then show ?case by (simp add: wf_tuples_def)
next
  case (Cons child children Vm ms)
  obtain V m where Vm: "Vm = (V, m)" by fastforce
  with Cons.hyps(1) obtain rel hc where child: "child = Inr (rel, hc)" and den: "denotes L (import_trace ops) dm rel m"
    and V: "set (impl_variables rel) = V" and sup: "impl_supports rel vs" "set vs \<subseteq> set (impl_variables rel)" by auto
  from projected_denotes[OF den sup] obtain c hp where
    proj: "impl_projected (import_trace ops) dm rel vs = Inr (c, hp)" "wf_tuples vs c"
      "\<And>t \<sigma>. total_at (nested_ops L) c (map \<sigma> vs) t = project_sum V vs (m t) \<sigma>"
    unfolding V by blast
  from Cons.IH[of "merge_with (merge_with h hc) hp"] obtain cs h' where
    "union_streams ops dm vs children (merge_with (merge_with h hc) hp) = Inr (cs, h')" "wf_tuples vs (concat cs)"
    "\<And>t \<sigma>. total_at (nested_ops L) (concat cs) (map \<sigma> vs) t = (\<Sum>(V, m) \<leftarrow> ms. project_sum V vs (m t) \<sigma>)"
    by blast
  with proj show ?case by (auto simp: child Vm wf_tuples_def)
qed

lemma distinct_records_wf:
  "distinct_law N op \<Longrightarrow> wf_tuples vs c \<Longrightarrow> wf_tuples vs (op c)"
  unfolding distinct_law_def wf_tuples_records by blast

lemma union_implement_denotes:
  assumes "ops_laws L ops" and "distinct vs"
    and "list_all2 (\<lambda>child (V, m). \<exists>rel h. child = Inr (rel, h) \<and> denotes L (import_trace ops) dm rel m \<and>
      set (impl_variables rel) = V \<and> impl_supports rel vs \<and> set vs \<subseteq> V) children ms"
  shows "\<exists>rel' h'. union_implement ops dm vs children = Inr (rel', h') \<and> impl_variables rel' = vs \<and>
    denotes L (import_trace ops) dm rel'
      (\<lambda>t \<sigma>. if (\<Sum>(V, m) \<leftarrow> ms. project_sum V vs (m t) \<sigma>) > 0 then 1 else 0)"
proof -
  note law = ops_lawsD(1)[OF assms(1)]
  from union_streams_denotes[OF assms(3), of handle_empty] obtain cs h' where
    "union_streams ops dm vs children handle_empty = Inr (cs, h')" "wf_tuples vs (concat cs)"
    "\<And>t \<sigma>. total_at (nested_ops L) (concat cs) (map \<sigma> vs) t = (\<Sum>(V, m) \<leftarrow> ms. project_sum V vs (m t) \<sigma>)"
    by blast
  then show ?thesis using distinct_records_wf[OF law] distinct_lawD(1)[OF law] assms(2)
    unfolding union_implement_def by (auto simp: denotes_collection)
qed

section \<open>Filter\<close>

fun filter_holds :: "binary_predicate \<Rightarrow> var list \<Rightarrow> df_value option list \<Rightarrow> valuation \<Rightarrow> bool" where
  "filter_holds predicate vs (Some c # _) \<sigma> = compare_values predicate c (\<sigma> (vs ! 0))"
| "filter_holds predicate vs (None # Some c # _) \<sigma> = compare_values predicate (\<sigma> (vs ! 0)) c"
| "filter_holds predicate vs _ \<sigma> = compare_values predicate (\<sigma> (vs ! 0)) (\<sigma> (vs ! 1))"

fun filter_wf :: "var list \<Rightarrow> df_value option list \<Rightarrow> bool" where
  "filter_wf vs (Some c # _) = (vs \<noteq> [])"
| "filter_wf vs (None # Some c # _) = (vs \<noteq> [])"
| "filter_wf vs (None # None # _) = (length vs \<ge> 2)"
| "filter_wf vs _ = False"

lemma impl_binds_variables: "impl_binds rel x = vec_binds (impl_variables rel) x"
  by (cases rel) (auto simp: two_binds_def vec_binds_def)

lemma key_offsets_of_total:
  assumes "set vs \<subseteq> set (impl_variables rel)"
  shows "key_offsets_of rel vs = Inr (map (\<lambda>x. the (vec_binds (impl_variables rel) x)) vs)"
  unfolding key_offsets_of_def
proof (rule run_map_total)
  fix x assume "x \<in> set vs"
  then have "x \<in> set (impl_variables rel)" using assms by blast
  then have "vec_binds (impl_variables rel) x \<noteq> None"
    using position_None[of "\<lambda>y. x = y"] by (auto simp: vec_binds_def)
  then show "expect ''variable not found'' (impl_binds rel x) = Inr (the (vec_binds (impl_variables rel) x))"
    by (auto simp: impl_binds_variables expect_def)
qed

lemma tuple_at_value:
  assumes "set vs \<subseteq> set vars" and "length tup = length vars" and "i < length vs"
  shows "tuple_at (map (\<lambda>x. the (vec_binds vars x)) vs) tup i = Inr (value_of vars tup (vs ! i))"
proof -
  have "vs ! i \<in> set vars" using assms(1,3) by auto
  from vec_binds_value[OF this assms(2)] show ?thesis using assms(3) by (auto simp: tuple_at_def vec_index_def)
qed

lemma filter_closure_total:
  assumes "filter_wf vs constants" and "set vs \<subseteq> set vars"
  shows "\<exists>f. filter_closure predicate constants (map (\<lambda>x. the (vec_binds vars x)) vs) = Inr f \<and>
    (\<forall>tup. length tup = length vars \<longrightarrow> f tup = Inr (filter_holds predicate vs constants (value_of vars tup)))"
  using assms(1)
proof (cases "(vs, constants)" rule: filter_wf.cases)
qed (auto simp: filter_closure_def vec_index_def tuple_at_value[OF assms(2)] simp flip: length_greater_0_conv)

lemma filter_holds_local:
  assumes "filter_wf vs constants" and "set vs \<subseteq> V" and "\<And>x. x \<in> V \<Longrightarrow> \<rho> x = \<sigma> x"
  shows "filter_holds predicate vs constants \<rho> = filter_holds predicate vs constants \<sigma>"
proof -
  have "\<rho> (vs ! i) = \<sigma> (vs ! i)" if "i < length vs" for i using assms(2,3) that nth_mem by blast
  then show ?thesis using assms(1)
    by (cases "(vs, constants)" rule: filter_wf.cases) (simp_all flip: length_greater_0_conv)
qed

lemma wf_tuples_filter: "wf_tuples vs c \<Longrightarrow> wf_tuples vs (coll_filter P c)"
  by (auto simp: wf_tuples_def coll_filter_def list_all_iff)

lemma filter_implement_denotes:
  assumes den: "denotes L (import_trace ops) dm rel m" and wf: "filter_wf vs constants"
    and sub: "set vs \<subseteq> set (impl_variables rel)"
  shows "\<exists>rel' h'. filter_implement ops dm vs predicate constants (rel, h) = Inr (rel', h') \<and>
    impl_variables rel' = impl_variables rel \<and>
    denotes L (import_trace ops) dm rel' (\<lambda>t \<sigma>. if filter_holds predicate vs constants \<sigma> then m t \<sigma> else 0)"
proof -
  let ?vars = "impl_variables rel"
  from projected_self_denotes[OF den] obtain c hp where
    c: "impl_projected (import_trace ops) dm rel ?vars = Inr (c, hp)" "wf_tuples ?vars c"
      "\<And>t \<sigma>. total_at (nested_ops L) c (map \<sigma> ?vars) t = m t \<sigma>" by blast
  from filter_closure_total[OF wf sub, of predicate] obtain f where
    f: "filter_closure predicate constants (map (\<lambda>x. the (vec_binds ?vars x)) vs) = Inr f"
      "\<And>tup. length tup = length ?vars \<Longrightarrow> f tup = Inr (filter_holds predicate vs constants (value_of ?vars tup))"
    by blast
  let ?P = "\<lambda>tup. filter_holds predicate vs constants (value_of ?vars tup)"
  have run: "coll_filter_run f c = Inr (coll_filter ?P c)"
    using c(2) f(2) by (intro coll_filter_run_total) (auto simp: wf_tuples_def list_all_iff)
  have "?P (map \<sigma> ?vars) = filter_holds predicate vs constants \<sigma>" for \<sigma>
    by (rule filter_holds_local[OF wf sub]) (rule value_of_map)
  with c run f(1) show ?thesis
    using denotes_wf[OF den] wf_tuples_filter[OF c(2)]
    by (auto simp: filter_implement_def key_offsets_of_total[OF sub] denotes_collection Let_def)
qed

section \<open>Keyed relations\<close>

abbreviation rest_of :: "var list \<Rightarrow> var list \<Rightarrow> var list" where
  "rest_of keys vars \<equiv> filter (\<lambda>x. x \<notin> set keys) vars"

definition split_tuple :: "var list \<Rightarrow> var list \<Rightarrow> tuple \<Rightarrow> tuple \<times> tuple" where
  "split_tuple vars keys tup = (map (value_of vars tup) keys, map (value_of vars tup) (rest_of keys vars))"

lemma split_tuple_map:
  "set keys \<subseteq> set vars \<Longrightarrow> split_tuple vars keys (map \<sigma> vars) = (map \<sigma> keys, map \<sigma> (rest_of keys vars))"
  by (auto simp: split_tuple_def value_of_map subset_iff)

lemma split_tuple_inj:
  assumes "distinct vars"
  shows "inj_on (split_tuple vars keys) {tup. length tup = length vars}"
proof (rule inj_onI)
  fix a b assume l: "a \<in> {tup. length tup = length vars}" "b \<in> {tup. length tup = length vars}"
    and eq: "split_tuple vars keys a = split_tuple vars keys b"
  have "value_of vars a x = value_of vars b x" if "x \<in> set vars" for x
    using eq that by (cases "x \<in> set keys") (auto simp: split_tuple_def)
  then have "map (value_of vars a) vars = map (value_of vars b) vars" by (rule map_cong[OF HOL.refl])
  then show "a = b" using value_of_self[OF assms, of a] value_of_self[OF assms, of b] l
    by (metis mem_Collect_eq)
qed

lemma total_keyed:
  assumes "wf_tuples vars c" and "distinct vars" and "set keys \<subseteq> set vars"
  shows "total_at L (coll_map (split_tuple vars keys) c) (map \<sigma> keys, map \<sigma> (rest_of keys vars)) t =
    total_at L c (map \<sigma> vars) t"
proof -
  have "inj_on (split_tuple vars keys) (insert (map \<sigma> vars) (fst ` set c))"
    by (rule inj_on_subset[OF split_tuple_inj[OF assms(2)]]) (use wf_tuples_length[OF assms(1)] in auto)
  from total_map_inj[OF this, of L t] show ?thesis by (simp add: split_tuple_map[OF assms(3)])
qed

definition wf_keyed :: "var list \<Rightarrow> var list \<Rightarrow> (tuple \<times> tuple, 't nested) collection \<Rightarrow> bool" where
  "wf_keyed keys rest c \<longleftrightarrow> fst ` set c \<subseteq> {(k, v). length k = length keys \<and> length v = length rest}"

lemma by_variables_denotes:
  assumes "denotes L imp dm rel m" and "impl_supports rel keys" and "set keys \<subseteq> set (impl_variables rel)"
    and "distinct keys"
  shows "\<exists>c h. impl_by_variables imp dm rel keys = Inr (c, h) \<and> wf_keyed keys (rest_of keys (impl_variables rel)) c \<and>
    (\<forall>t \<sigma>. total_at (nested_ops L) c (map \<sigma> keys, map \<sigma> (rest_of keys (impl_variables rel))) t = m t \<sigma>)"
proof -
  obtain h where "impl_by_variables imp dm rel keys =
      Inr (coll_map (split_tuple (impl_variables rel) keys) (impl_rows imp dm rel), h)"
    using impl.by_variables_law[OF denotes_ok[OF assms(1)] assms(2-4)] unfolding split_tuple_def by blast
  moreover have "wf_keyed keys (rest_of keys (impl_variables rel))
      (coll_map (split_tuple (impl_variables rel) keys) (impl_rows imp dm rel))"
    by (auto simp: wf_keyed_def split_tuple_def)
  ultimately show ?thesis
    using total_keyed[OF _ _ assms(3)] denotes_wf[OF assms(1)] denotes_total[OF assms(1)] by metis
qed

section \<open>Antijoin\<close>

lemma append_pair_inj: "inj_on (\<lambda>(k, v). k @ v) {(k, v). length k = n}"
  by (auto simp: inj_on_def)

lemma append_triple_inj: "inj_on (\<lambda>(k, v, w). k @ v @ w) {(k, v, w). length k = n \<and> length v = n'}"
  by (auto simp: inj_on_def)

lemma antijoin_implement_denotes:
  assumes laws: "ops_laws L ops" and left: "denotes L (import_trace ops) dm left ml"
    and right: "denotes L (import_trace ops) dm right mr"
    and sup: "impl_supports left vs" "impl_supports right vs"
    and sub: "set vs \<subseteq> set (impl_variables left)" "set vs \<subseteq> set (impl_variables right)" and dist: "distinct vs"
  shows "\<exists>rel' h'. antijoin_implement ops dm vs (left, hl) (right, hr) = Inr (rel', h') \<and>
    impl_variables rel' = vs @ rest_of vs (impl_variables left) \<and>
    denotes L (import_trace ops) dm rel' (\<lambda>t \<sigma>.
      if ml t \<sigma> > 0 \<and> \<not> project_sum (set (impl_variables right)) vs (mr t) \<sigma> > 0 then 1 else 0)"
proof -
  let ?N = "nested_ops L" and ?rest = "rest_of vs (impl_variables left)"
  from projected_denotes[OF right sup(2) sub(2)] obtain rp h1 where
    rp: "impl_projected (import_trace ops) dm right vs = Inr (rp, h1)"
      "\<And>t \<sigma>. total_at ?N rp (map \<sigma> vs) t = project_sum (set (impl_variables right)) vs (mr t) \<sigma>" by blast
  from by_variables_denotes[OF left sup(1) sub(1) dist] obtain la h2 where
    la: "impl_by_variables (import_trace ops) dm left vs = Inr (la, h2)" "wf_keyed vs ?rest la"
      "\<And>t \<sigma>. total_at ?N la (map \<sigma> vs, map \<sigma> ?rest) t = ml t \<sigma>" by blast
  define out where "out = antijoin_pairs ops (distinct_pairs ops la) (distinct_tuples ops rp)"
  note law = ops_lawsD[OF laws]
  have "fst ` set out \<subseteq> fst ` set (distinct_pairs ops la)" "fst ` set (distinct_pairs ops la) \<subseteq> fst ` set la"
    unfolding out_def by (rule antijoin_lawD(2)[OF law(3)], rule distinct_lawD(2)[OF law(2)])
  then have rec: "fst ` set out \<subseteq> {(k, v). length k = length vs \<and> length v = length ?rest}"
    using la(2) unfolding wf_keyed_def by blast
  have tot: "total_at ?N out (map \<sigma> vs, map \<sigma> ?rest) t =
      (if ml t \<sigma> > 0 \<and> \<not> project_sum (set (impl_variables right)) vs (mr t) \<sigma> > 0 then 1 else 0)" for t \<sigma>
    by (simp add: out_def antijoin_lawD(1)[OF law(3)] distinct_lawD(1)[OF law(1)] distinct_lawD(1)[OF law(2)] la(3) rp(2))
  have "inj_on (\<lambda>(k, v). k @ v) (insert (map \<sigma> vs, map \<sigma> ?rest) (fst ` set out))" for \<sigma>
    by (rule inj_on_subset[OF append_pair_inj[of "length vs"]]) (use rec in auto)
  from total_map_inj[OF this] tot have "total_at ?N (coll_map (\<lambda>(k, v). k @ v) out) (map \<sigma> (vs @ ?rest)) t =
      (if ml t \<sigma> > 0 \<and> \<not> project_sum (set (impl_variables right)) vs (mr t) \<sigma> > 0 then 1 else 0)" for t \<sigma>
    by simp
  moreover have "wf_tuples (vs @ ?rest) (coll_map (\<lambda>(k, v). k @ v) out)"
    using rec by (auto simp: wf_tuples_records)
  moreover have "distinct (vs @ ?rest)" using dist denotes_wf[OF left] by auto
  ultimately show ?thesis
    using rp(1) la(1) by (simp add: antijoin_implement_def denotes_collection Let_def flip: out_def)
qed

section \<open>Join\<close>

lemma collection_collection_denotes:
  assumes laws: "ops_laws L ops" and left: "denotes L imp dm (ImplCollection left) ml"
    and right: "denotes L imp dm (ImplCollection right) mr"
    and sub: "set vs \<subseteq> set (rel_variables left)" "set vs \<subseteq> set (rel_variables right)" and dist: "distinct vs"
    and shared: "set (rel_variables left) \<inter> set (rel_variables right) \<subseteq> set vs"
  shows "\<exists>rel' h'. collection_collection ops vs left right = Inr (rel', h') \<and>
    impl_variables rel' = vs @ rest_of vs (rel_variables left) @ rest_of vs (rel_variables right) \<and>
    denotes L imp dm rel' (\<lambda>t \<sigma>. ml t \<sigma> * mr t \<sigma>)"
proof -
  let ?N = "nested_ops L" and ?lr = "rest_of vs (rel_variables left)" and ?rr = "rest_of vs (rel_variables right)"
  from by_variables_denotes[OF left _ _ dist] sub(1) obtain la h1 where
    la: "collection_by_variables left vs = Inr (la, h1)" "wf_keyed vs ?lr la"
      "\<And>t \<sigma>. total_at ?N la (map \<sigma> vs, map \<sigma> ?lr) t = ml t \<sigma>" by auto
  from by_variables_denotes[OF right _ _ dist] sub(2) obtain ra h2 where
    ra: "collection_by_variables right vs = Inr (ra, h2)" "wf_keyed vs ?rr ra"
      "\<And>t \<sigma>. total_at ?N ra (map \<sigma> vs, map \<sigma> ?rr) t = mr t \<sigma>" by auto
  note law = ops_lawsD(4)[OF laws]
  define out where "out = join_pairs ops la ra"
  have rec: "fst ` set out \<subseteq> {(k, v, w). length k = length vs \<and> length v = length ?lr \<and> length w = length ?rr}"
    unfolding out_def using join_lawD(2)[OF law, of la ra] la(2) ra(2) unfolding wf_keyed_def by blast
  have "inj_on (\<lambda>(k, v, w). k @ v @ w) (insert (map \<sigma> vs, map \<sigma> ?lr, map \<sigma> ?rr) (fst ` set out))" for \<sigma>
    by (rule inj_on_subset[OF append_triple_inj[of "length vs" "length ?lr"]]) (use rec in auto)
  from total_map_inj[OF this] have
    "total_at ?N (coll_map (\<lambda>(k, v, w). k @ v @ w) out) (map \<sigma> (vs @ ?lr @ ?rr)) t = ml t \<sigma> * mr t \<sigma>" for t \<sigma>
    by (simp add: out_def join_lawD(1)[OF law] la(3) ra(3))
  moreover have "wf_tuples (vs @ ?lr @ ?rr) (coll_map (\<lambda>(k, v, w). k @ v @ w) out)"
    using rec by (auto simp: wf_tuples_records)
  moreover have "distinct (vs @ ?lr @ ?rr)"
    using dist denotes_wf[OF left] denotes_wf[OF right] shared by auto
  ultimately show ?thesis
    using la(1) ra(1) by (simp add: collection_collection_def denotes_collection Let_def flip: out_def)
qed

lemma attribute_as_collection:
  assumes "denotes L imp dm (ImplAttribute b) m"
  shows "denotes L imp dm (collection_of (impl_variables (ImplAttribute b)) (impl_rows imp dm (ImplAttribute b))) m"
  using denotes_wf[OF assms] denotes_total[OF assms] by (simp add: denotes_collection)

lemma collection_attribute_denotes:
  assumes laws: "ops_laws L ops" and left: "denotes L (import_trace ops) dm (ImplCollection left) ml"
    and right: "denotes L (import_trace ops) dm (ImplAttribute b) mr"
    and sub: "set vs \<subseteq> set (rel_variables left)" "set vs \<subseteq> set (impl_variables (ImplAttribute b))"
    and dist: "distinct vs"
    and shared: "set (rel_variables left) \<inter> set (impl_variables (ImplAttribute b)) \<subseteq> set vs"
  shows "\<exists>rel' h'. collection_attribute ops dm vs left b = Inr (rel', h') \<and>
    set (impl_variables rel') = set (rel_variables left) \<union> set (impl_variables (ImplAttribute b)) \<and>
    denotes L (import_trace ops) dm rel' (\<lambda>t \<sigma>. ml t \<sigma> * mr t \<sigma>)"
proof -
  from right obtain tr where tr: "forward_propose_of (source_attribute b) dm = Some tr"
    by (auto simp: denotes_def impl_ok_def)
  from collection_collection_denotes[OF laws left attribute_as_collection[OF right] sub(1) _ dist] sub(2) shared
  obtain rel' h' where "collection_collection ops vs left
      \<lparr> rel_variables = impl_variables (ImplAttribute b), rel_tuples = impl_rows (import_trace ops) dm (ImplAttribute b) \<rparr> =
      Inr (rel', h')"
    "impl_variables rel' = vs @ rest_of vs (rel_variables left) @ rest_of vs (impl_variables (ImplAttribute b))"
    "denotes L (import_trace ops) dm rel' (\<lambda>t \<sigma>. ml t \<sigma> * mr t \<sigma>)" by auto
  then show ?thesis using tr sub
    by (auto simp: collection_attribute_def Let_def)
qed

lemma total_enter [simp]: "total_at (nested_ops L) (enter c) x (t, r) = total_at L c x t"
  by (induction c) (auto simp: enter_def nested_ops_def)

text \<open>The multiplicity of a pair of an attribute, and the agreement of its reverse index.\<close>

definition attribute_at :: "'t lattice_ops \<Rightarrow> 't import \<Rightarrow> ('t, 'r, 'pr) dom \<Rightarrow> aid \<Rightarrow> df_value \<times> df_value \<Rightarrow> 't \<Rightarrow> int" where
  "attribute_at L imp dm a ev t =
     (case forward_propose_of a dm of None \<Rightarrow> 0 | Some tr \<Rightarrow> total_at L (imp tr) ev t)"

definition reverse_agrees :: "'t lattice_ops \<Rightarrow> 't import \<Rightarrow> ('t, 'r, 'pr) dom \<Rightarrow> aid \<Rightarrow> bool" where
  "reverse_agrees L imp dm a \<longleftrightarrow>
     (\<exists>tr. reverse_propose_of a dm = Some tr \<and>
        (\<forall>e v t. total_at L (imp tr) (v, e) t = attribute_at L imp dm a (e, v) t))"

lemma match_a_denotes:
  assumes "e \<noteq> v" and "forward_propose_of a dm \<noteq> None"
  shows "denotes L imp dm (ImplAttribute (AttributeBinding (e, v) a))
    (\<lambda>t \<sigma>. attribute_at L imp dm a (\<sigma> e, \<sigma> v) (fst t))"
proof -
  obtain tr where tr: "forward_propose_of a dm = Some tr" using assms(2) by blast
  have inj: "inj (\<lambda>(x, y). [x, y :: df_value])" by (auto simp: inj_def)
  have "total_at (nested_ops L) (coll_map (\<lambda>(e, v). [e, v]) (enter (imp tr))) [x, y] (t, r) = total_at L (imp tr) (x, y) t"
    for x y t r
    using total_map_inj[OF inj_on_subset[OF inj subset_UNIV], of "nested_ops L" "enter (imp tr)" "(x, y)" "(t, r)"]
    by simp
  then show ?thesis using assms(1) tr
    by (auto simp: denotes_def impl_ok_def attribute_at_def wf_tuples_records)
qed

lemma attribute_arranged_denotes:
  assumes den: "denotes L (import_trace ops) dm (ImplAttribute b) m" and "target \<in> set (impl_variables (ImplAttribute b))"
    and rev: "target = snd (ab_variables b) \<Longrightarrow> reverse_agrees L (import_trace ops) dm (source_attribute b)"
  shows "\<exists>c w button. attribute_arranged ops dm target b = Inr (c, w, button) \<and>
    set (impl_variables (ImplAttribute b)) = {target, w} \<and> w \<noteq> target \<and>
    (\<forall>t \<sigma>. total_at (nested_ops L) c (\<sigma> target, \<sigma> w) t = m t \<sigma>)"
proof -
  obtain e v a where b: "b = AttributeBinding (e, v) a" by (metis attribute_binding.exhaust prod.exhaust)
  from den have ok: "e \<noteq> v" "forward_propose_of a dm \<noteq> None" by (auto simp: denotes_def impl_ok_def b)
  from denotes_total[OF den] denotes_total[OF match_a_denotes[OF ok]]
  have m: "m t \<sigma> = attribute_at L (import_trace ops) dm a (\<sigma> e, \<sigma> v) (fst t)" for t \<sigma>
    unfolding b by metis
  show ?thesis
  proof (cases "target = e")
    case True
    with ok show ?thesis
      by (auto simp: b attribute_arranged_def m attribute_at_def expect_def)
  next
    case False
    with assms(2) have v: "target = v" by (auto simp: b)
    with rev obtain tr where "reverse_propose_of a dm = Some tr"
      "\<And>e v t. total_at L (import_trace ops tr) (v, e) t = attribute_at L (import_trace ops) dm a (e, v) t"
      by (auto simp: b reverse_agrees_def)
    with v False show ?thesis by (auto simp: b attribute_arranged_def m expect_def)
  qed
qed

lemma attribute_attribute_denotes:
  assumes laws: "ops_laws L ops" and left: "denotes L (import_trace ops) dm (ImplAttribute bl) ml"
    and right: "denotes L (import_trace ops) dm (ImplAttribute br) mr"
    and target: "target \<in> set (impl_variables (ImplAttribute bl))" "target \<in> set (impl_variables (ImplAttribute br))"
    and rev: "target = snd (ab_variables bl) \<Longrightarrow> reverse_agrees L (import_trace ops) dm (source_attribute bl)"
      "target = snd (ab_variables br) \<Longrightarrow> reverse_agrees L (import_trace ops) dm (source_attribute br)"
    and shared: "set (impl_variables (ImplAttribute bl)) \<inter> set (impl_variables (ImplAttribute br)) \<subseteq> {target}"
  shows "\<exists>rel' h'. attribute_attribute ops dm target bl br = Inr (rel', h') \<and>
    set (impl_variables rel') = set (impl_variables (ImplAttribute bl)) \<union> set (impl_variables (ImplAttribute br)) \<and>
    denotes L (import_trace ops) dm rel' (\<lambda>t \<sigma>. ml t \<sigma> * mr t \<sigma>)"
proof -
  from attribute_arranged_denotes[OF left target(1) rev(1)] obtain lc lw lb where
    l: "attribute_arranged ops dm target bl = Inr (lc, lw, lb)" "set (impl_variables (ImplAttribute bl)) = {target, lw}"
      "lw \<noteq> target" "\<And>t \<sigma>. total_at (nested_ops L) lc (\<sigma> target, \<sigma> lw) t = ml t \<sigma>" by blast
  from attribute_arranged_denotes[OF right target(2) rev(2)] obtain rc rw rb where
    r: "attribute_arranged ops dm target br = Inr (rc, rw, rb)" "set (impl_variables (ImplAttribute br)) = {target, rw}"
      "rw \<noteq> target" "\<And>t \<sigma>. total_at (nested_ops L) rc (\<sigma> target, \<sigma> rw) t = mr t \<sigma>" by blast
  note law = ops_lawsD(5)[OF laws]
  let ?f = "\<lambda>(k, v1, v2). [k, v1, v2 :: df_value]"
  have "inj ?f" by (auto simp: inj_def)
  then have "total_at (nested_ops L) (coll_map ?f (join_values ops lc rc)) (?f (x, y, z)) t =
      total_at (nested_ops L) (join_values ops lc rc) (x, y, z) t" for x y z t
    using inj_on_subset by (intro total_map_inj) blast
  then have "total_at (nested_ops L) (coll_map ?f (join_values ops lc rc)) (map \<sigma> [target, lw, rw]) t = ml t \<sigma> * mr t \<sigma>" for t \<sigma>
    using l(4) r(4) by (simp add: join_lawD(1)[OF law])
  moreover have "wf_tuples [target, lw, rw] (coll_map ?f (join_values ops lc rc))" by (auto simp: wf_tuples_records)
  moreover have "distinct [target, lw, rw]" using l(2,3) r(2,3) shared by auto
  ultimately show ?thesis using l(1,2) r(1,2) by (auto simp: attribute_attribute_def denotes_collection)
qed

fun joinable ::
  "'t lattice_ops \<Rightarrow> 't import \<Rightarrow> ('t, 'r, 'pr) dom \<Rightarrow> var list \<Rightarrow> 't implemented \<Rightarrow> 't implemented \<Rightarrow> bool" where
  "joinable L imp dm vs (ImplAttribute bl) (ImplAttribute br) \<longleftrightarrow>
     length vs = 1 \<and>
     (vs ! 0 = snd (ab_variables bl) \<longrightarrow> reverse_agrees L imp dm (source_attribute bl)) \<and>
     (vs ! 0 = snd (ab_variables br) \<longrightarrow> reverse_agrees L imp dm (source_attribute br))"
| "joinable L imp dm vs _ _ \<longleftrightarrow> True"

lemma join_relations_denotes:
  assumes laws: "ops_laws L ops" and left: "denotes L (import_trace ops) dm left ml"
    and right: "denotes L (import_trace ops) dm right mr"
    and sub: "set vs \<subseteq> set (impl_variables left)" "set vs \<subseteq> set (impl_variables right)" and dist: "distinct vs"
    and shared: "set (impl_variables left) \<inter> set (impl_variables right) \<subseteq> set vs"
    and join: "joinable L (import_trace ops) dm vs left right"
  shows "\<exists>rel' h'. join_relations ops dm vs left right = Inr (rel', h') \<and>
    set (impl_variables rel') = set (impl_variables left) \<union> set (impl_variables right) \<and>
    denotes L (import_trace ops) dm rel' (\<lambda>t \<sigma>. ml t \<sigma> * mr t \<sigma>)"
proof (cases left; cases right)
  fix bl br assume l: "left = ImplAttribute bl" and r: "right = ImplAttribute br"
  with join obtain target where vs: "vs = [target]" by (auto simp: length_Suc_conv)
  have "target \<in> set (impl_variables (ImplAttribute bl))" "target \<in> set (impl_variables (ImplAttribute br))"
    "target = snd (ab_variables bl) \<Longrightarrow> reverse_agrees L (import_trace ops) dm (source_attribute bl)"
    "target = snd (ab_variables br) \<Longrightarrow> reverse_agrees L (import_trace ops) dm (source_attribute br)"
    "set (impl_variables (ImplAttribute bl)) \<inter> set (impl_variables (ImplAttribute br)) \<subseteq> {target}"
    using sub shared join l r vs by auto
  from attribute_attribute_denotes[OF laws left[unfolded l] right[unfolded r] this]
  show ?thesis by (simp add: l r vs)
next
  fix bl cr assume l: "left = ImplAttribute bl" and r: "right = ImplCollection cr"
  have "set vs \<subseteq> set (rel_variables cr)" "set vs \<subseteq> set (impl_variables (ImplAttribute bl))"
    "set (rel_variables cr) \<inter> set (impl_variables (ImplAttribute bl)) \<subseteq> set vs"
    using sub shared l r by auto
  from collection_attribute_denotes[OF laws right[unfolded r] left[unfolded l] this(1,2) dist this(3)]
  show ?thesis by (simp add: l r mult.commute Un_commute)
next
  fix cl br assume l: "left = ImplCollection cl" and r: "right = ImplAttribute br"
  have "set vs \<subseteq> set (rel_variables cl)" "set vs \<subseteq> set (impl_variables (ImplAttribute br))"
    "set (rel_variables cl) \<inter> set (impl_variables (ImplAttribute br)) \<subseteq> set vs"
    using sub shared l r by auto
  from collection_attribute_denotes[OF laws left[unfolded l] right[unfolded r] this(1,2) dist this(3)]
  show ?thesis by (simp add: l r)
next
  fix cl cr assume l: "left = ImplCollection cl" and r: "right = ImplCollection cr"
  have s: "set vs \<subseteq> set (rel_variables cl)" "set vs \<subseteq> set (rel_variables cr)"
    "set (rel_variables cl) \<inter> set (rel_variables cr) \<subseteq> set vs"
    using sub shared l r by auto
  from collection_collection_denotes[OF laws left[unfolded l] right[unfolded r] s(1,2) dist s(3)] s(1,2)
  show ?thesis by (auto simp: l r)
qed

lemma join_implement_denotes:
  assumes "ops_laws L ops" and "denotes L (import_trace ops) dm left ml" and "denotes L (import_trace ops) dm right mr"
    and "set vs \<subseteq> set (impl_variables left)" and "set vs \<subseteq> set (impl_variables right)" and "distinct vs"
    and "set (impl_variables left) \<inter> set (impl_variables right) \<subseteq> set vs"
    and "joinable L (import_trace ops) dm vs left right" and "vs \<noteq> []"
  shows "\<exists>rel' h'. join_implement ops dm vs (Inr (left, hl)) (Inr (right, hr)) = Inr (rel', h') \<and>
    set (impl_variables rel') = set (impl_variables left) \<union> set (impl_variables right) \<and>
    denotes L (import_trace ops) dm rel' (\<lambda>t \<sigma>. ml t \<sigma> * mr t \<sigma>)"
  using join_relations_denotes[OF assms(1-8)] assms(9) by (auto simp: join_implement_def)

section \<open>Data patterns\<close>

lemma total_pattern:
  assumes "inj_on f {ev. P ev}" and "P x"
  shows "total_at N (coll_map f (coll_filter P c)) (f x) t = total_at N c x t"
proof -
  have "insert x (fst ` set (coll_filter P c)) \<subseteq> {ev. P ev}" using assms(2) by (auto simp: coll_filter_def)
  from total_map_inj[OF inj_on_subset[OF assms(1) this]] assms(2) show ?thesis by simp
qed

lemma match_ea_denotes:
  assumes "forward_propose_of a dm \<noteq> None"
  shows "\<exists>rel' h'. match_ea_implement ops dm e a v = Inr (rel', h') \<and> impl_variables rel' = [v] \<and>
    denotes L (import_trace ops) dm rel' (\<lambda>t \<sigma>. attribute_at L (import_trace ops) dm a (Eid e, \<sigma> v) (fst t))"
proof -
  obtain tr where tr: "forward_propose_of a dm = Some tr" using assms by blast
  let ?c = "coll_map (\<lambda>(e, v). [v]) (coll_filter (\<lambda>(e', v). e' = Eid e) (enter (import_trace ops tr)))"
  have "total_at (nested_ops L) ?c [\<sigma> v] t = attribute_at L (import_trace ops) dm a (Eid e, \<sigma> v) (fst t)" for t \<sigma>
    using total_pattern[of "\<lambda>(e, v). [v]" "\<lambda>(e', v). e' = Eid e" "(Eid e, \<sigma> v)" "nested_ops L"
        "enter (import_trace ops tr)" t] tr
    by (cases t) (auto simp: inj_on_def attribute_at_def)
  moreover have "wf_tuples [v] ?c" by (auto simp: wf_tuples_records)
  ultimately show ?thesis by (simp add: match_ea_implement_def tr denotes_collection)
qed

lemma match_av_denotes:
  assumes "forward_propose_of a dm \<noteq> None"
  shows "\<exists>rel' h'. match_av_implement ops dm e a v = Inr (rel', h') \<and> impl_variables rel' = [e] \<and>
    denotes L (import_trace ops) dm rel' (\<lambda>t \<sigma>. attribute_at L (import_trace ops) dm a (\<sigma> e, v) (fst t))"
proof -
  obtain tr where tr: "forward_propose_of a dm = Some tr" using assms by blast
  let ?c = "coll_map (\<lambda>(e, v). [e]) (coll_filter (\<lambda>(e, v'). v' = v) (enter (import_trace ops tr)))"
  have "total_at (nested_ops L) ?c [\<sigma> e] t = attribute_at L (import_trace ops) dm a (\<sigma> e, v) (fst t)" for t \<sigma>
    using total_pattern[of "\<lambda>(e, v). [e]" "\<lambda>(e, v'). v' = v" "(\<sigma> e, v)" "nested_ops L"
        "enter (import_trace ops tr)" t] tr
    by (cases t) (auto simp: inj_on_def attribute_at_def)
  moreover have "wf_tuples [e] ?c" by (auto simp: wf_tuples_records)
  ultimately show ?thesis by (simp add: match_av_implement_def tr denotes_collection)
qed

lemma name_expr_denotes:
  assumes "map_of locals name = Some c" and "distinct syms" and "wf_tuples syms c"
  shows "name_expr_implement locals syms name = Inr (collection_of syms c, handle_empty)"
    and "denotes L imp dm (collection_of syms c) (\<lambda>t \<sigma>. total_at (nested_ops L) c (map \<sigma> syms) t)"
  using assms by (simp_all add: name_expr_implement_def denotes_collection)

section \<open>Operators that satisfy the laws\<close>

text \<open>A concrete instance of the operators, with traces read as they are, and a domain with two attributes.\<close>

definition ref_ops :: "'t lattice_ops \<Rightarrow> 't dataflow_ops" where
  "ref_ops L =
     \<lparr> import_trace = contents, distinct_tuples = ref_distinct (nested_ops L),
       distinct_pairs = ref_distinct (nested_ops L), antijoin_pairs = ref_antijoin (nested_ops L),
       join_pairs = ref_join (nested_ops L), join_values = ref_join (nested_ops L),
       join_paths = ref_join (nested_ops L), reduce_pairs = ref_reduce (nested_ops L) \<rparr>"

lemma ref_ops_laws: "ops_laws u64_ops (ref_ops u64_ops)"
  by (simp add: ops_laws_def ref_ops_def u64_nested_lat.ref_laws)

definition demo_trace :: "((df_value \<times> df_value) \<times> u64 \<times> int) list \<Rightarrow> (df_value, df_value, u64) trace_val_handle" where
  "demo_trace c = \<lparr> contents = c, advanced = [0], distinguished = [0] \<rparr>"

definition plan_domain :: "(u64, unit, unit) dom" where
  "plan_domain = (domain_new u64_time () 5) \<lparr>
     forward_propose := [(''name'', demo_trace [((Eid 1, String ''Ann''), 0, 1), ((Eid 2, String ''Bob''), 1, 1)]),
       (''parent'', demo_trace [((Eid 2, Eid 1), 2, 1)])],
     reverse_propose := [(''parent'', demo_trace [((Eid 1, Eid 2), 2, 1)])] \<rparr>"

lemma plan_domain_indices:
  "forward_propose_of ''name'' plan_domain =
     Some (demo_trace [((Eid 1, String ''Ann''), 0, 1), ((Eid 2, String ''Bob''), 1, 1)])"
  "forward_propose_of ''parent'' plan_domain = Some (demo_trace [((Eid 2, Eid 1), 2, 1)])"
  "reverse_propose_of ''parent'' plan_domain = Some (demo_trace [((Eid 1, Eid 2), 2, 1)])"
  by (simp_all add: plan_domain_def forward_propose_of_def reverse_propose_of_def domain_new_def)

end
