(* ===== verification/Transforms.thy ===== *)
theory Transforms
  imports Plan_Semantics
begin

text \<open>
  The functions of a transform node (\<^verbatim>\<open>src/src/plan/transform.rs\<close>): sums and differences of 64 bit numbers with
  wrap-around and the truncation of instants. The definitions are in the theory of the plan nodes.
\<close>

definition numbers_at :: "usize list \<Rightarrow> tuple \<Rightarrow> i64 list \<Rightarrow> bool" where
  "numbers_at offsets tup ns \<longleftrightarrow> run_map (vec_index tup) offsets = Inr (map Number ns)"

definition present :: "'a option list \<Rightarrow> 'a list" where
  "present cs = List.map_filter (\<lambda>c. c) cs"

lemma present_simps [simp]:
  "present [] = []" "present (None # cs) = present cs" "present (Some c # cs) = c # present cs"
  by (simp_all add: present_def List.map_filter_simps)

lemma numbers_at_Cons:
  "numbers_at (i # js) tup ns \<Longrightarrow> \<exists>n ns'. ns = n # ns' \<and> vec_index tup i = Inr (Number n) \<and> numbers_at js tup ns'"
  by (auto simp: numbers_at_def run_simps)

lemma numbers_at_Nil [simp]: "numbers_at [] tup ns \<longleftrightarrow> ns = []"
  by (auto simp: numbers_at_def)

lemma accumulate_vars_add: "numbers_at offsets tup ns \<Longrightarrow> accumulate_vars m (+) tup offsets r = Inr (r + sum_list ns)"
  by (induction offsets arbitrary: ns r) (auto simp: algebra_simps dest!: numbers_at_Cons)

lemma accumulate_vars_sub: "numbers_at offsets tup ns \<Longrightarrow> accumulate_vars m (-) tup offsets r = Inr (r - sum_list ns)"
  by (induction offsets arbitrary: ns r) (auto simp: algebra_simps dest!: numbers_at_Cons)

lemma accumulate_constants_add:
  "accumulate_constants m (+) (map (map_option Number) cs) r = Inr (r + sum_list (present cs))"
proof (induction cs arbitrary: r)
  case (Cons c cs)
  then show ?case by (cases c) (auto simp: algebra_simps)
qed simp

lemma accumulate_constants_sub:
  "accumulate_constants m (-) (map (map_option Number) cs) r = Inr (r - sum_list (present cs))"
proof (induction cs arbitrary: r)
  case (Cons c cs)
  then show ?case by (cases c) (auto simp: algebra_simps)
qed simp

text \<open>\<^verbatim>\<open>ADD\<close> and \<^verbatim>\<open>SUBTRACT\<close> on numbers append the sum of all variables and constants, and the minuend (the first
  constant if there is one, else the first variable) less all the others, modulo \<open>2 ^ 64\<close>.\<close>

theorem add_subtract_exact:
  assumes "numbers_at offsets tup ns" and "cs \<noteq> []" and "cs ! 0 = None \<Longrightarrow> ns \<noteq> []"
  shows "add_tuple (map (map_option Number) cs) offsets tup = Inr (tup @ [Number (sum_list ns + sum_list (present cs))]) \<and>
    subtract_tuple (map (map_option Number) cs) offsets tup = Inr (tup @ [Number
      (case cs ! 0 of Some c \<Rightarrow> c - sum_list ns - sum_list (present (tl cs))
       | None \<Rightarrow> ns ! 0 - sum_list (tl ns) - sum_list (present (tl cs)))])"
proof
  show "add_tuple (map (map_option Number) cs) offsets tup = Inr (tup @ [Number (sum_list ns + sum_list (present cs))])"
    by (simp add: add_tuple_def accumulate_vars_add[OF assms(1)] accumulate_constants_add)
  obtain c cs' where cs: "cs = c # cs'" using assms(2) by (cases cs) auto
  show "subtract_tuple (map (map_option Number) cs) offsets tup = Inr (tup @ [Number
      (case cs ! 0 of Some c \<Rightarrow> c - sum_list ns - sum_list (present (tl cs))
       | None \<Rightarrow> ns ! 0 - sum_list (tl ns) - sum_list (present (tl cs)))])"
  proof (cases c)
    case None
    with assms(3) cs obtain n ns' where ns: "ns = n # ns'" by (cases ns) auto
    with assms(1) obtain i js where js: "offsets = i # js" by (cases offsets) (auto simp: numbers_at_def)
    with assms(1) ns have "tuple_at offsets tup 0 = Inr (Number n)"
      using numbers_at_Cons[of i js tup ns] by (auto simp: tuple_at_def vec_index_def)
    with None cs ns show ?thesis
      using accumulate_vars_sub[OF assms(1)] accumulate_constants_sub[of _ cs]
      by (simp add: subtract_tuple_def vec_index_def algebra_simps)
  next
    case (Some n)
    with cs show ?thesis
      using accumulate_vars_sub[OF assms(1)] accumulate_constants_sub[of _ cs]
      by (simp add: subtract_tuple_def vec_index_def algebra_simps)
  qed
qed

theorem add_subtract_exact_witness:
  "add_tuple [None, Some (Number 4)] [0, 1] [Number 10, Number 3] = Inr [Number 10, Number 3, Number 17] \<and>
   subtract_tuple [None, Some (Number 4)] [0, 1] [Number 10, Number 3] = Inr [Number 10, Number 3, Number 3]"
proof -
  have "numbers_at [0, 1] [Number 10, Number 3] [10, 3]" by (simp add: numbers_at_def vec_index_def)
  from add_subtract_exact[OF this, of "[None, Some 4]"] show ?thesis by simp
qed

text \<open>\<^verbatim>\<open>TRUNCATE\<close> appends the greatest multiple of the interval that is not after the instant.\<close>

theorem truncate_exact:
  assumes "tuple_at offsets tup 0 = Inr (Instant t)" and "length constants \<ge> 2"
    and "constants ! 1 = Some (String interval)" and "truncate_interval interval = Inr w"
  shows "\<exists>r. truncate_tuple constants offsets tup = Inr (tup @ [Instant r]) \<and>
    unat w dvd unat r \<and> unat r \<le> unat t \<and> unat t < unat r + unat w"
proof -
  let ?r = "t - t mod w"
  have run: "truncate_tuple constants offsets tup = Inr (tup @ [Instant ?r])"
    using assms by (simp add: truncate_tuple_def vec_index_def)
  have w: "0 < unat w" using assms(4) by (auto simp: truncate_interval_def split: if_splits)
  have "t mod w \<le> t" by (simp add: word_le_nat_alt unat_mod)
  then have r: "unat ?r = unat t - unat t mod unat w" by (simp add: unat_sub unat_mod)
  then have "unat ?r = unat w * (unat t div unat w)" by (simp add: minus_mod_eq_mult_div)
  moreover have "unat t < unat ?r + unat w"
    using r w mod_less_divisor[OF w, of "unat t"] by linarith
  ultimately show ?thesis using run r by auto
qed

theorem truncate_exact_witness:
  "\<exists>r. truncate_tuple [None, Some (String '':minute'')] [0] [Instant 123456] = Inr [Instant 123456, Instant r] \<and>
    60000 dvd unat r"
proof -
  have "tuple_at [0] [Instant 123456] 0 = Inr (Instant 123456)" "length [None, Some (String '':minute'')] \<ge> 2"
    "[None, Some (String '':minute'')] ! 1 = Some (String '':minute'')" "truncate_interval '':minute'' = Inr 60000"
    by (simp_all add: tuple_at_def vec_index_def truncate_interval_def)
  from truncate_exact[OF this] show ?thesis by auto
qed

end
