(* ===== verification/Aggregates.thy ===== *)
theory Aggregates
  imports Plan_Semantics
begin

text \<open>
  Aggregation, from \<^verbatim>\<open>src/src/plan/aggregate_neu.rs\<close>, the implementation of the default build. The operators
  \<^verbatim>\<open>count\<close> on integer, pair and nested pair differences and the arithmetic of \<^verbatim>\<open>num_rational\<close> are parameters.
  Differences (\<^verbatim>\<open>isize\<close>) are integers; their conversions to \<^verbatim>\<open>i64\<close> and \<^verbatim>\<open>i32\<close> truncate.

  The closures of \<^verbatim>\<open>reduce\<close> index into a group and its values. \<^verbatim>\<open>reduce\<close> only calls them on groups that are not
  empty and \<open>prepare_unary\<close> only builds values that are not empty, so that they cannot panic.

  All but the aggregation of one variable is the same code in \<^verbatim>\<open>src/src/plan/aggregate.rs\<close>, the implementation of the
  feature \<^verbatim>\<open>set-semantics\<close>; the node \<open>aggregate_with\<close> takes that part as an argument.
\<close>

type_synonym 't keyed = "(tuple \<times> tuple, 't nested) collection"

record 't aggregate_ops =
  count_sum :: "'t tuples \<Rightarrow> (tuple \<times> int, 't nested) collection"
  count_pair :: "(tuple \<times> 't nested \<times> (int \<times> int)) list \<Rightarrow> (tuple \<times> (int \<times> int), 't nested) collection"
  count_triple :: "(tuple \<times> 't nested \<times> ((int \<times> int) \<times> int)) list \<Rightarrow>
    (tuple \<times> ((int \<times> int) \<times> int), 't nested) collection"
  ratio_new :: "32 word \<Rightarrow> 32 word \<Rightarrow> rat run"
  ratio_square :: "rat \<Rightarrow> rat"
  ratio_sub :: "rat \<Rightarrow> rat \<Rightarrow> rat"

section \<open>Offsets\<close>

fun agg_value_offsets :: "var list \<Rightarrow> var list \<Rightarrow> usize list run" where
  "agg_value_offsets seen [] = Inr []"
| "agg_value_offsets seen (x # xs) =
     (if x \<notin> set seen
      then run_bind (agg_value_offsets (seen @ [x]) xs) (\<lambda>offsets. Inr ((length (seen @ [x]) - 1) # offsets))
      else run_bind (expect ''called `Option::unwrap()` on a `None` value'' (vec_binds seen x)) (\<lambda>i.
        run_bind (agg_value_offsets seen xs) (\<lambda>offsets. Inr (i # offsets))))"

fun agg_output_offsets :: "var list \<Rightarrow> var list \<Rightarrow> usize list run" where
  "agg_output_offsets vars [] = Inr []"
| "agg_output_offsets vars (x # xs) =
     run_bind (expect ''called `Option::unwrap()` on a `None` value'' (vec_binds vars x)) (\<lambda>output_index.
     run_bind (agg_output_offsets (vars[output_index := 0]) xs) (\<lambda>offsets. Inr (output_index # offsets)))"

section \<open>One aggregation\<close>

definition prepare_unary :: "usize \<Rightarrow> usize \<Rightarrow> tuple \<times> tuple \<Rightarrow> (tuple \<times> tuple) run" where
  "prepare_unary value_offset with_length kt =
     (let (key, tup) = kt in
      run_bind (vec_index tup value_offset)
        (\<lambda>v. Inr (key, if with_length > 0 then [v] @ take with_length (rev tup) else [v])))"

definition min_closure :: "tuple \<Rightarrow> (tuple \<times> int) list \<Rightarrow> tuple" where
  "min_closure key vals = [fst (vals ! 0) ! 0]"

definition max_closure :: "tuple \<Rightarrow> (tuple \<times> int) list \<Rightarrow> tuple" where
  "max_closure key vals = [fst (vals ! (length vals - 1)) ! 0]"

definition median_closure :: "tuple \<Rightarrow> (tuple \<times> int) list \<Rightarrow> tuple" where
  "median_closure key vals = [fst (vals ! (length vals div 2)) ! 0]"

definition count_closure :: "tuple \<Rightarrow> (tuple \<times> int) list \<Rightarrow> tuple" where
  "count_closure key input = [Number (word_of_int (foldl (\<lambda>total_count (_, count). total_count + count) 0 input))]"

definition explode_number :: "string \<Rightarrow> (i64 \<Rightarrow> 'd) \<Rightarrow> tuple \<times> tuple \<Rightarrow> (tuple \<times> 'd) run" where
  "explode_number m f kv =
     (let (key, val) = kv in
      run_bind (vec_index val 0) (\<lambda>x. run_bind (number_of m x) (\<lambda>num. Inr (key, f num))))"

text \<open>\<^verbatim>\<open>explode\<close> multiplies the difference of a record with the one its closure returns.\<close>

definition explode_run ::
  "(int \<Rightarrow> 'd \<Rightarrow> 'd) \<Rightarrow> ('a \<Rightarrow> ('b \<times> 'd) run) \<Rightarrow> ('a, 't) collection \<Rightarrow> ('b \<times> 't \<times> 'd) list run" where
  "explode_run scale f c = run_map (\<lambda>(x, t, d). run_bind (f x) (\<lambda>(y, e). Inr (y, t, scale d e))) c"

definition sum_collection ::
  "'t aggregate_ops \<Rightarrow> (tuple \<times> tuple, 't nested) collection \<Rightarrow> (tuple \<times> tuple, 't nested) collection run" where
  "sum_collection agg prepared =
     run_bind (explode_run (*) (explode_number ''SUM can only be applied on type Number.'' sint) prepared)
       (\<lambda>exploded. Inr (coll_map (\<lambda>(key, count). (key, [Number (word_of_int count)])) (count_sum agg exploded)))"

definition avg_collection ::
  "'t aggregate_ops \<Rightarrow> (tuple \<times> tuple, 't nested) collection \<Rightarrow> (tuple \<times> tuple, 't nested) collection run" where
  "avg_collection agg prepared =
     run_bind (explode_run (\<lambda>d (a, b). (d * a, d * b))
         (explode_number ''AVG can only be applied on type Number.'' (\<lambda>v. (sint v, 1))) prepared)
       (\<lambda>exploded. coll_map_run (\<lambda>(key, (element1, element2)).
          run_bind (ratio_new agg (word_of_int element1) (word_of_int element2)) (\<lambda>q. Inr (key, [Rational32 q])))
          (count_pair agg exploded))"

definition variance_collection ::
  "'t aggregate_ops \<Rightarrow> (tuple \<times> tuple, 't nested) collection \<Rightarrow> (tuple \<times> tuple, 't nested) collection run" where
  "variance_collection agg prepared =
     run_bind (explode_run (\<lambda>d ((a, b), c). ((d * a, d * b), d * c))
         (explode_number ''VARIANCE can only be applied on type Number.'' (\<lambda>v. ((sint v * sint v, sint v), 1))) prepared)
       (\<lambda>exploded. coll_map_run (\<lambda>(key, ((sum_square, sum), c)).
          run_bind (ratio_new agg (word_of_int sum_square) (word_of_int c)) (\<lambda>mean_square.
          run_bind (ratio_new agg (word_of_int sum) (word_of_int c)) (\<lambda>mean.
            Inr (key, [Rational32 (ratio_sub agg mean_square (ratio_square agg mean))]))))
          (count_triple agg exploded))"

definition aggregate_one ::
  "'t dataflow_ops \<Rightarrow> 't aggregate_ops \<Rightarrow> usize \<Rightarrow> (tuple \<times> tuple, 't nested) collection \<Rightarrow> usize \<Rightarrow>
   aggregation_fn \<Rightarrow> (tuple \<times> tuple, 't nested) collection run" where
  "aggregate_one ops agg with_length tuples value_offset aggregation_fn =
     run_bind (coll_map_run (prepare_unary value_offset with_length) tuples) (\<lambda>prepared.
       case aggregation_fn of
         MIN_fn \<Rightarrow> Inr (reduce_pairs ops min_closure prepared)
       | MAX_fn \<Rightarrow> Inr (reduce_pairs ops max_closure prepared)
       | MEDIAN \<Rightarrow> Inr (reduce_pairs ops median_closure prepared)
       | COUNT \<Rightarrow> Inr (reduce_pairs ops count_closure prepared)
       | SUM_fn \<Rightarrow> sum_collection agg prepared
       | AVG \<Rightarrow> avg_collection agg prepared
       | VARIANCE \<Rightarrow> variance_collection agg prepared)"

section \<open>The node\<close>

text \<open>\<^verbatim>\<open>Vec::insert\<close> panics beyond the end.\<close>

definition vec_insert :: "usize \<Rightarrow> 'a \<Rightarrow> 'a list \<Rightarrow> 'a list run" where
  "vec_insert i x xs = (if i \<le> length xs then Inr (take i xs @ x # drop i xs) else Inl ''insertion index out of bounds'')"

fun insert_results :: "usize list \<Rightarrow> nat \<Rightarrow> tuple \<Rightarrow> tuple \<Rightarrow> tuple run" where
  "insert_results output_offsets i [] v = Inr v"
| "insert_results output_offsets i (val # vals) v =
     run_bind (vec_index output_offsets i) (\<lambda>offset.
     run_bind (vec_insert offset val v) (\<lambda>v'. insert_results output_offsets (i + 1) vals v'))"

fun aggregate_all ::
  "(usize \<Rightarrow> 't keyed \<Rightarrow> usize \<Rightarrow> aggregation_fn \<Rightarrow> 't keyed run) \<Rightarrow> usize \<Rightarrow> 't keyed \<Rightarrow> usize list \<Rightarrow> nat \<Rightarrow>
   aggregation_fn list \<Rightarrow> 't keyed list run" where
  "aggregate_all one with_length tuples offsets i [] = Inr []"
| "aggregate_all one with_length tuples offsets i (f # fs) =
     run_bind (vec_index offsets i) (\<lambda>value_offset.
     run_bind (one with_length tuples value_offset f) (\<lambda>c.
     run_bind (aggregate_all one with_length tuples offsets (i + 1) fs) (\<lambda>cs. Inr (c # cs))))"

definition join_results ::
  "'t dataflow_ops \<Rightarrow> (tuple \<times> tuple, 't nested) collection \<Rightarrow> (tuple \<times> tuple, 't nested) collection \<Rightarrow>
   (tuple \<times> tuple, 't nested) collection" where
  "join_results ops coll next = coll_map (\<lambda>(key, v1, v2). (key, v1 @ v2)) (join_pairs ops coll next)"

definition aggregate_with ::
  "'t dataflow_ops \<Rightarrow> (usize \<Rightarrow> 't keyed \<Rightarrow> usize \<Rightarrow> aggregation_fn \<Rightarrow> 't keyed run) \<Rightarrow> ('t, 'r, 'pr) dom \<Rightarrow> var list \<Rightarrow>
   aggregation_fn list \<Rightarrow> var list \<Rightarrow> var list \<Rightarrow> var list \<Rightarrow> 't relation \<Rightarrow> 't relation run" where
  "aggregate_with ops one dm vs aggregation_fns key_variables aggregation_variables with_variables rel =
     (let (relation, shutdown_handle) = rel in
      run_bind (impl_by_variables (import_trace ops) dm relation key_variables) (\<lambda>(tuples, shutdown).
      run_bind (agg_value_offsets [] aggregation_variables) (\<lambda>offsets.
      run_bind (agg_output_offsets vs aggregation_variables) (\<lambda>output_offsets.
      run_bind (aggregate_all one (length with_variables) tuples offsets 0 aggregation_fns) (\<lambda>collections.
      run_bind (case collections of
          [c] \<Rightarrow> run_bind (vec_index output_offsets 0) (\<lambda>output_index.
            coll_map_run (\<lambda>(key, val). run_bind (vec_index val 0) (\<lambda>v. vec_insert output_index v key)) c)
        | [] \<Rightarrow> Inl ''removal index should be < len''
        | left # rest \<Rightarrow>
            coll_map_run (\<lambda>(key, vals). insert_results output_offsets 0 vals key) (foldl (join_results ops) left rest))
        (\<lambda>tuples'. Inr (collection_of vs tuples', merge_with shutdown_handle shutdown)))))))"

definition aggregate_implement ::
  "'t dataflow_ops \<Rightarrow> 't aggregate_ops \<Rightarrow> ('t, 'r, 'pr) dom \<Rightarrow> var list \<Rightarrow> aggregation_fn list \<Rightarrow> var list \<Rightarrow> var list \<Rightarrow>
   var list \<Rightarrow> 't relation \<Rightarrow> 't relation run" where
  "aggregate_implement ops agg = aggregate_with ops (aggregate_one ops agg)"

section \<open>Groups\<close>

text \<open>The multiplicity of a value of the aggregated variable within the group of a valuation, and the values
  that occur.\<close>

definition group_mult :: "var set \<Rightarrow> var list \<Rightarrow> var \<Rightarrow> (valuation \<Rightarrow> int) \<Rightarrow> valuation \<Rightarrow> df_value \<Rightarrow> int" where
  "group_mult V keys x m \<sigma> y = project_sum V (keys @ [x]) m (\<sigma>(x := y))"

definition group_values :: "var set \<Rightarrow> var list \<Rightarrow> var \<Rightarrow> (valuation \<Rightarrow> int) \<Rightarrow> valuation \<Rightarrow> df_value set" where
  "group_values V keys x m \<sigma> = {y. group_mult V keys x m \<sigma> y \<noteq> 0}"

fun aggregate_spec :: "aggregation_fn \<Rightarrow> (df_value \<Rightarrow> int) \<Rightarrow> df_value set \<Rightarrow> df_value" where
  "aggregate_spec MIN_fn mu Y = Min Y"
| "aggregate_spec MAX_fn mu Y = Max Y"
| "aggregate_spec MEDIAN mu Y = sorted_list_of_set Y ! (card Y div 2)"
| "aggregate_spec COUNT mu Y = Number (word_of_int (\<Sum>y \<in> Y. mu y))"
| "aggregate_spec _ mu Y = undefined"

fun reduce_closure :: "aggregation_fn \<Rightarrow> tuple \<Rightarrow> (tuple \<times> int) list \<Rightarrow> tuple" where
  "reduce_closure MIN_fn = min_closure"
| "reduce_closure MAX_fn = max_closure"
| "reduce_closure MEDIAN = median_closure"
| "reduce_closure _ = count_closure"

lemma sorted_list_of_singletons:
  "finite Y \<Longrightarrow> sorted_list_of_set ((\<lambda>y. [y]) ` Y) = map (\<lambda>y :: df_value. [y]) (sorted_list_of_set Y)"
  by (rule sorted_distinct_set_unique)
     (auto simp: sorted_map distinct_map inj_on_def intro: sorted_wrt_mono_rel[OF _ sorted_sorted_list_of_set])

lemma foldl_count: "foldl (\<lambda>n (_, c). n + c) a (xs :: (tuple \<times> int) list) = a + (\<Sum>(_, c) \<leftarrow> xs. c)"
  by (induction xs arbitrary: a) auto

lemma reduce_closure_spec:
  assumes "finite Y" and "Y \<noteq> {}" and "f \<in> {MIN_fn, MAX_fn, MEDIAN, COUNT}"
  shows "reduce_closure f k (map (\<lambda>y. ([y], mu y)) (sorted_list_of_set Y)) = [aggregate_spec f mu Y]"
proof -
  let ?ys = "sorted_list_of_set Y"
  have ne: "?ys \<noteq> []" and len: "length ?ys = card Y" "0 < card Y" using assms(1,2) by (auto simp: card_gt_0_iff)
  have "?ys ! 0 = Min Y"
    using assms(1,2) by (simp add: sorted_list_of_set_nonempty)
  moreover have "?ys ! (length ?ys - 1) = Max Y"
  proof (rule Max_eqI[symmetric, OF assms(1)])
    fix y assume "y \<in> Y"
    then obtain i where "i < length ?ys" "?ys ! i = y" using assms(1) by (metis in_set_conv_nth set_sorted_list_of_set)
    then show "y \<le> ?ys ! (length ?ys - 1)" using sorted_nth_mono[OF sorted_sorted_list_of_set, of i "length ?ys - 1" Y] by auto
  next
    show "?ys ! (length ?ys - 1) \<in> Y" using ne assms(1) by (metis diff_less length_greater_0_conv nth_mem set_sorted_list_of_set zero_less_one)
  qed
  moreover have "(\<Sum>y \<leftarrow> ?ys. mu y) = (\<Sum>y \<in> Y. mu y)"
    using assms(1) by (simp add: sum_list_distinct_conv_sum_set)
  ultimately show ?thesis using assms(3) len
    by (auto simp: min_closure_def max_closure_def median_closure_def count_closure_def foldl_count comp_def)
qed

lemma total_prepared:
  assumes den: "denotes L imp dm rel m" and sub: "set (keys @ [x]) \<subseteq> set (impl_variables rel)" and x: "x \<notin> set keys"
  shows "total_at (nested_ops L)
      (coll_map (\<lambda>tup. (map (value_of (impl_variables rel) tup) keys, [value_of (impl_variables rel) tup x])) (impl_rows imp dm rel))
      (map \<sigma> keys, [y]) t = group_mult (set (impl_variables rel)) keys x (m t) \<sigma> y"
proof -
  let ?vars = "impl_variables rel" and ?rows = "impl_rows imp dm rel" and ?N = "nested_ops L"
  let ?f = "\<lambda>tup. (map (value_of ?vars tup) keys, [value_of ?vars tup x])"
  note wf = denotes_wf[OF den]
  have keys: "map (\<sigma>(x := y)) keys = map \<sigma> keys" using x by auto
  have "inj_on (\<lambda>(k, v). k @ v) (insert (map \<sigma> keys, [y]) (fst ` set (coll_map ?f ?rows)))"
    by (rule inj_on_subset[OF append_pair_inj[of "length keys"]]) auto
  from total_map_inj[OF this, of ?N t] have "total_at ?N (coll_map ?f ?rows) (map \<sigma> keys, [y]) t =
      total_at ?N (coll_map (\<lambda>tup. map (value_of ?vars tup) (keys @ [x])) ?rows) (map (\<sigma>(x := y)) (keys @ [x])) t"
    by (simp add: coll_map_coll_map comp_def keys)
  also have "\<dots> = project_sum (set ?vars) (keys @ [x]) (\<lambda>\<rho>. total_at ?N ?rows (map \<rho> ?vars) t) (\<sigma>(x := y))"
    using total_projected[OF conjunct1[OF wf] conjunct2[OF wf] sub] by blast
  finally show ?thesis using denotes_total[OF den] by (simp add: group_mult_def)
qed

lemma group_at_singletons:
  assumes tot: "\<And>y. total_at N c (k, [y]) t = mu y" and rec: "snd ` fst ` set c \<subseteq> range (\<lambda>y. [y])"
  shows "finite {y. mu y \<noteq> 0}"
    and "group_at N c k t = map (\<lambda>y :: df_value. ([y], mu y)) (sorted_list_of_set {y. mu y \<noteq> 0})"
proof -
  have mem: "[y] \<in> snd ` fst ` set c" if "mu y \<noteq> 0" for y
  proof -
    have "(k, [y]) \<in> fst ` set c" using that tot[of y] total_absent[of "(k, [y])" c N t] by auto
    then show ?thesis by force
  qed
  have eq: "{v \<in> snd ` fst ` set c. total_at N c (k, v) t \<noteq> 0} = (\<lambda>y. [y]) ` {y. mu y \<noteq> 0}"
  proof (intro set_eqI iffI)
    fix v assume v: "v \<in> {v \<in> snd ` fst ` set c. total_at N c (k, v) t \<noteq> 0}"
    then have "v \<in> range (\<lambda>y. [y])" using subsetD[OF rec, of v] by simp
    then obtain y where "v = [y]" by (rule rangeE)
    with v tot show "v \<in> (\<lambda>y. [y]) ` {y. mu y \<noteq> 0}" by simp
  next
    fix v assume "v \<in> (\<lambda>y. [y]) ` {y. mu y \<noteq> 0}"
    then obtain y where "v = [y]" "mu y \<noteq> 0" by auto
    with mem tot show "v \<in> {v \<in> snd ` fst ` set c. total_at N c (k, v) t \<noteq> 0}" by simp
  qed
  have "finite {v \<in> snd ` fst ` set c. total_at N c (k, v) t \<noteq> 0}" by simp
  then have "finite ((\<lambda>y. [y]) ` {y. mu y \<noteq> 0})" unfolding eq .
  then show fin: "finite {y. mu y \<noteq> 0}" by (rule finite_imageD) (simp add: inj_on_def)
  show "group_at N c k t = map (\<lambda>y. ([y], mu y)) (sorted_list_of_set {y. mu y \<noteq> 0})"
    unfolding group_at_def Let_def eq sorted_list_of_singletons[OF fin] by (simp add: tot)
qed

lemma aggregate_one_reduce:
  assumes "f \<in> {MIN_fn, MAX_fn, MEDIAN, COUNT}"
    and "coll_map_run (prepare_unary value_offset with_length) c = Inr prepared"
  shows "aggregate_one ops agg with_length c value_offset f = Inr (reduce_pairs ops (reduce_closure f) prepared)"
  using assms by (auto simp: aggregate_one_def)

lemma total_reduced:
  assumes law: "reduce_law N op" and f: "f \<in> {MIN_fn, MAX_fn, MEDIAN, COUNT}"
    and tot: "\<And>y. total_at N c (k, [y]) t = mu y" and rec: "snd ` fst ` set c \<subseteq> range (\<lambda>y. [y])"
  shows "total_at N (op (reduce_closure f) c) (k, [w]) t =
    (if {y. mu y \<noteq> 0} \<noteq> {} \<and> w = aggregate_spec f mu {y. mu y \<noteq> 0} then 1 else 0)"
proof -
  note g = group_at_singletons[OF tot rec]
  show ?thesis
  proof (cases "{y. mu y \<noteq> 0} = {}")
    case False
    have "map (\<lambda>y. ([y], mu y)) (sorted_list_of_set {y. mu y \<noteq> 0}) \<noteq> []" using False g(1) by simp
    then show ?thesis
      unfolding reduce_lawD(1)[OF law] g(2) reduce_closure_spec[OF g(1) False f] using False by auto
  qed (simp add: reduce_lawD(1)[OF law] g(2))
qed

lemma prepare_keyed:
  assumes ok: "impl_ok imp dm rel" and rest: "rest_of keys (impl_variables rel) = x # rest"
  shows "coll_map_run (prepare_unary 0 0) (coll_map (split_tuple (impl_variables rel) keys) (impl_rows imp dm rel)) =
    Inr (coll_map (\<lambda>tup. (map (value_of (impl_variables rel) tup) keys, [value_of (impl_variables rel) tup x])) (impl_rows imp dm rel))"
proof -
  have "coll_map_run (prepare_unary 0 0) (coll_map (split_tuple (impl_variables rel) keys) (impl_rows imp dm rel)) =
      Inr (coll_map (\<lambda>(k, v). (k, [v ! 0])) (coll_map (split_tuple (impl_variables rel) keys) (impl_rows imp dm rel)))"
    by (rule coll_map_run_total) (auto simp: coll_map_def split_tuple_def rest prepare_unary_def vec_index_def)
  then show ?thesis by (simp add: coll_map_coll_map comp_def split_tuple_def rest)
qed

lemma insert_inj:
  "inj_on (\<lambda>(k, v). take i k @ v ! 0 # drop i k) {(k, v :: 'a list). length k = n \<and> length v = 1}"
proof (rule inj_onI)
  fix a b assume ab: "a \<in> {(k, v :: 'a list). length k = n \<and> length v = 1}" "b \<in> {(k, v :: 'a list). length k = n \<and> length v = 1}"
    and eq: "(\<lambda>(k, v). take i k @ v ! 0 # drop i k) a = (\<lambda>(k, v). take i k @ v ! 0 # drop i k) b"
  from ab obtain k v l w where a: "a = (k, [v])" "b = (l, [w])" "length k = n" "length l = n"
    by (auto simp: length_Suc_conv)
  with eq have "take i k = take i l" "v = w" "drop i k = drop i l" by auto
  then show "a = b" using a by (metis append_take_drop_id)
qed

text \<open>A single aggregation of the first variable after the keys: the result of a group is put in its place among the keys.\<close>

lemma aggregate_single:
  assumes den: "denotes L (import_trace ops) dm rel m" and sup: "impl_supports rel keys"
    and sub: "set keys \<subseteq> set (impl_variables rel)" and dist: "distinct keys"
    and rest: "rest_of keys (impl_variables rel) = x # rest"
    and vs: "i \<le> length keys" "vs = take i keys @ x # drop i keys"
    and one: "one 0 (coll_map (split_tuple (impl_variables rel) keys) (impl_rows (import_trace ops) dm rel)) 0 f = Inr red"
    and records: "fst ` set red \<subseteq> {(k, v). length k = length keys \<and> length v = 1}"
    and tot: "\<And>t \<sigma>. total_at (nested_ops L) red (map \<sigma> keys, [\<sigma> x]) t = m' t \<sigma>"
  shows "\<exists>rel' h'. aggregate_with ops one dm vs [f] keys [x] [] (rel, h) = Inr (rel', h') \<and> impl_variables rel' = vs \<and>
    denotes L (import_trace ops) dm rel' m'"
proof -
  let ?vars = "impl_variables rel" and ?N = "nested_ops L"
  have "x \<in> set (rest_of keys ?vars)" unfolding rest by simp
  then have x: "x \<in> set ?vars" "x \<notin> set keys" by auto
  obtain hb where by_vars: "impl_by_variables (import_trace ops) dm rel keys =
      Inr (coll_map (split_tuple ?vars keys) (impl_rows (import_trace ops) dm rel), hb)"
    using impl.by_variables_law[OF denotes_ok[OF den] sup sub dist] unfolding split_tuple_def by blast
  let ?ins = "\<lambda>(k, v). take i k @ v ! 0 # drop i k"
  have run: "coll_map_run (\<lambda>(key, val). run_bind (vec_index val 0) (\<lambda>v. vec_insert i v key)) red = Inr (coll_map ?ins red)"
  proof (rule coll_map_run_total)
    fix kv t d assume "(kv, t, d) \<in> set red"
    then have "kv \<in> {(k, v). length k = length keys \<and> length v = 1}" using records by force
    then show "(\<lambda>(key, val). run_bind (vec_index val 0) (\<lambda>v. vec_insert i v key)) kv = Inr (?ins kv)"
      using vs(1) by (auto simp: vec_index_def vec_insert_def)
  qed
  have "inj_on ?ins (insert (map \<sigma> keys, [\<sigma> x]) (fst ` set red))" for \<sigma>
    by (rule inj_on_subset[OF insert_inj[of i "length keys"]]) (use records in auto)
  from total_map_inj[OF this, of ?N] have "total_at ?N (coll_map ?ins red) (map \<sigma> vs) t = total_at ?N red (map \<sigma> keys, [\<sigma> x]) t" for \<sigma> t
    using vs(2) by (simp add: take_map drop_map)
  moreover have "wf_tuples vs (coll_map ?ins red)" using records vs by (auto simp: wf_tuples_records)
  moreover have "distinct vs"
    using dist x(2) vs(2) set_take_disj_set_drop_if_distinct[OF dist order.refl]
    by (auto dest: in_set_takeD in_set_dropD)
  moreover have "vec_binds vs x = Some i"
    using position_eq_distinct[OF calculation(3), of i] vs by (simp add: vec_binds_def nth_append)
  ultimately show ?thesis
    using by_vars one run by (simp add: aggregate_with_def expect_def vec_index_def denotes_collection tot)
qed

lemma reduce_records:
  assumes "reduce_law N op" and "\<And>k g. length (f k g) = 1" and "\<And>k v. (k, v) \<in> fst ` set c \<Longrightarrow> length k = n"
  shows "fst ` set (op f c) \<subseteq> {(k, v :: 'a list). length k = n \<and> length v = 1}"
proof (rule subrelI)
  fix k v assume "(k, v) \<in> fst ` set (op f c)"
  from reduce_lawD(2)[OF assms(1) this] obtain t where g: "group_at N c k t \<noteq> []" "v = f k (group_at N c k t)" by blast
  then show "(k, v) \<in> {(k, v). length k = n \<and> length v = 1}" using group_key[OF g(1)] assms(2,3) by force
qed

text \<open>C25: An aggregate with one of \<^verbatim>\<open>MIN\<close>, \<^verbatim>\<open>MAX\<close>, \<^verbatim>\<open>MEDIAN\<close> or \<^verbatim>\<open>COUNT\<close> on the first variable after the keys returns at
  every time one tuple per group that is not empty, with the aggregate of the values of its group at the
  position of the variable: the least, the greatest and the middle of the different values, or the sum of the
  multiplicities as a 64 bit number.\<close>

theorem aggregate_exact:
  assumes laws: "ops_laws L ops" and den: "denotes L (import_trace ops) dm rel m" and sup: "impl_supports rel keys"
    and sub: "set keys \<subseteq> set (impl_variables rel)" and dist: "distinct keys"
    and rest: "rest_of keys (impl_variables rel) = x # rest"
    and vs: "i \<le> length keys" "vs = take i keys @ x # drop i keys"
    and f: "f \<in> {MIN_fn, MAX_fn, MEDIAN, COUNT}"
  shows "\<exists>rel' h'. aggregate_implement ops agg dm vs [f] keys [x] [] (rel, h) = Inr (rel', h') \<and>
    impl_variables rel' = vs \<and>
    denotes L (import_trace ops) dm rel' (\<lambda>t \<sigma>.
      let V = set (impl_variables rel); Y = group_values V keys x (m t) \<sigma>
      in if Y \<noteq> {} \<and> \<sigma> x = aggregate_spec f (group_mult V keys x (m t) \<sigma>) Y then 1 else 0)"
  unfolding aggregate_implement_def
proof (rule aggregate_single[OF den sup sub dist rest vs])
  let ?vars = "impl_variables rel"
  let ?prep = "coll_map (\<lambda>tup. (map (value_of ?vars tup) keys, [value_of ?vars tup x])) (impl_rows (import_trace ops) dm rel)"
  have "x \<in> set (rest_of keys ?vars)" unfolding rest by simp
  then have x: "x \<in> set ?vars" "x \<notin> set keys" by auto
  note law = ops_lawsD(7)[OF laws]
  show "aggregate_one ops agg 0 (coll_map (split_tuple ?vars keys) (impl_rows (import_trace ops) dm rel)) 0 f =
      Inr (reduce_pairs ops (reduce_closure f) ?prep)"
    by (rule aggregate_one_reduce[OF f prepare_keyed[OF denotes_ok[OF den] rest]])
  show "fst ` set (reduce_pairs ops (reduce_closure f) ?prep) \<subseteq> {(k, v). length k = length keys \<and> length v = 1}"
    by (rule reduce_records[OF law])
       (use f in \<open>auto simp: min_closure_def max_closure_def median_closure_def count_closure_def\<close>)
  have rec: "snd ` fst ` set ?prep \<subseteq> range (\<lambda>y. [y])" by auto
  show "total_at (nested_ops L) (reduce_pairs ops (reduce_closure f) ?prep) (map \<sigma> keys, [\<sigma> x]) t =
      (let V = set ?vars; Y = group_values V keys x (m t) \<sigma>
       in if Y \<noteq> {} \<and> \<sigma> x = aggregate_spec f (group_mult V keys x (m t) \<sigma>) Y then 1 else 0)" for t \<sigma>
    unfolding Let_def group_values_def using sub x
    by (intro total_reduced[OF law f total_prepared[OF den _ x(2)] rec]) simp
qed

text \<open>A concrete instance of the operators that only the sums use.\<close>

definition ref_agg :: "u64 aggregate_ops" where
  "ref_agg =
     \<lparr> count_sum = ref_count (nested_ops u64_ops), count_pair = (\<lambda>_. []), count_triple = (\<lambda>_. []),
       ratio_new = (\<lambda>n d. if d = 0 then Inl ''denominator == 0'' else Inr (of_int (sint n) / of_int (sint d))),
       ratio_square = (\<lambda>q. q * q), ratio_sub = (-) \<rparr>"

theorem aggregate_exact_witness:
  "\<exists>rel' h'. aggregate_implement (ref_ops u64_ops) ref_agg plan_domain [1, 2] [MIN_fn] [1] [2] []
      (collection_of [1, 2] [([Eid 1, Number 5], (0, 0), 1), ([Eid 1, Number 3], (2, 0), 1)], []) = Inr (rel', h') \<and>
    impl_variables rel' = [1, 2]"
proof -
  let ?c = "[([Eid 1, Number 5], (0, 0), 1), ([Eid 1, Number 3], (2, 0), 1)] :: u64 tuples"
  let ?rel = "collection_of [1, 2] ?c"
  have den: "denotes u64_ops (import_trace (ref_ops u64_ops)) plan_domain ?rel
      (\<lambda>t \<sigma>. total_at (nested_ops u64_ops) ?c (map \<sigma> [1, 2]) t)"
    unfolding denotes_collection by (simp add: wf_tuples_def)
  have "impl_supports ?rel [1]" "set [1] \<subseteq> set (impl_variables ?rel)" "distinct [1 :: var]"
    "rest_of [1] (impl_variables ?rel) = 2 # []" "1 \<le> length [1 :: var]" "[1, 2] = take 1 [1] @ 2 # drop 1 [1 :: var]"
    "MIN_fn \<in> {MIN_fn, MAX_fn, MEDIAN, COUNT}"
    by simp_all
  from aggregate_exact[OF ref_ops_laws den this, of ref_agg "[]"] show ?thesis by blast
qed

section \<open>Output positions\<close>

lemma zeroed_binds:
  assumes "0 \<notin> set vs" and "x \<noteq> 0" and "x \<notin> Z"
  shows "vec_binds (map (\<lambda>y. if y \<in> Z then 0 else y) vs) x = vec_binds vs x"
  using assms unfolding vec_binds_def by (induction vs) auto

lemma zeroed_update:
  assumes "distinct vs" and "vec_binds vs x = Some i"
  shows "(map (\<lambda>y. if y \<in> Z then 0 else y) vs)[i := 0] = map (\<lambda>y. if y \<in> insert x Z then 0 else y) vs"
proof -
  have "i < length vs" "vs ! i = x" using position_Some[of "\<lambda>y. x = y" vs i] assms(2) by (auto simp: vec_binds_def)
  then show ?thesis using assms(1)
    by (intro nth_equalityI) (auto simp: nth_list_update nth_eq_iff_index_eq)
qed

lemma agg_output_offsets_positions:
  assumes "distinct vs" and "0 \<notin> set vs" and "distinct aggs" and "set aggs \<subseteq> set vs" and "set aggs \<inter> Z = {}"
  shows "agg_output_offsets (map (\<lambda>y. if y \<in> Z then 0 else y) vs) aggs = Inr (map (\<lambda>x. the (vec_binds vs x)) aggs)"
  using assms(3-5)
proof (induction aggs arbitrary: Z)
  case Nil
  then show ?case by simp
next
  case (Cons x aggs)
  have "x \<noteq> 0" using Cons.prems(2) assms(2) by auto
  then have z: "vec_binds (map (\<lambda>y. if y \<in> Z then 0 else y) vs) x = vec_binds vs x"
    using zeroed_binds[OF assms(2)] Cons.prems(3) by auto
  obtain i where i: "vec_binds vs x = Some i"
    using Cons.prems(2) position_None[of "\<lambda>y. x = y" vs] by (cases "vec_binds vs x") (auto simp: vec_binds_def)
  have "agg_output_offsets (map (\<lambda>y. if y \<in> insert x Z then 0 else y) vs) aggs = Inr (map (\<lambda>x. the (vec_binds vs x)) aggs)"
    using Cons.prems by (intro Cons.IH) auto
  with z i zeroed_update[OF assms(1) i, of Z] show ?case by (simp add: expect_def)
qed

lemma insert_results_in_order:
  assumes "distinct ys" and "drop i offs = map (\<lambda>x. length dn + the (vec_binds ys x)) (filter P ys)"
  shows "insert_results offs i (map \<sigma> (filter P ys)) (map \<sigma> (dn @ filter (\<lambda>x. \<not> P x) ys)) = Inr (map \<sigma> (dn @ ys))"
  using assms
proof (induction ys arbitrary: i dn)
  case Nil
  then show ?case by simp
next
  case (Cons y ys)
  have shift: "length dn + the (vec_binds (y # ys) x) = length (dn @ [y]) + the (vec_binds ys x)" if "x \<in> set ys" for x
  proof -
    have "position (\<lambda>z. x = z) ys \<noteq> None" using that by (auto simp: position_None)
    then show ?thesis using that Cons.prems(1) by (auto simp: vec_binds_def)
  qed
  show ?case
  proof (cases "P y")
    case True
    then have d: "drop i offs = length dn # map (\<lambda>x. length dn + the (vec_binds (y # ys) x)) (filter P ys)"
      using Cons.prems(2) by (simp add: vec_binds_def)
    then have "i < length offs" by (metis drop_eq_Nil list.distinct(1) not_le)
    then have "vec_index offs i = Inr (length dn)" using nth_via_drop[OF d] by (simp add: vec_index_def)
    moreover have "drop (Suc i) offs = map (\<lambda>x. length dn + the (vec_binds (y # ys) x)) (filter P ys)"
      using d by (metis drop_Suc list.sel(3) tl_drop)
    moreover have "map (\<lambda>x. length dn + the (vec_binds (y # ys) x)) (filter P ys) =
        map (\<lambda>x. length (dn @ [y]) + the (vec_binds ys x)) (filter P ys)"
      using shift by auto
    moreover have "vec_insert (length dn) (\<sigma> y) (map \<sigma> (dn @ filter (\<lambda>x. \<not> P x) ys)) =
        Inr (map \<sigma> ((dn @ [y]) @ filter (\<lambda>x. \<not> P x) ys))"
      by (simp add: vec_insert_def)
    ultimately show ?thesis using True Cons.IH[of "Suc i" "dn @ [y]"] Cons.prems(1) by simp
  next
    case False
    have "drop i offs = map (\<lambda>x. length (dn @ [y]) + the (vec_binds ys x)) (filter P ys)"
      using Cons.prems(2) shift False by auto
    with Cons.IH[of i "dn @ [y]"] Cons.prems(1) False show ?thesis by simp
  qed
qed

text \<open>When the aggregation variables are listed in the order in which they occur among the output variables,
  none of which is the variable 0, inserting the results into the key at the computed offsets yields the
  output tuple.\<close>

theorem output_offsets_exact:
  assumes "distinct vs" and "0 \<notin> set vs" and "aggs = filter P vs"
  shows "\<exists>offs. agg_output_offsets vs aggs = Inr offs \<and>
    insert_results offs 0 (map \<sigma> aggs) (map \<sigma> (filter (\<lambda>x. \<not> P x) vs)) = Inr (map \<sigma> vs)"
proof -
  have "agg_output_offsets vs aggs = Inr (map (\<lambda>x. the (vec_binds vs x)) aggs)"
    using agg_output_offsets_positions[of vs aggs "{}"] assms by simp
  moreover have "insert_results (map (\<lambda>x. the (vec_binds vs x)) aggs) 0 (map \<sigma> aggs)
      (map \<sigma> (filter (\<lambda>x. \<not> P x) vs)) = Inr (map \<sigma> vs)"
    using insert_results_in_order[OF assms(1), of 0 "map (\<lambda>x. the (vec_binds vs x)) aggs" "[]" P \<sigma>] assms(3) by simp
  ultimately show ?thesis by blast
qed

theorem output_offsets_exact_witness:
  "\<exists>offs. agg_output_offsets [3, 1, 4, 2] [1, 2] = Inr offs \<and>
    insert_results offs 0 [Number 10, Number 20] [Eid 3, Eid 4] = Inr [Eid 3, Number 10, Eid 4, Number 20]"
proof -
  have "distinct [3, 1, 4, 2 :: var]" "0 \<notin> set [3, 1, 4, 2 :: var]" "[1, 2] = filter (\<lambda>x. x < 3) [3, 1, 4, 2 :: var]"
    by simp_all
  from output_offsets_exact[OF this, of "\<lambda>x. if x = 1 then Number 10 else if x = 2 then Number 20 else if x = 3 then Eid 3 else Eid 4"]
  show ?thesis by simp
qed

text \<open>The code marks a used output position with the variable 0. With that variable among the aggregates the
  marker is taken for the variable and two results change places, and with the aggregates in another order
  than the output variables the first insertion is out of bounds.\<close>

theorem output_offsets_faults:
  "(\<exists>offs. agg_output_offsets [1, 0] [1, 0] = Inr offs \<and> insert_results offs 0 [a, b] [] = Inr [b, a]) \<and>
   (\<exists>offs. agg_output_offsets [1, 2] [2, 1] = Inr offs \<and>
      insert_results offs 0 [b, a] [] = Inl ''insertion index out of bounds'')"
  by (simp_all add: vec_binds_def expect_def vec_index_def vec_insert_def)

section \<open>Sums\<close>

fun number_value :: "df_value \<Rightarrow> int" where
  "number_value (Number n) = sint n"
| "number_value _ = 0"

definition numeric :: "(tuple \<times> tuple, 't nested) collection \<Rightarrow> bool" where
  "numeric c \<longleftrightarrow> list_all (\<lambda>((k, v), t, d). \<exists>n. v = [Number n]) c"

text \<open>The sum of a group at a time, each value as often as it occurs.\<close>

definition group_sum :: "'t lattice_ops \<Rightarrow> (tuple \<times> tuple, 't) collection \<Rightarrow> tuple \<Rightarrow> 't \<Rightarrow> int" where
  "group_sum N c k t = (\<Sum>v \<in> snd ` fst ` set c. number_value (v ! 0) * total_at N c (k, v) t)"

lemma count_lawD:
  "count_law L op \<Longrightarrow> total_at L (op c) (k, n) t = (if n \<noteq> 0 \<and> n = total_at L c k t then 1 else 0)"
  "count_law L op \<Longrightarrow> fst ` fst ` set (op c) \<subseteq> fst ` set c"
  unfolding count_law_def by blast+

lemma explode_total:
  assumes "numeric c"
  shows "\<exists>e. explode_run (*) (explode_number m sint) c = Inr e \<and> fst ` set e = fst ` fst ` set c \<and>
    (\<forall>A k t. finite A \<longrightarrow> snd ` fst ` set c \<subseteq> A \<longrightarrow>
       total_at N e k t = (\<Sum>v \<in> A. number_value (v ! 0) * total_at N c (k, v) t))"
  using assms
proof (induction c)
  case Nil
  then show ?case by (simp add: explode_run_def)
next
  case (Cons u c)
  obtain k' n s d where u: "u = ((k', [Number n]), s, d)" using Cons.prems by (cases u) (auto simp: numeric_def)
  from Cons obtain e where e: "explode_run (*) (explode_number m sint) c = Inr e" "fst ` set e = fst ` fst ` set c"
    "\<And>A k t. finite A \<Longrightarrow> snd ` fst ` set c \<subseteq> A \<Longrightarrow>
       total_at N e k t = (\<Sum>v \<in> A. number_value (v ! 0) * total_at N c (k, v) t)"
    by (auto simp: numeric_def)
  have run: "explode_run (*) (explode_number m sint) (u # c) = Inr ((k', s, d * sint n) # e)"
    using e(1) by (simp add: explode_run_def u explode_number_def vec_index_def)
  have "total_at N ((k', s, d * sint n) # e) k t = (\<Sum>v \<in> A. number_value (v ! 0) * total_at N (u # c) (k, v) t)"
    if A: "finite A" "snd ` fst ` set (u # c) \<subseteq> A" for A k t
  proof -
    have "(\<Sum>v \<in> A. number_value (v ! 0) * upd_until N (k, v) t u) =
        (\<Sum>v \<in> A. if v = [Number n] then (if k' = k \<and> less_equal N s t then d * sint n else 0) else 0)"
      by (rule sum.cong) (auto simp: u)
    also have "\<dots> = upd_until N k t (k', s, d * sint n)" using A by (simp add: u)
    finally show ?thesis using e(3)[of A k t] A by (simp add: distrib_left sum.distrib)
  qed
  moreover have "fst ` set ((k', s, d * sint n) # e) = fst ` fst ` set (u # c)" using e(2) by (simp add: u)
  ultimately show ?case using run by blast
qed

text \<open>Mapping the results of groups that have at most one.\<close>

lemma total_map_result:
  assumes "\<And>x. total_at N c (k, x) t = of_bool (r = Some x)"
  shows "total_at N (coll_map (\<lambda>(k, x). (k, h x)) c) (k, w) t = of_bool (map_option h r = Some w)"
proof -
  let ?f = "\<lambda>(k, x). (k, h x)"
  let ?A = "fst ` set c \<union> (case r of None \<Rightarrow> {} | Some x \<Rightarrow> {(k, x)})"
  have "total_at N (coll_map ?f c) (k, w) t = (\<Sum>y \<in> {y \<in> ?A. ?f y = (k, w)}. total_at N c y t)"
    by (rule total_map) (auto split: option.splits)
  also have "\<dots> = (\<Sum>y \<in> {y \<in> ?A. ?f y = (k, w)}. of_bool (\<exists>x. r = Some x \<and> y = (k, x)))"
    by (rule sum.cong) (auto simp: assms)
  also have "\<dots> = of_bool (map_option h r = Some w)"
  proof (cases r)
    case (Some x)
    have "finite {y \<in> ?A. ?f y = (k, w)}" by (auto split: option.splits)
    then show ?thesis by (simp add: Some of_bool_def sum.delta)
  qed simp
  finally show ?thesis .
qed

lemma sum_total:
  assumes law: "count_law N (count_sum agg)" and num: "numeric c"
  shows "\<exists>c'. sum_collection agg c = Inr c' \<and> fst ` set c' \<subseteq> {(k, v). k \<in> fst ` fst ` set c \<and> length v = 1} \<and>
    (\<forall>k v t. total_at N c' (k, v) t =
       (if group_sum N c k t \<noteq> 0 \<and> v = [Number (word_of_int (group_sum N c k t))] then 1 else 0))"
proof -
  let ?m = "''SUM can only be applied on type Number.''" and ?f = "\<lambda>(key, count). (key, [Number (word_of_int count)])"
  from explode_total[OF num, of ?m N] obtain e where run: "explode_run (*) (explode_number ?m sint) c = Inr e"
    and keys: "fst ` set e = fst ` fst ` set c"
    and exploded: "\<forall>A k t. finite A \<longrightarrow> snd ` fst ` set c \<subseteq> A \<longrightarrow>
       total_at N e k t = (\<Sum>v \<in> A. number_value (v ! 0) * total_at N c (k, v) t)" by blast
  have e: "total_at N e k t = group_sum N c k t" for k t
    unfolding group_sum_def by (rule exploded[rule_format]) simp_all
  have "total_at N (coll_map ?f (count_sum agg e)) (k, v) t =
      (if group_sum N c k t \<noteq> 0 \<and> v = [Number (word_of_int (group_sum N c k t))] then 1 else 0)" for k v t
  proof -
    have "total_at N (count_sum agg e) (k, n) t = of_bool ((if group_sum N c k t = 0 then None else Some (group_sum N c k t)) = Some n)" for n
      using count_lawD(1)[OF law, of e k n t] e by auto
    from total_map_result[OF this, of "\<lambda>n. [Number (word_of_int n)]" v] show ?thesis by auto
  qed
  moreover have "fst ` set (coll_map ?f (count_sum agg e)) \<subseteq> {(k, v). k \<in> fst ` fst ` set c \<and> length v = 1}"
    unfolding fst_coll_map
  proof (rule image_subsetI)
    fix x assume "x \<in> fst ` set (count_sum agg e)"
    then have "fst x \<in> fst ` fst ` set (count_sum agg e)" by (rule imageI)
    with count_lawD(2)[OF law, of e] keys have "fst x \<in> fst ` fst ` set c" by blast
    then show "?f x \<in> {(k, v). k \<in> fst ` fst ` set c \<and> length v = 1}" by (cases x) simp
  qed
  ultimately show ?thesis using run by (simp add: sum_collection_def)
qed

text \<open>\<^verbatim>\<open>SUM\<close> returns at every time the sum of each group as a 64 bit number, except that a group whose sum is
  zero vanishes.\<close>

theorem sum_exact:
  assumes law: "count_law N (count_sum agg)" and num: "numeric c"
  shows "\<exists>c'. sum_collection agg c = Inr c' \<and>
    (\<forall>k w t. total_at N c' (k, [Number w]) t =
       (if group_sum N c k t \<noteq> 0 \<and> w = word_of_int (group_sum N c k t) then 1 else 0))"
  using sum_total[OF assms] by auto

theorem sum_exact_witness:
  "\<exists>c'. sum_collection ref_agg [(([Eid 1], [Number 5]), (0, 0), 1), (([Eid 1], [Number (- 5)]), (1, 0), 1)] = Inr c' \<and>
    total_at (nested_ops u64_ops) c' ([Eid 1], [Number 5]) (0, 0) = 1 \<and>
    total_at (nested_ops u64_ops) c' ([Eid 1], [Number 0]) (1, 0) = 0"
proof -
  let ?c = "[(([Eid 1], [Number 5]), (0, 0), 1), (([Eid 1], [Number (- 5)]), (1, 0), 1)] :: (tuple \<times> tuple, u64 nested) collection"
  have "count_law (nested_ops u64_ops) (count_sum ref_agg)" "numeric ?c"
    by (simp_all add: ref_agg_def u64_nested_lat.ref_count_law numeric_def)
  from sum_exact[OF this] show ?thesis
    by (auto simp: group_sum_def nested_ops_def total_ops_def)
qed

end
