(* ===== verification/Set_Aggregates.thy ===== *)
theory Set_Aggregates
  imports Aggregates
begin

text \<open>
  Aggregation with the feature \<^verbatim>\<open>set-semantics\<close>, from \<^verbatim>\<open>src/src/plan/aggregate.rs\<close>: \<^verbatim>\<open>COUNT\<close> counts the different
  values of a group, and \<^verbatim>\<open>SUM\<close>, \<^verbatim>\<open>AVG\<close> and \<^verbatim>\<open>VARIANCE\<close> take every value once. Splitting the tuples, the offsets and putting
  the results together is the code of the other file (\<open>aggregate_with\<close>). Here \<^verbatim>\<open>reduce\<close> returns values and lengths rather
  than tuples; those two instances are further parameters, under the law of \<^verbatim>\<open>reduce\<close>.
\<close>

record 't set_aggregate_ops =
  sum_ops :: "'t aggregate_ops"
  reduce_value :: "(tuple \<Rightarrow> (tuple \<times> int) list \<Rightarrow> df_value) \<Rightarrow> 't keyed \<Rightarrow> (tuple \<times> df_value, 't nested) collection"
  reduce_length :: "(tuple \<Rightarrow> (tuple \<times> int) list \<Rightarrow> usize) \<Rightarrow> 't keyed \<Rightarrow> (tuple \<times> usize, 't nested) collection"

definition set_min_closure :: "tuple \<Rightarrow> (tuple \<times> int) list \<Rightarrow> df_value" where
  "set_min_closure key vals = fst (vals ! 0) ! 0"

definition set_max_closure :: "tuple \<Rightarrow> (tuple \<times> int) list \<Rightarrow> df_value" where
  "set_max_closure key vals = fst (vals ! (length vals - 1)) ! 0"

definition set_median_closure :: "tuple \<Rightarrow> (tuple \<times> int) list \<Rightarrow> df_value" where
  "set_median_closure key vals = fst (vals ! (length vals div 2)) ! 0"

definition set_count_closure :: "tuple \<Rightarrow> (tuple \<times> int) list \<Rightarrow> usize" where
  "set_count_closure key input = length input"

definition set_aggregate_one ::
  "'t dataflow_ops \<Rightarrow> 't set_aggregate_ops \<Rightarrow> usize \<Rightarrow> 't keyed \<Rightarrow> usize \<Rightarrow> aggregation_fn \<Rightarrow> 't keyed run" where
  "set_aggregate_one ops agg with_length tuples value_offset aggregation_fn =
     run_bind (coll_map_run (prepare_unary value_offset with_length) tuples) (\<lambda>prepared.
       case aggregation_fn of
         MIN_fn \<Rightarrow> Inr (coll_map (\<lambda>(key, v). (key, [v])) (reduce_value agg set_min_closure prepared))
       | MAX_fn \<Rightarrow> Inr (coll_map (\<lambda>(key, v). (key, [v])) (reduce_value agg set_max_closure prepared))
       | MEDIAN \<Rightarrow> Inr (coll_map (\<lambda>(key, v). (key, [v])) (reduce_value agg set_median_closure prepared))
       | COUNT \<Rightarrow> Inr (coll_map (\<lambda>(key, count). (key, [Number (of_nat count)])) (reduce_length agg set_count_closure prepared))
       | SUM_fn \<Rightarrow> sum_collection (sum_ops agg) (distinct_pairs ops prepared)
       | AVG \<Rightarrow> avg_collection (sum_ops agg) (distinct_pairs ops prepared)
       | VARIANCE \<Rightarrow> variance_collection (sum_ops agg) (distinct_pairs ops prepared))"

definition set_aggregate_implement ::
  "'t dataflow_ops \<Rightarrow> 't set_aggregate_ops \<Rightarrow> ('t, 'r, 'pr) dom \<Rightarrow> var list \<Rightarrow> aggregation_fn list \<Rightarrow> var list \<Rightarrow> var list \<Rightarrow>
   var list \<Rightarrow> 't relation \<Rightarrow> 't relation run" where
  "set_aggregate_implement ops agg = aggregate_with ops (set_aggregate_one ops agg)"

section \<open>The result of a group\<close>

text \<open>What is returned for a group in which every value has the multiplicity that \<open>mu\<close> gives, or nothing.\<close>

definition set_result :: "aggregation_fn \<Rightarrow> (df_value \<Rightarrow> int) \<Rightarrow> df_value option" where
  "set_result f mu =
     (let Y = {y. mu y \<noteq> 0}; total = (\<Sum>y \<in> {y. mu y > 0}. number_value y) in
      case f of
        MIN_fn \<Rightarrow> if Y = {} then None else Some (Min Y)
      | MAX_fn \<Rightarrow> if Y = {} then None else Some (Max Y)
      | MEDIAN \<Rightarrow> if Y = {} then None else Some (sorted_list_of_set Y ! (card Y div 2))
      | COUNT \<Rightarrow> if Y = {} then None else Some (Number (of_nat (card Y)))
      | SUM_fn \<Rightarrow> if total = 0 then None else Some (Number (word_of_int total))
      | _ \<Rightarrow> None)"

definition bag_result :: "aggregation_fn \<Rightarrow> (df_value \<Rightarrow> int) \<Rightarrow> df_value option" where
  "bag_result f mu =
     (let Y = {y. mu y \<noteq> 0}; total = (\<Sum>y \<in> Y. number_value y * mu y) in
      case f of
        SUM_fn \<Rightarrow> if total = 0 then None else Some (Number (word_of_int total))
      | _ \<Rightarrow> if Y = {} then None else Some (aggregate_spec f mu Y))"

definition set_agg_laws :: "'t lattice_ops \<Rightarrow> 't set_aggregate_ops \<Rightarrow> bool" where
  "set_agg_laws L agg \<longleftrightarrow>
     reduce_law (nested_ops L) (reduce_value agg) \<and> reduce_law (nested_ops L) (reduce_length agg) \<and>
     count_law (nested_ops L) (count_sum (sum_ops agg))"

lemma results_agree:
  assumes "\<And>y. mu y \<in> {0, 1}" and "finite {y. mu y \<noteq> 0}" and "f \<in> {MIN_fn, MAX_fn, MEDIAN, COUNT, SUM_fn}"
  shows "bag_result f mu = set_result f mu"
proof -
  have one: "mu y = 1" if "mu y \<noteq> 0" for y using assms(1)[of y] that by auto
  have pos: "{y. mu y > 0} = {y. mu y \<noteq> 0}" by (auto dest: one)
  have "(\<Sum>y | mu y \<noteq> 0. mu y) = (\<Sum>y | mu y \<noteq> 0. 1)" using one by (intro sum.cong) auto
  moreover have "(\<Sum>y | mu y \<noteq> 0. number_value y * mu y) = (\<Sum>y | mu y \<noteq> 0. number_value y)" using one by (intro sum.cong) auto
  ultimately show ?thesis using assms(3) by (auto simp: bag_result_def set_result_def Let_def pos)
qed

section \<open>One aggregation\<close>

lemma total_reduced_result:
  fixes mu :: "df_value \<Rightarrow> int"
  assumes law: "reduce_law N op" and tot: "\<And>y. total_at N c (k, [y]) t = mu y" and rec: "snd ` fst ` set c \<subseteq> range (\<lambda>y. [y])"
  shows "total_at N (op g c) (k, w) t = of_bool ((if {y. mu y \<noteq> 0} = {} then None
      else Some (g k (map (\<lambda>y. ([y], mu y)) (sorted_list_of_set {y. mu y \<noteq> 0})))) = Some w)"
  using group_at_singletons[OF tot rec] by (auto simp: reduce_lawD(1)[OF law])

lemma closure_results:
  assumes "finite {y. mu y \<noteq> 0}" and "{y. mu y \<noteq> 0} \<noteq> {}"
  shows "Some (set_min_closure k (map (\<lambda>y. ([y], mu y)) (sorted_list_of_set {y. mu y \<noteq> 0}))) = set_result MIN_fn mu"
    "Some (set_max_closure k (map (\<lambda>y. ([y], mu y)) (sorted_list_of_set {y. mu y \<noteq> 0}))) = set_result MAX_fn mu"
    "Some (set_median_closure k (map (\<lambda>y. ([y], mu y)) (sorted_list_of_set {y. mu y \<noteq> 0}))) = set_result MEDIAN mu"
    "Some (Number (of_nat (set_count_closure k (map (\<lambda>y. ([y], mu y)) (sorted_list_of_set {y. mu y \<noteq> 0}))))) = set_result COUNT mu"
  using reduce_closure_spec[OF assms, of MIN_fn k mu] reduce_closure_spec[OF assms, of MAX_fn k mu]
    reduce_closure_spec[OF assms, of MEDIAN k mu] assms
  by (simp_all add: set_min_closure_def set_max_closure_def set_median_closure_def set_count_closure_def min_closure_def
      max_closure_def median_closure_def set_result_def Let_def)

text \<open>The sum of a group of single numbers.\<close>

lemma group_sum_singletons:
  assumes tot: "\<And>y. total_at N c (k, [y]) t = mu y" and rec: "snd ` fst ` set c \<subseteq> range (\<lambda>y. [y])"
  shows "group_sum N c k t = (\<Sum>y | mu y \<noteq> 0. number_value y * mu y)"
proof -
  have "[y] \<in> snd ` fst ` set c" if "mu y \<noteq> 0" for y
  proof -
    have "(k, [y]) \<in> fst ` set c" using that tot[of y] total_absent[of "(k, [y])" c N t] by auto
    then show ?thesis by force
  qed
  then have "{y. mu y \<noteq> 0} \<subseteq> {y. [y] \<in> snd ` fst ` set c}" by blast
  moreover have fin: "finite {y. [y] \<in> snd ` fst ` set c}"
    by (rule finite_vimageI[of "snd ` fst ` set c" "\<lambda>y. [y]", unfolded vimage_def]) (simp_all add: inj_on_def)
  ultimately have "(\<Sum>y | mu y \<noteq> 0. number_value y * mu y) = (\<Sum>y | [y] \<in> snd ` fst ` set c. number_value y * mu y)"
    by (intro sum.mono_neutral_left) auto
  also have "\<dots> = (\<Sum>v \<in> (\<lambda>y. [y]) ` {y. [y] \<in> snd ` fst ` set c}. number_value (v ! 0) * total_at N c (k, v) t)"
    by (subst sum.reindex) (simp_all add: inj_on_def tot)
  also have "(\<lambda>y. [y]) ` {y. [y] \<in> snd ` fst ` set c} = snd ` fst ` set c"
    using image_vimage_eq[of "\<lambda>y. [y]" "snd ` fst ` set c"] by (simp add: vimage_def Int_absorb2[OF rec])
  finally show ?thesis by (simp add: group_sum_def)
qed

text \<open>A result for groups of single values: the collection and, for every group, its result.\<close>

definition group_results :: "'t lattice_ops \<Rightarrow> (aggregation_fn \<Rightarrow> (df_value \<Rightarrow> int) \<Rightarrow> df_value option) \<Rightarrow> aggregation_fn \<Rightarrow> nat \<Rightarrow>
    't keyed \<Rightarrow> 't keyed \<Rightarrow> bool" where
  "group_results L result f n c red \<longleftrightarrow> fst ` set red \<subseteq> {(k, v). length k = n \<and> length v = 1} \<and>
     (\<forall>k t w mu. (\<forall>y. total_at (nested_ops L) c (k, [y]) t = mu y) \<longrightarrow>
        total_at (nested_ops L) red (k, [w]) t = of_bool (result f mu = Some w))"

lemma group_resultsI:
  assumes "fst ` set red \<subseteq> {(k, v). length k = n \<and> length v = 1}"
    and "\<And>k t w mu. (\<And>y. total_at (nested_ops L) c (k, [y]) t = mu y) \<Longrightarrow>
      total_at (nested_ops L) red (k, [w]) t = of_bool (result f mu = Some w)"
  shows "group_results L result f n c red"
  using assms unfolding group_results_def by simp

lemma group_resultsD:
  assumes "group_results L result f n c red"
  shows "fst ` set red \<subseteq> {(k, v). length k = n \<and> length v = 1}"
    and "(\<And>y. total_at (nested_ops L) c (k, [y]) t = mu y) \<Longrightarrow>
      total_at (nested_ops L) red (k, [w]) t = of_bool (result f mu = Some w)"
proof -
  show "fst ` set red \<subseteq> {(k, v). length k = n \<and> length v = 1}" using assms unfolding group_results_def by (rule conjunct1)
  assume "\<And>y. total_at (nested_ops L) c (k, [y]) t = mu y"
  then show "total_at (nested_ops L) red (k, [w]) t = of_bool (result f mu = Some w)"
    by (rule conjunct2[OF assms[unfolded group_results_def], rule_format])
qed

lemma numeric_records: "numeric c \<longleftrightarrow> (\<forall>(k, v) \<in> fst ` set c. \<exists>n. v = [Number n])"
  by (simp add: numeric_def list_all_iff case_prod_beta)

lemma sum_results:
  assumes "count_law (nested_ops L) (count_sum agg)" and "numeric c" and "\<And>k v. (k, v) \<in> fst ` set c \<Longrightarrow> length k = n"
  shows "\<exists>red. sum_collection agg c = Inr red \<and> group_results L bag_result SUM_fn n c red"
proof -
  from sum_total[OF assms(1,2)] obtain red where red: "sum_collection agg c = Inr red"
    "fst ` set red \<subseteq> {(k, v). k \<in> fst ` fst ` set c \<and> length v = 1}"
    "\<And>k v t. total_at (nested_ops L) red (k, v) t =
       (if group_sum (nested_ops L) c k t \<noteq> 0 \<and> v = [Number (word_of_int (group_sum (nested_ops L) c k t))] then 1 else 0)" by blast
  have rec: "snd ` fst ` set c \<subseteq> range (\<lambda>y. [y])" using assms(2) by (force simp: numeric_def list_all_iff)
  have tot: "total_at (nested_ops L) red (k, [w]) t = of_bool (bag_result SUM_fn mu = Some w)"
    if "\<And>y. total_at (nested_ops L) c (k, [y]) t = mu y" for k t w mu
    using group_sum_singletons[of "nested_ops L" c k t mu, OF that rec] by (auto simp: red(3) bag_result_def Let_def)
  have recs: "fst ` set red \<subseteq> {(k, v). length k = n \<and> length v = 1}"
  proof (rule order_trans[OF red(2)], rule subrelI)
    fix k v assume "(k, v) \<in> {(k, v). k \<in> fst ` fst ` set c \<and> length v = 1}"
    then obtain y where "y \<in> fst ` set c" "k = fst y" "length v = 1" by blast
    with assms(3)[of "fst y" "snd y"] show "(k, v) \<in> {(k, v). length k = n \<and> length v = 1}" by simp
  qed
  have "group_results L bag_result SUM_fn n c red" by (rule group_resultsI[OF recs], rule tot)
  with red(1) show ?thesis by blast
qed

lemma reduce_results:
  assumes law: "reduce_law (nested_ops L) op" and rec: "snd ` fst ` set c \<subseteq> range (\<lambda>y. [y])"
    and keys: "\<And>k v. (k, v) \<in> fst ` set c \<Longrightarrow> length k = n"
    and empty: "\<And>mu. {y. mu y \<noteq> 0} = {} \<Longrightarrow> result f mu = None"
    and full: "\<And>mu k. finite {y. mu y \<noteq> 0} \<Longrightarrow> {y. mu y \<noteq> 0} \<noteq> {} \<Longrightarrow>
      Some (h (g k (map (\<lambda>y. ([y], mu y)) (sorted_list_of_set {y. mu y \<noteq> 0})))) = result f mu"
  shows "group_results L result f n c (coll_map (\<lambda>(k, x). (k, [h x])) (op g c))"
proof (rule group_resultsI)
  show "fst ` set (coll_map (\<lambda>(k, x). (k, [h x])) (op g c)) \<subseteq> {(k, v). length k = n \<and> length v = 1}"
    unfolding fst_coll_map
  proof (rule image_subsetI)
    fix kx assume kx: "kx \<in> fst ` set (op g c)"
    obtain k x where [simp]: "kx = (k, x)" by (cases kx)
    from kx reduce_lawD(2)[OF law, of k x g c] obtain t where "group_at (nested_ops L) c k t \<noteq> []" by auto
    from group_key[OF this] obtain y where "y \<in> fst ` set c" "k = fst y" by (rule imageE)
    with keys[of "fst y" "snd y"] show "(\<lambda>(k, x). (k, [h x])) kx \<in> {(k, v). length k = n \<and> length v = 1}" by simp
  qed
  fix k t w mu assume tot: "\<And>y. total_at (nested_ops L) c (k, [y]) t = mu y"
  note fin = group_at_singletons(1)[OF tot rec]
  from total_map_result[where h = "\<lambda>x. [h x]" and w = "[w]", OF total_reduced_result[where g = g, OF law tot rec]] empty[of mu] full[OF fin, of k]
  show "total_at (nested_ops L) (coll_map (\<lambda>(k, x). (k, [h x])) (op g c)) (k, [w]) t = of_bool (result f mu = Some w)"
    by (cases "{y. mu y \<noteq> 0} = {}") (auto split: if_splits)
qed

definition covered :: "aggregation_fn \<Rightarrow> (tuple \<times> tuple, 't nested) collection \<Rightarrow> bool" where
  "covered f c \<longleftrightarrow> f \<in> {MIN_fn, MAX_fn, MEDIAN, COUNT} \<or> f = SUM_fn \<and> numeric c"

lemma set_one_results:
  assumes laws: "ops_laws L ops" "set_agg_laws L agg" and prep: "coll_map_run (prepare_unary 0 0) tuples = Inr c"
    and rec: "snd ` fst ` set c \<subseteq> range (\<lambda>y. [y])" and keys: "\<And>k v. (k, v) \<in> fst ` set c \<Longrightarrow> length k = n"
    and f: "covered f c"
  shows "\<exists>red. set_aggregate_one ops agg 0 tuples 0 f = Inr red \<and> group_results L set_result f n c red"
proof (cases "f = SUM_fn")
  case True
  let ?c = "distinct_pairs ops c" and ?N = "nested_ops L"
  note dist = ops_lawsD(2)[OF laws(1)]
  have sub: "fst ` set ?c \<subseteq> fst ` set c" by (rule distinct_lawD(2)[OF dist])
  have "numeric c" using f True by (simp add: covered_def)
  then have "numeric ?c" unfolding numeric_records by (intro ballI) (erule bspec, erule subsetD[OF sub])
  moreover have "length k = n" if "(k, v) \<in> fst ` set ?c" for k v using keys[OF subsetD[OF sub that]] .
  ultimately obtain red where red: "sum_collection (sum_ops agg) ?c = Inr red" "group_results L bag_result SUM_fn n ?c red"
    using sum_results[of L "sum_ops agg" ?c n] laws(2) by (auto simp: set_agg_laws_def)
  have same: "bag_result SUM_fn (\<lambda>y. if mu y > 0 then 1 else 0) = set_result SUM_fn mu" for mu :: "df_value \<Rightarrow> int"
  proof -
    have "{y. (if mu y > 0 then 1 else 0) \<noteq> (0 :: int)} = {y. mu y > 0}" by auto
    then show ?thesis by (simp add: bag_result_def set_result_def Let_def)
  qed
  have tot: "total_at ?N red (k, [w]) t = of_bool (set_result SUM_fn mu = Some w)" if "\<And>y. total_at ?N c (k, [y]) t = mu y" for k w t mu
  proof -
    have "total_at ?N ?c (k, [y]) t = (if mu y > 0 then 1 else 0)" for y using that by (simp add: distinct_lawD(1)[OF dist])
    from group_resultsD(2)[OF red(2) this, of w] show ?thesis by (simp add: same)
  qed
  have "group_results L set_result SUM_fn n c red" by (rule group_resultsI[OF group_resultsD(1)[OF red(2)]], rule tot)
  then show ?thesis using red(1) prep True by (simp add: set_aggregate_one_def)
next
  case False
  have laws': "reduce_law (nested_ops L) (reduce_value agg)" "reduce_law (nested_ops L) (reduce_length agg)"
    using laws(2) by (simp_all add: set_agg_laws_def)
  have f': "f \<in> {MIN_fn, MAX_fn, MEDIAN, COUNT}" using f False by (simp add: covered_def)
  have none: "set_result f mu = None" if "{y. mu y \<noteq> 0} = {}" "f \<in> {MIN_fn, MAX_fn, MEDIAN, COUNT}" for f mu
    using that by (auto simp: set_result_def Let_def)
  note single = reduce_results[OF laws'(1) rec keys none, where h = "\<lambda>x. x"]
  have "group_results L set_result MIN_fn n c (coll_map (\<lambda>(k, x). (k, [x])) (reduce_value agg set_min_closure c))"
    "group_results L set_result MAX_fn n c (coll_map (\<lambda>(k, x). (k, [x])) (reduce_value agg set_max_closure c))"
    "group_results L set_result MEDIAN n c (coll_map (\<lambda>(k, x). (k, [x])) (reduce_value agg set_median_closure c))"
    by (rule single; (rule closure_results; assumption | assumption | simp))+
  moreover have "group_results L set_result COUNT n c
      (coll_map (\<lambda>(k, x). (k, [Number (of_nat x)])) (reduce_length agg set_count_closure c))"
    by (rule reduce_results[OF laws'(2) rec keys none]; (rule closure_results; assumption | assumption | simp))
  ultimately show ?thesis using f' unfolding set_aggregate_one_def prep by (elim insertE emptyE) simp_all
qed

lemma bag_one_results:
  assumes laws: "ops_laws L ops" "count_law (nested_ops L) (count_sum agg)" and prep: "coll_map_run (prepare_unary 0 0) tuples = Inr c"
    and rec: "snd ` fst ` set c \<subseteq> range (\<lambda>y. [y])" and keys: "\<And>k v. (k, v) \<in> fst ` set c \<Longrightarrow> length k = n"
    and f: "covered f c"
  shows "\<exists>red. aggregate_one ops agg 0 tuples 0 f = Inr red \<and> group_results L bag_result f n c red"
proof (cases "f = SUM_fn")
  case True
  then show ?thesis using sum_results[OF laws(2) _ keys] f prep by (auto simp: covered_def aggregate_one_def)
next
  case False
  have f': "f \<in> {MIN_fn, MAX_fn, MEDIAN, COUNT}" using f False by (simp add: covered_def)
  note law = ops_lawsD(7)[OF laws(1)]
  have tot: "total_at (nested_ops L) (reduce_pairs ops (reduce_closure f) c) (k, [w]) t = of_bool (bag_result f mu = Some w)"
    if "\<And>y. total_at (nested_ops L) c (k, [y]) t = mu y" for k w t mu
    using total_reduced[OF law f' that rec, of w] f' by (auto simp: bag_result_def Let_def)
  have recs: "fst ` set (reduce_pairs ops (reduce_closure f) c) \<subseteq> {(k, v). length k = n \<and> length v = 1}"
    by (rule reduce_records[OF law _ keys])
       (use f' in \<open>auto simp: min_closure_def max_closure_def median_closure_def count_closure_def\<close>)
  have "group_results L bag_result f n c (reduce_pairs ops (reduce_closure f) c)" by (rule group_resultsI[OF recs], rule tot)
  with aggregate_one_reduce[OF f' prep] show ?thesis by blast
qed

section \<open>The node\<close>

text \<open>A node with one aggregation, whichever implementation: the tuple of every group carries its result.\<close>

lemma aggregate_results:
  assumes den: "denotes L (import_trace ops) dm rel m" and sup: "impl_supports rel keys"
    and sub: "set keys \<subseteq> set (impl_variables rel)" and dist: "distinct keys"
    and rest: "rest_of keys (impl_variables rel) = x # rest"
    and vs: "i \<le> length keys" "vs = take i keys @ x # drop i keys"
    and num: "f \<in> {MIN_fn, MAX_fn, MEDIAN, COUNT} \<or> f = SUM_fn \<and>
      (\<forall>tup \<in> fst ` set (impl_rows (import_trace ops) dm rel). \<exists>n. value_of (impl_variables rel) tup x = Number n)"
    and one: "\<And>tuples c. coll_map_run (prepare_unary 0 0) tuples = Inr c \<Longrightarrow> snd ` fst ` set c \<subseteq> range (\<lambda>y. [y]) \<Longrightarrow>
      (\<And>k v. (k, v) \<in> fst ` set c \<Longrightarrow> length k = length keys) \<Longrightarrow> covered f c \<Longrightarrow>
      \<exists>red. one 0 tuples 0 f = Inr red \<and> group_results L result f (length keys) c red"
  shows "\<exists>rel' h'. aggregate_with ops one dm vs [f] keys [x] [] (rel, h) = Inr (rel', h') \<and> impl_variables rel' = vs \<and>
    denotes L (import_trace ops) dm rel' (\<lambda>t \<sigma>. of_bool (result f (group_mult (set (impl_variables rel)) keys x (m t) \<sigma>) = Some (\<sigma> x)))"
proof -
  let ?vars = "impl_variables rel" and ?rows = "impl_rows (import_trace ops) dm rel"
  let ?prep = "coll_map (\<lambda>tup. (map (value_of ?vars tup) keys, [value_of ?vars tup x])) ?rows"
  have "x \<in> set (rest_of keys ?vars)" unfolding rest by simp
  then have x: "set (keys @ [x]) \<subseteq> set ?vars" "x \<notin> set keys" using sub by auto
  have "covered f ?prep" using num by (auto simp: covered_def numeric_records)
  moreover have "snd ` fst ` set ?prep \<subseteq> range (\<lambda>y. [y])" by auto
  moreover have "length k = length keys" if "(k, v) \<in> fst ` set ?prep" for k v using that by auto
  ultimately obtain red where
    red: "one 0 (coll_map (split_tuple ?vars keys) ?rows) 0 f = Inr red" "group_results L result f (length keys) ?prep red"
    using one[OF prepare_keyed[OF denotes_ok[OF den] rest]] by blast
  show ?thesis
    by (rule aggregate_single[OF den sup sub dist rest vs])
       (rule red(1) group_resultsD(1)[OF red(2)] group_resultsD(2)[OF red(2) total_prepared[OF den x]])+
qed

lemma finite_group:
  assumes "denotes L imp dm rel m" and "set (keys @ [x]) \<subseteq> set (impl_variables rel)" and "x \<notin> set keys"
  shows "finite {y. group_mult (set (impl_variables rel)) keys x (m t) \<sigma> y \<noteq> 0}"
  by (rule group_at_singletons(1)[OF total_prepared[OF assms]]) auto

text \<open>C26: With set semantics an aggregate takes every value of a group once. At every time there is one tuple for each group
  that is not empty, with the least, greatest or middle of its different values, their number, or, for numbers, the sum of those
  that are present, as a 64 bit number, unless that is zero. How often a value occurs makes no difference.\<close>

theorem set_aggregate_exact:
  assumes laws: "ops_laws L ops" "set_agg_laws L agg"
    and den: "denotes L (import_trace ops) dm rel m" and sup: "impl_supports rel keys"
    and sub: "set keys \<subseteq> set (impl_variables rel)" and dist: "distinct keys"
    and rest: "rest_of keys (impl_variables rel) = x # rest"
    and vs: "i \<le> length keys" "vs = take i keys @ x # drop i keys"
    and num: "f \<in> {MIN_fn, MAX_fn, MEDIAN, COUNT} \<or> f = SUM_fn \<and>
      (\<forall>tup \<in> fst ` set (impl_rows (import_trace ops) dm rel). \<exists>n. value_of (impl_variables rel) tup x = Number n)"
  shows "\<exists>rel' h'. set_aggregate_implement ops agg dm vs [f] keys [x] [] (rel, h) = Inr (rel', h') \<and> impl_variables rel' = vs \<and>
    denotes L (import_trace ops) dm rel'
      (\<lambda>t \<sigma>. of_bool (set_result f (group_mult (set (impl_variables rel)) keys x (m t) \<sigma>) = Some (\<sigma> x)))"
  unfolding set_aggregate_implement_def
  by (rule aggregate_results[OF den sup sub dist rest vs num]) (rule set_one_results[OF laws])

definition ref_set_agg :: "u64 set_aggregate_ops" where
  "ref_set_agg =
     \<lparr> sum_ops = ref_agg, reduce_value = ref_reduce (nested_ops u64_ops), reduce_length = ref_reduce (nested_ops u64_ops) \<rparr>"

lemma ref_set_agg_laws: "set_agg_laws u64_ops ref_set_agg"
  by (simp add: set_agg_laws_def ref_set_agg_def ref_agg_def u64_nested_lat.ref_laws(4) u64_nested_lat.ref_count_law)

definition readings :: "u64 tuples" where
  "readings = [([Eid 1, Number 5], (0, 0), 1), ([Eid 1, Number 3], (2, 0), 1)]"

lemma readings_node:
  "denotes u64_ops (import_trace (ref_ops u64_ops)) plan_domain (collection_of [1, 2] readings)
     (\<lambda>t \<sigma>. total_at (nested_ops u64_ops) readings (map \<sigma> [1, 2]) t)"
  "impl_supports (collection_of [1, 2] readings) [1]" "set [1] \<subseteq> set (impl_variables (collection_of [1, 2] readings))" "distinct [1 :: var]"
  "rest_of [1] (impl_variables (collection_of [1, 2] readings)) = 2 # []" "1 \<le> length [1 :: var]" "[1, 2] = take 1 [1] @ 2 # drop 1 [1 :: var]"
  "f \<in> {MIN_fn, MAX_fn, MEDIAN, COUNT} \<or> f = SUM_fn \<and>
     (\<forall>tup \<in> fst ` set (impl_rows (import_trace (ref_ops u64_ops)) plan_domain (collection_of [1, 2] readings)).
        \<exists>n. value_of (impl_variables (collection_of [1, 2] readings)) tup 2 = Number n) \<longleftrightarrow> f \<in> {MIN_fn, MAX_fn, MEDIAN, COUNT, SUM_fn}"
  unfolding denotes_collection by (simp_all add: wf_tuples_def readings_def value_of_def vec_binds_def)

theorem set_aggregate_exact_witness:
  "\<exists>rel' h'. set_aggregate_implement (ref_ops u64_ops) ref_set_agg plan_domain [1, 2] [SUM_fn] [1] [2] []
      (collection_of [1, 2] readings, []) = Inr (rel', h') \<and> impl_variables rel' = [1, 2]"
  using set_aggregate_exact[OF ref_ops_laws ref_set_agg_laws readings_node(1-7), of SUM_fn "[]"] unfolding readings_node(8) by auto

text \<open>C27: The two implementations of aggregation agree on sets: when no value occurs more than once in its group, the nodes built with
  and without set semantics hold the same tuples at every time.\<close>

theorem aggregates_agree:
  assumes laws: "ops_laws L ops" "set_agg_laws L agg"
    and den: "denotes L (import_trace ops) dm rel m" and sup: "impl_supports rel keys"
    and sub: "set keys \<subseteq> set (impl_variables rel)" and dist: "distinct keys"
    and rest: "rest_of keys (impl_variables rel) = x # rest"
    and vs: "i \<le> length keys" "vs = take i keys @ x # drop i keys"
    and num: "f \<in> {MIN_fn, MAX_fn, MEDIAN, COUNT} \<or> f = SUM_fn \<and>
      (\<forall>tup \<in> fst ` set (impl_rows (import_trace ops) dm rel). \<exists>n. value_of (impl_variables rel) tup x = Number n)"
    and once: "\<And>t \<sigma> y. group_mult (set (impl_variables rel)) keys x (m t) \<sigma> y \<in> {0, 1}"
  shows "\<exists>rel1 h1 rel2 h2 m'. aggregate_implement ops (sum_ops agg) dm vs [f] keys [x] [] (rel, h) = Inr (rel1, h1) \<and>
    set_aggregate_implement ops agg dm vs [f] keys [x] [] (rel, h) = Inr (rel2, h2) \<and>
    impl_variables rel1 = vs \<and> impl_variables rel2 = vs \<and>
    denotes L (import_trace ops) dm rel1 m' \<and> denotes L (import_trace ops) dm rel2 m'"
proof -
  let ?m = "\<lambda>result t \<sigma>. of_bool (result f (group_mult (set (impl_variables rel)) keys x (m t) \<sigma>) = Some (\<sigma> x)) :: int"
  note node = aggregate_results[OF den sup sub dist rest vs num, of _ _ h]
  have "x \<in> set (rest_of keys (impl_variables rel))" unfolding rest by simp
  then have x: "x \<in> set (impl_variables rel)" "x \<notin> set keys" by auto
  have count: "count_law (nested_ops L) (count_sum (sum_ops agg))" using laws(2) by (simp add: set_agg_laws_def)
  from node[of "aggregate_one ops (sum_ops agg)" bag_result, OF bag_one_results[OF laws(1) count]] obtain rel1 h1 where
    bag: "aggregate_implement ops (sum_ops agg) dm vs [f] keys [x] [] (rel, h) = Inr (rel1, h1)" "impl_variables rel1 = vs"
      "denotes L (import_trace ops) dm rel1 (?m bag_result)" unfolding aggregate_implement_def by blast
  from node[of "set_aggregate_one ops agg" set_result, OF set_one_results[OF laws]] obtain rel2 h2 where
    set: "set_aggregate_implement ops agg dm vs [f] keys [x] [] (rel, h) = Inr (rel2, h2)" "impl_variables rel2 = vs"
      "denotes L (import_trace ops) dm rel2 (?m set_result)" unfolding set_aggregate_implement_def by blast
  have "bag_result f (group_mult (set (impl_variables rel)) keys x (m t) \<sigma>) =
      set_result f (group_mult (set (impl_variables rel)) keys x (m t) \<sigma>)" for t \<sigma>
    using once num finite_group[OF den, of keys x t \<sigma>] sub x by (intro results_agree) auto
  then have same: "?m bag_result = ?m set_result" by simp
  show ?thesis by (intro exI conjI; rule bag(1,2) set(1,2) set(3) bag(3)[unfolded same])
qed

theorem aggregates_agree_witness:
  "\<exists>rel1 h1 rel2 h2 m'. aggregate_implement (ref_ops u64_ops) ref_agg plan_domain [1, 2] [COUNT] [1] [2] []
      (collection_of [1, 2] readings, []) = Inr (rel1, h1) \<and>
    set_aggregate_implement (ref_ops u64_ops) ref_set_agg plan_domain [1, 2] [COUNT] [1] [2] []
      (collection_of [1, 2] readings, []) = Inr (rel2, h2) \<and>
    denotes u64_ops (import_trace (ref_ops u64_ops)) plan_domain rel1 m' \<and>
    denotes u64_ops (import_trace (ref_ops u64_ops)) plan_domain rel2 m'"
proof -
  have "group_mult (set (impl_variables (collection_of [1, 2] readings))) [1] 2
      (\<lambda>\<sigma>. total_at (nested_ops u64_ops) readings (map \<sigma> [1, 2]) t) \<sigma> y \<in> {0, 1}" for t \<sigma> y
    using total_prepared[OF readings_node(1), of "[1]" 2 \<sigma> y t]
    by (auto simp: readings_def coll_map_def value_of_def vec_binds_def split: if_splits)
  moreover have "sum_ops ref_set_agg = ref_agg" by (simp add: ref_set_agg_def)
  ultimately show ?thesis
    using aggregates_agree[OF ref_ops_laws ref_set_agg_laws readings_node(1-7), of COUNT "[]"] unfolding readings_node(8) by auto
qed

end
