(* ===== verification/Extender_Operators.thy ===== *)
theory Extender_Operators
  imports Collections Values
begin

text \<open>
  The three dataflow operators of \<^verbatim>\<open>CollectionExtender\<close> in \<^verbatim>\<open>src/src/plan/hector.rs\<close>: \<^verbatim>\<open>count\<close>,
  \<^verbatim>\<open>propose\<close> and \<^verbatim>\<open>validate\<close>. Each stashes its requests under their capability and answers those at
  complete times from a trace, walking it with one forward cursor over the sorted requests.

  An activation of the operator is one call of its closure: the batches of the first input, the upper
  frontiers of the batches of the second, both input frontiers and what the cursor of the trace sees.
  The stash is a hash map; its iteration order only permutes the outputs, which the theorems count as
  multisets.
\<close>

section \<open>Cursors\<close>

type_synonym ('k, 'v, 't) storage = "('k \<times> ('v \<times> ('t \<times> int) list) list) list"

definition seek_key :: "'k::linorder \<Rightarrow> ('k, 'v, 't) storage \<Rightarrow> ('k, 'v, 't) storage" where
  "seek_key k cursor = dropWhile (\<lambda>(k', _). k' < k) cursor"

fun get_key :: "('k, 'v, 't) storage \<Rightarrow> 'k option" where
  "get_key [] = None"
| "get_key ((k, vs) # _) = Some k"

fun cursor_vals :: "('k, 'v, 't) storage \<Rightarrow> ('v \<times> ('t \<times> int) list) list" where
  "cursor_vals [] = []"
| "cursor_vals ((k, vs) # _) = vs"

text \<open>The closure passed to \<^verbatim>\<open>map_times\<close> sums the differences at or before a time.\<close>

definition count_times :: "'t lattice_ops \<Rightarrow> 't \<Rightarrow> ('t \<times> int) list \<Rightarrow> int" where
  "count_times L time ts = (\<Sum>(t, d) \<leftarrow> ts. if less_equal L t time then d else 0)"

text \<open>\<^verbatim>\<open>count as usize\<close>.\<close>

definition as_usize :: "int \<Rightarrow> usize" where
  "as_usize c = nat (c mod 2 ^ 64)"

section \<open>Answers to a request\<close>

definition count_answer ::
  "'t lattice_ops \<Rightarrow> usize \<Rightarrow> 'p \<times> usize \<times> usize \<Rightarrow> 't \<Rightarrow> int \<Rightarrow> ('v \<times> ('t \<times> int) list) list \<Rightarrow>
   ('p \<times> usize \<times> usize, 't) collection" where
  "count_answer L index r time diff vals =
     (case r of (prefix, old_count, old_index) \<Rightarrow>
        let count = as_usize (case vals of [] \<Rightarrow> 0 | (_, ts) # _ \<Rightarrow> count_times L time ts)
        in if count > 0
           then if count < old_count then [((prefix, count, index), time, diff)]
                else [((prefix, old_count, old_index), time, diff)]
           else [])"

definition propose_answer ::
  "'t lattice_ops \<Rightarrow> 'p \<Rightarrow> 't \<Rightarrow> int \<Rightarrow> ('v \<times> ('t \<times> int) list) list \<Rightarrow> ('p \<times> 'v, 't) collection" where
  "propose_answer L prefix time diff vals =
     concat (map (\<lambda>(v, ts). if count_times L time ts > 0 then [((prefix, v), time, diff)] else []) vals)"

definition validate_answer ::
  "'t lattice_ops \<Rightarrow> 'p \<times> 'v \<Rightarrow> 't \<Rightarrow> int \<Rightarrow> ('u \<times> ('t \<times> int) list) list \<Rightarrow>
   ('p \<times> 'v, 't) collection" where
  "validate_answer L prefix time diff vals =
     (let count = (case vals of [] \<Rightarrow> 0 | (_, ts) # _ \<Rightarrow> count_times L time ts)
      in if count > 0 then [(prefix, time, diff)] else [])"

section \<open>One activation\<close>

record ('r, 't) operator_state =
  stash :: "('t \<times> ('r, 't) update list) list"
  trace_handle :: "('t list \<times> 't list) option"

record ('r, 'k, 'v, 't) activation =
  input1 :: "('t \<times> ('r, 't) update list) list"
  uppers :: "'t list list"
  frontier1 :: "'t list"
  frontier2 :: "'t list"
  storage :: "('k, 'v, 't) storage"

fun stash_request ::
  "'t \<times> ('r, 't) update list \<Rightarrow> ('t \<times> ('r, 't) update list) list \<Rightarrow>
   ('t \<times> ('r, 't) update list) list" where
  "stash_request (cap, data) [] = [(cap, data)]"
| "stash_request (cap, data) ((c, reqs) # st) =
     (if c = cap then (c, reqs @ data) # st else (c, reqs) # stash_request (cap, data) st)"

text \<open>The loop over the sorted requests of one capability: its outputs and the requests with their
  difference set to zero once answered.\<close>

fun process_requests ::
  "'t lattice_ops \<Rightarrow> 't list \<Rightarrow> ('r \<Rightarrow> 'k::linorder) \<Rightarrow>
   ('r \<Rightarrow> 't \<Rightarrow> int \<Rightarrow> ('v \<times> ('t \<times> int) list) list \<Rightarrow> ('o, 't) collection) \<Rightarrow>
   ('k, 'v, 't) storage \<Rightarrow> ('r, 't) update list \<Rightarrow> ('o, 't) collection \<times> ('r, 't) update list" where
  "process_requests L frontier key answer cursor [] = ([], [])"
| "process_requests L frontier key answer cursor ((r, time, diff) # reqs) =
     (if \<not> frontier_le L frontier time then
        let cursor' = seek_key (key r) cursor;
            out = (if get_key cursor' = Some (key r)
                   then answer r time diff (cursor_vals cursor') else []);
            rest = process_requests L frontier key answer cursor' reqs
        in (out @ fst rest, (r, time, 0) # snd rest)
      else
        let rest = process_requests L frontier key answer cursor reqs
        in (fst rest, (r, time, diff) # snd rest))"

definition visit_entry ::
  "'t lattice_ops \<Rightarrow> 't list \<Rightarrow> ('r \<Rightarrow> 'k::linorder) \<Rightarrow>
   ('r \<Rightarrow> 't \<Rightarrow> int \<Rightarrow> ('v \<times> ('t \<times> int) list) list \<Rightarrow> ('o, 't) collection) \<Rightarrow>
   ('k, 'v, 't) storage \<Rightarrow> 't \<times> ('r, 't) update list \<Rightarrow>
   ('t \<times> ('o, 't) collection) list \<times> ('t \<times> ('r, 't) update list)" where
  "visit_entry L frontier key answer st entry =
     (case entry of (cap, reqs) \<Rightarrow>
        if \<not> frontier_le L frontier cap then
          let sorted_reqs = sort_key (\<lambda>req. key (fst req)) reqs;
              res = process_requests L frontier key answer st sorted_reqs
          in ([(cap, fst res)], (cap, filter (\<lambda>(r, t, d). d \<noteq> 0) (snd res)))
        else ([], (cap, reqs)))"

definition operator_step ::
  "'t lattice_ops \<Rightarrow> ('r \<Rightarrow> 'k::linorder) \<Rightarrow>
   ('r \<Rightarrow> 't \<Rightarrow> int \<Rightarrow> ('v \<times> ('t \<times> int) list) list \<Rightarrow> ('o, 't) collection) \<Rightarrow>
   ('r, 'k, 'v, 't) activation \<Rightarrow> ('r, 't) operator_state \<Rightarrow>
   ('t \<times> ('o, 't) collection) list \<times> ('r, 't) operator_state" where
  "operator_step L key answer act st =
     (let stash1 = fold stash_request (input1 act) (stash st);
          handle1 = fold (\<lambda>u h. map_option (\<lambda>(a, _). (a, u)) h) (uppers act) (trace_handle st);
          visited = (case handle1 of
                       None \<Rightarrow> map (\<lambda>e. ([], e)) stash1
                     | Some _ \<Rightarrow> map (visit_entry L (frontier2 act) key answer (storage act)) stash1);
          stash2 = filter (\<lambda>(cap, reqs). reqs \<noteq> []) (map snd visited);
          handle2 = map_option (\<lambda>(_, d). (frontier1 act, d)) handle1;
          handle3 = (if frontier1 act = [] \<and> stash2 = [] then None else handle2)
      in (concat (map fst visited), \<lparr> stash = stash2, trace_handle = handle3 \<rparr>))"

text \<open>The operators of the three methods. The key of a validation is the key of the prefix together
  with the proposed extension.\<close>

definition count_step ::
  "'t lattice_ops \<Rightarrow> ('p \<Rightarrow> 'k::linorder) \<Rightarrow> usize \<Rightarrow>
   ('p \<times> usize \<times> usize, 'k, unit, 't) activation \<Rightarrow> ('p \<times> usize \<times> usize, 't) operator_state \<Rightarrow>
   ('t \<times> ('p \<times> usize \<times> usize, 't) collection) list \<times> ('p \<times> usize \<times> usize, 't) operator_state" where
  "count_step L key_selector index =
     operator_step L (\<lambda>(prefix, _, _). key_selector prefix) (count_answer L index)"

definition propose_step ::
  "'t lattice_ops \<Rightarrow> ('p \<Rightarrow> 'k::linorder) \<Rightarrow> ('p, 'k, 'v, 't) activation \<Rightarrow> ('p, 't) operator_state \<Rightarrow>
   ('t \<times> ('p \<times> 'v, 't) collection) list \<times> ('p, 't) operator_state" where
  "propose_step L key_selector = operator_step L key_selector (propose_answer L)"

definition validate_step ::
  "'t lattice_ops \<Rightarrow> ('p \<Rightarrow> 'k::linorder) \<Rightarrow>
   ('p \<times> 'v::linorder, 'k \<times> 'v, unit, 't) activation \<Rightarrow> ('p \<times> 'v, 't) operator_state \<Rightarrow>
   ('t \<times> ('p \<times> 'v, 't) collection) list \<times> ('p \<times> 'v, 't) operator_state" where
  "validate_step L key_selector =
     operator_step L (\<lambda>(prefix, ext). (key_selector prefix, ext)) (validate_answer L)"

section \<open>Cursor traversal\<close>

definition sorted_storage :: "('k::linorder, 'v, 't) storage \<Rightarrow> bool" where
  "sorted_storage st \<longleftrightarrow> sorted_wrt (<) (map fst st)"

text \<open>The answer a request gets from a look-up of its key.\<close>

definition respond ::
  "('r \<Rightarrow> 'k) \<Rightarrow> ('r \<Rightarrow> 't \<Rightarrow> int \<Rightarrow> ('v \<times> ('t \<times> int) list) list \<Rightarrow> ('o, 't) collection) \<Rightarrow>
   ('k, 'v, 't) storage \<Rightarrow> ('r, 't) update \<Rightarrow> ('o, 't) collection" where
  "respond key answer st req =
     (case req of (r, t, d) \<Rightarrow> (case map_of st (key r) of None \<Rightarrow> [] | Some vs \<Rightarrow> answer r t d vs))"

lemma seek_seek: "k \<le> k' \<Longrightarrow> seek_key k' (seek_key k c) = seek_key k' c"
  by (induction c) (auto simp: seek_key_def)

lemma seek_lookup:
  assumes "sorted_storage st"
  shows "(if get_key (seek_key k st) = Some k then f (cursor_vals (seek_key k st)) else d) =
    (case map_of st k of None \<Rightarrow> d | Some vs \<Rightarrow> f vs)"
  using assms
proof (induction st)
  case Nil
  then show ?case by (simp add: seek_key_def)
next
  case (Cons e st)
  obtain k' vs where e: "e = (k', vs)" by fastforce
  have tl: "sorted_storage st" and low: "\<And>x. x \<in> set (map fst st) \<Longrightarrow> k' < x"
    using Cons.prems by (auto simp: sorted_storage_def e)
  show ?case
  proof (cases "k' < k")
    case True
    then show ?thesis using Cons.IH[OF tl] by (auto simp: e seek_key_def)
  next
    case False
    then have "k' = k \<or> map_of st k = None"
      using low[of k] by (auto simp: map_of_eq_None_iff)
    with False show ?thesis by (auto simp: e seek_key_def)
  qed
qed

lemma process_requests_spec:
  assumes st: "sorted_storage st"
  shows "sorted (map (\<lambda>req. key (fst req)) reqs) \<Longrightarrow>
    (\<And>r t d. (r, t, d) \<in> set reqs \<Longrightarrow> seek_key (key r) cursor = seek_key (key r) st) \<Longrightarrow>
    process_requests L F key answer cursor reqs =
      (concat (map (respond key answer st) (filter (\<lambda>(r, t, d). \<not> frontier_le L F t) reqs)),
       map (\<lambda>(r, t, d). (r, t, if frontier_le L F t then d else 0)) reqs)"
proof (induction reqs arbitrary: cursor)
  case Nil
  then show ?case by simp
next
  case (Cons req reqs)
  obtain r t d where req: "req = (r, t, d)" by (metis prod_cases3)
  have seek: "seek_key (key r) cursor = seek_key (key r) st" using Cons.prems(2) req by auto
  have later: "seek_key (key r') (seek_key (key r) cursor) = seek_key (key r') st"
    if "(r', t', d') \<in> set reqs" for r' t' d'
  proof -
    have "key r \<le> key r'" using Cons.prems(1) that req by force
    then show ?thesis using Cons.prems(2)[of r' t' d'] that by (simp add: seek_seek)
  qed
  have srt: "sorted (map (\<lambda>req. key (fst req)) reqs)" using Cons.prems(1) by simp
  let ?res = "(concat (map (respond key answer st) (filter (\<lambda>(r, t, d). \<not> frontier_le L F t) reqs)),
       map (\<lambda>(r, t, d). (r, t, if frontier_le L F t then d else 0)) reqs)"
  have IH1: "process_requests L F key answer (seek_key (key r) cursor) reqs = ?res"
    using later by (intro Cons.IH[OF srt]) blast
  have IH2: "process_requests L F key answer cursor reqs = ?res"
    using Cons.prems(2) by (intro Cons.IH[OF srt]) auto
  have out: "(if get_key (seek_key (key r) cursor) = Some (key r)
      then answer r t d (cursor_vals (seek_key (key r) cursor)) else []) = respond key answer st (r, t, d)"
    unfolding seek using seek_lookup[OF st, of "key r" "answer r t d" "[]"] by (simp add: respond_def)
  show ?case
    by (simp add: req Let_def IH1 IH2 out del: if_split)
qed

section \<open>What an activation does\<close>

definition requests :: "('t \<times> ('r, 't) update list) list \<Rightarrow> ('r, 't) update list" where
  "requests st = concat (map snd st)"

text \<open>Requests are no earlier than the capability they are stashed under and carry a difference.\<close>

definition wf_requests :: "'t lattice_ops \<Rightarrow> ('t \<times> ('r, 't) update list) list \<Rightarrow> bool" where
  "wf_requests L st \<longleftrightarrow>
     (\<forall>(cap, reqs) \<in> set st. \<forall>(r, t, d) \<in> set reqs. less_equal L cap t \<and> d \<noteq> 0)"

lemma requests_simps [simp]:
  "requests [] = []" "requests (e # st) = snd e @ requests st"
  by (simp_all add: requests_def)

lemma requests_append [simp]: "requests (xs @ ys) = requests xs @ requests ys"
  by (simp add: requests_def)

lemma requests_drop_empty [simp]: "requests (filter (\<lambda>(cap, reqs). reqs \<noteq> []) es) = requests es"
  by (induction es) auto

lemma fold_handle_open: "h \<noteq> None \<Longrightarrow> fold (\<lambda>u h. map_option (\<lambda>(a, _). (a, u)) h) us h \<noteq> None"
  by (induction us arbitrary: h) auto

lemma wf_requests_Cons [simp]:
  "wf_requests L ((cap, reqs) # st) \<longleftrightarrow>
     (\<forall>(r, t, d) \<in> set reqs. less_equal L cap t \<and> d \<noteq> 0) \<and> wf_requests L st"
  by (auto simp: wf_requests_def)

lemma stash_request_mset: "mset (requests (stash_request e st)) = mset (snd e) + mset (requests st)"
  by (induction e st rule: stash_request.induct) auto

lemma stash_request_wf:
  "wf_requests L [e] \<Longrightarrow> wf_requests L st \<Longrightarrow> wf_requests L (stash_request e st)"
  by (induction e st rule: stash_request.induct) (auto simp: wf_requests_def)

lemma fold_stash_mset:
  "mset (requests (fold stash_request es st)) = mset (requests es) + mset (requests st)"
  by (induction es arbitrary: st) (auto simp: stash_request_mset)

lemma fold_stash_wf:
  "wf_requests L es \<Longrightarrow> wf_requests L st \<Longrightarrow> wf_requests L (fold stash_request es st)"
proof (induction es arbitrary: st)
  case Nil
  then show ?case by simp
next
  case (Cons e es)
  moreover have "wf_requests L [e]" "wf_requests L es" using Cons.prems(1) by (auto simp: wf_requests_def)
  ultimately show ?case by (simp add: stash_request_wf)
qed

context time_lattice
begin

lemma visit_entry_spec:
  assumes st: "sorted_storage st" and wf: "\<forall>(r, t, d) \<in> set reqs. less_equal L cap t \<and> d \<noteq> 0"
    and visit: "visit_entry L F key answer st (cap, reqs) = (outs, (cap', reqs'))"
  shows "cap' = cap"
    and "mset reqs' = filter_mset (\<lambda>(r, t, d). frontier_le L F t) (mset reqs)"
    and "mset (requests outs) =
      mset (concat (map (respond key answer st) (filter (\<lambda>(r, t, d). \<not> frontier_le L F t) reqs)))"
    and "fst ` set outs \<subseteq> {cap}"
proof -
  let ?reqs = "sort_key (\<lambda>req. key (fst req)) reqs"
  have spec: "process_requests L F key answer st ?reqs =
      (concat (map (respond key answer st) (filter (\<lambda>(r, t, d). \<not> frontier_le L F t) ?reqs)),
       map (\<lambda>(r, t, d). (r, t, if frontier_le L F t then d else 0)) ?reqs)"
    by (rule process_requests_spec[OF st]) auto
  have keep: "filter (\<lambda>(r, t, d). d \<noteq> 0) (map (\<lambda>(r, t, d). (r, t, if frontier_le L F t then d else 0)) xs) =
      filter (\<lambda>(r, t, d). frontier_le L F t) xs" if "set xs \<subseteq> set reqs" for xs
    using that wf by (induction xs) (auto split: if_splits)
  have perm: "mset (concat (map (respond key answer st) (filter P ?reqs))) =
      mset (concat (map (respond key answer st) (filter P reqs)))" for P
    by (simp add: mset_concat flip: sum_mset_sum_list)
  have late: "frontier_le L F t" if "frontier_le L F cap" "(r, t, d) \<in> set reqs" for r t d
    using that wf frontier_le_trans by fastforce
  show "cap' = cap" "fst ` set outs \<subseteq> {cap}"
    using visit by (auto simp: visit_entry_def Let_def split: if_splits)
  show "mset reqs' = filter_mset (\<lambda>(r, t, d). frontier_le L F t) (mset reqs)"
  proof (cases "frontier_le L F cap")
    case True
    then have "filter (\<lambda>(r, t, d). frontier_le L F t) reqs = reqs"
      using late by (intro filter_True) auto
    with True visit show ?thesis by (simp add: visit_entry_def flip: mset_filter)
  next
    case False
    with visit keep[of ?reqs] have "reqs' = filter (\<lambda>(r, t, d). frontier_le L F t) ?reqs"
      by (auto simp: visit_entry_def Let_def spec)
    then show ?thesis by simp
  qed
  show "mset (requests outs) =
      mset (concat (map (respond key answer st) (filter (\<lambda>(r, t, d). \<not> frontier_le L F t) reqs)))"
  proof (cases "frontier_le L F cap")
    case True
    then have "filter (\<lambda>(r, t, d). \<not> frontier_le L F t) reqs = []"
      using late by (intro filter_False) auto
    with True visit show ?thesis by (simp add: visit_entry_def)
  next
    case False
    with visit perm show ?thesis by (auto simp: visit_entry_def Let_def spec)
  qed
qed

lemma visit_all_spec:
  assumes st: "sorted_storage st" and "wf_requests L es"
  shows "mset (requests (map snd (map (visit_entry L F key answer st) es))) =
      filter_mset (\<lambda>(r, t, d). frontier_le L F t) (mset (requests es)) \<and>
    mset (requests (concat (map fst (map (visit_entry L F key answer st) es)))) =
      mset (concat (map (respond key answer st) (filter (\<lambda>(r, t, d). \<not> frontier_le L F t) (requests es))))"
  using assms(2)
proof (induction es)
  case Nil
  then show ?case by simp
next
  case (Cons e es)
  obtain cap reqs where e: "e = (cap, reqs)" by fastforce
  obtain outs cap' reqs' where v: "visit_entry L F key answer st (cap, reqs) = (outs, (cap', reqs'))"
    by (metis prod_cases3)
  from Cons.prems have wf: "\<forall>(r, t, d) \<in> set reqs. less_equal L cap t \<and> d \<noteq> 0" "wf_requests L es"
    by (simp_all add: e)
  note spec = visit_entry_spec[OF st wf(1) v]
  from Cons.IH[OF wf(2)] spec(2,3) show ?case by (simp add: e v)
qed

lemma operator_step_spec:
  assumes st: "sorted_storage (storage act)" and "wf_requests L (stash s)" and "wf_requests L (input1 act)"
    and open_handle: "trace_handle s \<noteq> None"
    and step: "operator_step L key answer act s = (outs, s')"
  shows "mset (requests (stash s')) = filter_mset (\<lambda>(r, t, d). frontier_le L (frontier2 act) t)
      (mset (requests (stash s) @ requests (input1 act)))"
    and "mset (requests outs) = (\<Sum>req \<in># filter_mset (\<lambda>(r, t, d). \<not> frontier_le L (frontier2 act) t)
      (mset (requests (stash s) @ requests (input1 act))). mset (respond key answer (storage act) req))"
proof -
  let ?stash1 = "fold stash_request (input1 act) (stash s)"
  let ?visited = "map (visit_entry L (frontier2 act) key answer (storage act)) ?stash1"
  from fold_handle_open[OF open_handle, of "uppers act"] step
  have s': "stash s' = filter (\<lambda>(cap, reqs). reqs \<noteq> []) (map snd ?visited)"
    and outs: "outs = concat (map fst ?visited)"
    by (auto simp: operator_step_def Let_def)
  have wf: "wf_requests L ?stash1" using assms(2,3) by (rule fold_stash_wf[rotated])
  note spec = visit_all_spec[OF st wf, of "frontier2 act" key answer]
  have all: "mset (requests ?stash1) = mset (requests (stash s) @ requests (input1 act))"
    by (simp add: fold_stash_mset)
  show "mset (requests (stash s')) = filter_mset (\<lambda>(r, t, d). frontier_le L (frontier2 act) t)
      (mset (requests (stash s) @ requests (input1 act)))"
    unfolding s' requests_drop_empty using spec all by simp
  have "mset (requests outs) = (\<Sum>req \<in># filter_mset (\<lambda>(r, t, d). \<not> frontier_le L (frontier2 act) t)
      (mset (requests ?stash1)). mset (respond key answer (storage act) req))"
    unfolding outs using spec
    by (simp add: mset_concat multiset.map_comp comp_def flip: sum_mset_sum_list mset_filter mset_map)
  then show "mset (requests outs) = (\<Sum>req \<in># filter_mset (\<lambda>(r, t, d). \<not> frontier_le L (frontier2 act) t)
      (mset (requests (stash s) @ requests (input1 act))). mset (respond key answer (storage act) req))"
    unfolding all .
qed

end

section \<open>Properties\<close>

lemma answers_keep_time:
  "u \<in> set (count_answer L i r t d vs) \<Longrightarrow> fst (snd u) = t"
  "u' \<in> set (propose_answer L p t d ws) \<Longrightarrow> fst (snd u') = t"
  "u'' \<in> set (validate_answer L q t d xs) \<Longrightarrow> fst (snd u'') = t"
  by (auto simp: count_answer_def propose_answer_def validate_answer_def Let_def
      split: prod.splits if_splits)

text \<open>An activation of the propose operator answers exactly the stashed and arriving requests whose
  time is complete in the trace, each once and each with the extensions a look-up of its key gives,
  although it walks the trace with a single forward cursor; exactly the requests at incomplete times
  stay stashed.\<close>

theorem propose_step_exact:
  assumes "time_lattice L" and "sorted_storage (storage act)" and "wf_requests L (stash s)"
    and "wf_requests L (input1 act)" and "trace_handle s \<noteq> None"
    and "propose_step L key_selector act s = (outs, s')"
  shows "mset (requests (stash s')) = filter_mset (\<lambda>(p, t, d). frontier_le L (frontier2 act) t)
      (mset (requests (stash s) @ requests (input1 act))) \<and>
    mset (requests outs) = (\<Sum>req \<in># filter_mset (\<lambda>(p, t, d). \<not> frontier_le L (frontier2 act) t)
      (mset (requests (stash s) @ requests (input1 act))).
        mset (respond key_selector (propose_answer L) (storage act) req))"
  by (intro conjI time_lattice.operator_step_spec[OF assms(1-5) assms(6)[unfolded propose_step_def]])

definition demo_activation :: "(nat, nat, nat, u64) activation" where
  "demo_activation =
     \<lparr> input1 = [(2, [(7, 2, 1), (5, 9, 1)])], uppers = [], frontier1 = [3], frontier2 = [4],
       storage = [(5, [(1, [(0, 1)])]), (7, [(50, [(0, 1)]), (51, [(3, 1)])])] \<rparr>"

theorem propose_step_exact_witness:
  "propose_step u64_ops id demo_activation \<lparr> stash = [], trace_handle = Some ([], []) \<rparr> =
     ([(2, [((7, 50), 2, 1)])], \<lparr> stash = [(2, [(5, 9, 1)])], trace_handle = Some ([3], []) \<rparr>) \<and>
   mset (requests [(2 :: u64, [(5 :: nat, 9 :: u64, 1 :: int)])]) =
     filter_mset (\<lambda>(p, t, d). frontier_le u64_ops [4] t) (mset [(7, 2, 1), (5, 9, 1)])"
proof -
  have step: "propose_step u64_ops id demo_activation \<lparr> stash = [], trace_handle = Some ([], []) \<rparr> =
     ([(2, [((7, 50), 2, 1)])], \<lparr> stash = [(2, [(5, 9, 1)])], trace_handle = Some ([3], []) \<rparr>)"
    by (simp add: propose_step_def operator_step_def demo_activation_def visit_entry_def
        frontier_le_def total_ops_def seek_key_def propose_answer_def count_times_def)
  have "sorted_storage (storage demo_activation)" "wf_requests u64_ops (input1 demo_activation)"
    by (simp_all add: sorted_storage_def demo_activation_def wf_requests_def total_ops_def)
  then show ?thesis
    using propose_step_exact[OF u64_lat.time_lattice_axioms _ _ _ _ step] step
    by (simp add: wf_requests_def demo_activation_def requests_def)
qed

text \<open>An activation of the validate operator keeps an arriving or stashed proposal at a complete
  time exactly when the look-up of its key together with its extension has a positive count at that
  time, drops the other complete ones and keeps the incomplete ones stashed.\<close>

theorem validate_step_exact:
  assumes "time_lattice L" and "sorted_storage (storage act)" and "wf_requests L (stash s)"
    and "wf_requests L (input1 act)" and "trace_handle s \<noteq> None"
    and "validate_step L key_selector act s = (outs, s')"
    and "\<And>k vs. (k, vs) \<in> set (storage act) \<Longrightarrow> \<exists>ts. vs = [((), ts)]"
  shows "mset (requests (stash s')) = filter_mset (\<lambda>(p, t, d). frontier_le L (frontier2 act) t)
      (mset (requests (stash s) @ requests (input1 act))) \<and>
    mset (requests outs) = filter_mset (\<lambda>((p, v), t, d). \<not> frontier_le L (frontier2 act) t \<and>
        (\<exists>ts. map_of (storage act) (key_selector p, v) = Some [((), ts)] \<and> 0 < count_times L t ts))
      (mset (requests (stash s) @ requests (input1 act)))"
proof -
  let ?key = "\<lambda>(p, v). (key_selector p, v)"
  let ?R = "mset (requests (stash s) @ requests (input1 act))"
  have one: "mset (respond ?key (validate_answer L) (storage act) ((p, v), t, d)) =
      (if \<exists>ts. map_of (storage act) (key_selector p, v) = Some [((), ts)] \<and> 0 < count_times L t ts
       then {#((p, v), t, d)#} else {#})" for p v t d
  proof (cases "map_of (storage act) (key_selector p, v)")
    case None
    then show ?thesis by (simp add: respond_def)
  next
    case (Some vs)
    with assms(7)[OF map_of_SomeD[OF Some]] show ?thesis
      by (auto simp: respond_def validate_answer_def)
  qed
  have sum: "(\<Sum>req \<in># M. mset (respond ?key (validate_answer L) (storage act) req)) =
      filter_mset (\<lambda>((p, v), t, d).
        \<exists>ts. map_of (storage act) (key_selector p, v) = Some [((), ts)] \<and> 0 < count_times L t ts) M" for M
    proof (induction M)
    case empty
    then show ?case by simp
  next
    case (add req M)
    obtain p v t d where "req = ((p, v), t, d)" by (metis prod.exhaust)
    then show ?case using add by (simp add: one del: mset_append)
  qed
  note spec = time_lattice.operator_step_spec[OF assms(1-5) assms(6)[unfolded validate_step_def]]
  show ?thesis
  proof
    show "mset (requests (stash s')) = filter_mset (\<lambda>(p, t, d). frontier_le L (frontier2 act) t) ?R"
      by (rule spec(1))
    show "mset (requests outs) = filter_mset (\<lambda>((p, v), t, d). \<not> frontier_le L (frontier2 act) t \<and>
        (\<exists>ts. map_of (storage act) (key_selector p, v) = Some [((), ts)] \<and> 0 < count_times L t ts)) ?R"
      unfolding spec(2) sum filter_filter_mset
      by (rule filter_mset_cong) (auto split: prod.splits)
  qed
qed

definition demo_validation :: "(nat \<times> nat, nat \<times> nat, unit, u64) activation" where
  "demo_validation =
     \<lparr> input1 = [(2, [((7, 51), 2, 1), ((7, 50), 2, 1)])], uppers = [], frontier1 = [], frontier2 = [],
       storage = [((7, 50), [((), [(0, 1)])]), ((7, 51), [((), [(0, 1), (1, - 1)])])] \<rparr>"

theorem validate_step_exact_witness:
  "validate_step u64_ops id demo_validation \<lparr> stash = [], trace_handle = Some ([], []) \<rparr> =
     ([(2, [((7, 50), 2, 1)])], \<lparr> stash = [], trace_handle = None \<rparr>) \<and>
   mset (requests (stash \<lparr> stash = ([] :: (u64 \<times> (nat \<times> nat, u64) update list) list),
     trace_handle = None \<rparr>)) = {#}"
proof -
  have step: "validate_step u64_ops id demo_validation \<lparr> stash = [], trace_handle = Some ([], []) \<rparr> =
     ([(2, [((7, 50), 2, 1)])], \<lparr> stash = [], trace_handle = None \<rparr>)"
    by (simp add: validate_step_def operator_step_def demo_validation_def visit_entry_def
        frontier_le_def total_ops_def seek_key_def validate_answer_def count_times_def)
  have "sorted_storage (storage demo_validation)" "wf_requests u64_ops (input1 demo_validation)"
    "\<And>k vs. (k, vs) \<in> set (storage demo_validation) \<Longrightarrow> \<exists>ts. vs = [((), ts)]"
    by (auto simp: sorted_storage_def demo_validation_def wf_requests_def total_ops_def)
  then show ?thesis
    using validate_step_exact[OF u64_lat.time_lattice_axioms _ _ _ _ step] step
    by (simp add: wf_requests_def)
qed

end
