(* ===== verification/Plan_Order.thy ===== *)
theory Plan_Order
  imports Bindings
begin

text \<open>
  The variable order of a delta query, from \<^verbatim>\<open>src/src/plan/hector.rs\<close>: \<^verbatim>\<open>direction\<close>,
  \<^verbatim>\<open>source_conflicts\<close> and \<^verbatim>\<open>plan_order\<close>.

  The loop of \<^verbatim>\<open>plan_order\<close> need not end, so it is a partial function whose value \<open>None\<close> means that
  it never returns; panics are inside that option. The theorems show that it returns a complete
  order, each variable reached from the earlier ones by a binding, whenever the bindings are connected
  through the source, and that it runs forever on a small unconnected query.
\<close>

section \<open>Direction of an extension\<close>

datatype direction = DirForward usize | DirReverse usize

definition direction :: "prefix \<Rightarrow> var \<times> var \<Rightarrow> string + direction" where
  "direction prefix vs =
     (case prefix (fst vs) of
        None \<Rightarrow> (case prefix (snd vs) of
                  None \<Rightarrow> Inl ''Neither extender variable bound by prefix.''
                | Some offset \<Rightarrow> Inr (DirReverse offset))
      | Some offset \<Rightarrow> (case prefix (snd vs) of
                  Some _ \<Rightarrow> Inl ''Both extender variables already bound by prefix.''
                | None \<Rightarrow> Inr (DirForward offset)))"

section \<open>Conflicts with the source\<close>

definition enumerated :: "'a list \<Rightarrow> (usize \<times> 'a) list" where
  "enumerated xs = enumerate 0 xs"

definition source_conflicts :: "usize \<Rightarrow> 'a binding list \<Rightarrow> 'a binding list run" where
  "source_conflicts source_index bindings =
     run_bind (vec_index bindings source_index) (\<lambda>b.
       case b of
         Attribute source \<Rightarrow>
           let prefix_0 = vec_binds [fst (ab_variables source)];
               prefix_1 = vec_binds [snd (ab_variables source)]
           in Inr (map snd (filter (\<lambda>(index, binding).
                 index \<noteq> source_index \<and>
                 (can_extend binding prefix_0 (snd (ab_variables source)) \<or>
                  can_extend binding prefix_1 (fst (ab_variables source))))
               (enumerated bindings)))
       | _ \<Rightarrow> Inl ''Source must be an AttributeBinding.'')"

section \<open>Variable order\<close>

definition candidates_for :: "usize \<Rightarrow> 'a binding list \<Rightarrow> var \<Rightarrow> 'a binding list" where
  "candidates_for source_index bindings target =
     map snd (filter (\<lambda>(index, other). index \<noteq> source_index \<and> binds other target \<noteq> None)
       (enumerated bindings))"

text \<open>One candidate of a round: the prefix, the candidates waiting for the next round and the ordered
  bindings.\<close>

definition plan_candidate ::
  "usize \<Rightarrow> 'a binding list \<Rightarrow> 'a binding \<Rightarrow> var list \<times> 'a binding list \<times> 'a binding list \<Rightarrow>
   var list \<times> 'a binding list \<times> 'a binding list" where
  "plan_candidate source_index bindings candidate st =
     (case st of (prefix, waiting, ordered) \<Rightarrow>
        case ready_to_extend candidate (vec_binds prefix) of
          None \<Rightarrow> (prefix, waiting @ [candidate], ordered)
        | Some target \<Rightarrow>
            if vec_binds prefix target = None
            then (prefix @ [target],
                  waiting @ filter (\<lambda>c. candidate \<noteq> c) (candidates_for source_index bindings target),
                  ordered @ [candidate])
            else (prefix, waiting, ordered @ [candidate]))"

definition plan_round ::
  "usize \<Rightarrow> 'a::linorder binding list \<Rightarrow> var list \<Rightarrow> 'a binding list \<Rightarrow> 'a binding list \<Rightarrow>
   var list \<times> 'a binding list \<times> 'a binding list" where
  "plan_round source_index bindings prefix candidates ordered =
     fold (plan_candidate source_index bindings) (dedup (sort candidates)) (prefix, [], ordered)"

definition all_variables :: "'a binding list \<Rightarrow> var list" where
  "all_variables bindings = dedup (sort (concat (map variables bindings)))"

partial_function (option) plan_loop ::
  "usize \<Rightarrow> 'a::linorder binding list \<Rightarrow> var list \<Rightarrow> 'a binding list \<Rightarrow> 'a binding list \<Rightarrow>
   (var list \<times> 'a binding list) option" where
  [code]: "plan_loop source_index bindings prefix candidates ordered =
     (case plan_round source_index bindings prefix candidates ordered of
        (prefix', waiting, ordered') \<Rightarrow>
          if waiting = [] then Some (prefix', ordered')
          else if length prefix' = length (all_variables bindings)
               then Some (prefix', ordered' @ waiting)
               else plan_loop source_index bindings prefix' waiting ordered')"

definition plan_order ::
  "usize \<Rightarrow> 'a::linorder binding list \<Rightarrow> (var list \<times> 'a binding list) run option" where
  "plan_order source_index bindings =
     (case vec_index bindings source_index of
        Inl m \<Rightarrow> Some (Inl m)
      | Inr (Attribute source) \<Rightarrow>
          let prefix = [fst (ab_variables source), snd (ab_variables source)];
              candidates = concat (map (candidates_for source_index bindings) prefix)
          in map_option Inr (plan_loop source_index bindings prefix candidates [])
      | Inr _ \<Rightarrow> Some (Inl ''Source binding must be an attribute.''))"

section \<open>Auxiliary facts\<close>

lemma vec_binds_None [bind_simps]: "vec_binds p v = None \<longleftrightarrow> v \<notin> set p"
  by (auto simp: vec_binds_def position_None)

lemma vec_binds_Some: "vec_binds p v = Some i \<Longrightarrow> i < length p \<and> p ! i = v"
  by (auto simp: vec_binds_def dest: position_Some)

lemma set_enumerated_filter:
  "b \<in> set (map snd (filter (\<lambda>(i, x). i \<noteq> src \<and> P x) (enumerated bs))) \<longleftrightarrow>
     (\<exists>i < length bs. i \<noteq> src \<and> bs ! i = b \<and> P b)"
  by (auto simp: enumerated_def in_set_enumerate_eq image_iff Bex_def)

definition others :: "usize \<Rightarrow> 'a binding list \<Rightarrow> 'a binding set" where
  "others src bs = {bs ! i | i. i < length bs \<and> i \<noteq> src}"

lemma set_candidates_for:
  "b \<in> set (candidates_for src bs t) \<longleftrightarrow> b \<in> others src bs \<and> t \<in> set (variables b)"
  unfolding candidates_for_def set_enumerated_filter others_def bnd.binds_iff by blast

lemma set_all_variables: "set (all_variables bs) = (\<Union>b \<in> set bs. set (variables b))"
  by (simp add: all_variables_def)

lemma distinct_all_variables [simp]: "distinct (all_variables bs)"
  by (simp add: all_variables_def)

text \<open>A binding that is ready has exactly its target left, and a binding with a bound and an unbound
  variable is ready for the unbound one.\<close>

lemma ready_closes: "ready_to_extend b p = Some t \<Longrightarrow> v \<in> set (variables b) \<Longrightarrow> p v \<noteq> None \<or> v = t"
  by (induction b)
     (auto simp: two_ready_to_extend_def constant_ready_to_extend_def split: if_splits)

lemma ready_open:
  "x \<in> set (variables b) \<Longrightarrow> p x \<noteq> None \<Longrightarrow> y \<in> set (variables b) \<Longrightarrow> p y = None \<Longrightarrow>
   ready_to_extend b p = Some y"
  by (induction b) (auto simp: two_ready_to_extend_def constant_ready_to_extend_def)

section \<open>Invariant of the loop\<close>

text \<open>The invariant of the candidates still to be looked at, in this round or a later one.\<close>

definition plan_inv ::
  "usize \<Rightarrow> 'a binding list \<Rightarrow> var list \<Rightarrow> var list \<Rightarrow> 'a binding list \<Rightarrow> 'a binding list \<Rightarrow> bool" where
  "plan_inv src bs start prefix cands ordered \<longleftrightarrow>
     distinct prefix \<and> set prefix \<subseteq> set (all_variables bs) \<and>
     (\<forall>b \<in> others src bs. set (variables b) \<inter> set prefix \<noteq> {} \<longrightarrow> b \<in> set ordered \<union> set cands) \<and>
     (\<forall>b \<in> set ordered. set (variables b) \<subseteq> set prefix) \<and>
     set ordered \<union> set cands \<subseteq> others src bs \<and>
     take (length start) prefix = start \<and> length start \<le> length prefix \<and>
     (\<forall>k. length start \<le> k \<longrightarrow> k < length prefix \<longrightarrow>
        (\<exists>b \<in> others src bs. ready_to_extend b (vec_binds (take k prefix)) = Some (prefix ! k)))"

lemma plan_inv_cong_cands:
  "set cands = set cands' \<Longrightarrow> plan_inv src bs start p cands ord = plan_inv src bs start p cands' ord"
  by (simp add: plan_inv_def)

lemma others_variables: "b \<in> others src bs \<Longrightarrow> set (variables b) \<subseteq> set (all_variables bs)"
  by (fastforce simp: others_def set_all_variables)

lemma plan_candidate_inv:
  assumes inv: "plan_inv src bs start p (c # rest @ w) ord"
    and step: "plan_candidate src bs c (p, w, ord) = (p', w', ord')"
  shows "plan_inv src bs start p' (rest @ w') ord'"
proof (cases "ready_to_extend c (vec_binds p)")
  case None
  with step have eq: "p' = p" "w' = w @ [c]" "ord' = ord" by (auto simp: plan_candidate_def)
  have "set (rest @ w @ [c]) = set (c # rest @ w)" by auto
  with inv show ?thesis unfolding eq using plan_inv_cong_cands by blast
next
  case (Some t)
  then have t: "t \<in> set (variables c)" "t \<notin> set p"
    using bnd.ready_new[OF Some] by (auto simp: bind_simps)
  with Some step have eq: "p' = p @ [t]" "ord' = ord @ [c]"
    "w' = w @ filter (\<lambda>x. c \<noteq> x) (candidates_for src bs t)"
    by (auto simp: plan_candidate_def bind_simps)
  have c: "c \<in> others src bs" using inv by (auto simp: plan_inv_def)
  have closed: "set (variables c) \<subseteq> insert t (set p)"
    using ready_closes[OF Some] by (auto simp: bind_simps)
  show ?thesis
    unfolding plan_inv_def eq
  proof (intro conjI ballI impI allI)
    show "set (p @ [t]) \<subseteq> set (all_variables bs)"
      using inv t others_variables[OF c] by (auto simp: plan_inv_def)
    show "take (length start) (p @ [t]) = start" using inv by (simp add: plan_inv_def)
    fix b
    assume b: "b \<in> others src bs" and meet: "set (variables b) \<inter> set (p @ [t]) \<noteq> {}"
    show "b \<in> set (ord @ [c]) \<union> set (rest @ w @ filter (\<lambda>x. c \<noteq> x) (candidates_for src bs t))"
    proof (cases "set (variables b) \<inter> set p = {}")
      case True
      with meet b show ?thesis by (auto simp: set_candidates_for)
    next
      case False
      with inv b show ?thesis by (auto simp: plan_inv_def)
    qed
  next
    fix k
    assume "length start \<le> k" and k: "k < length (p @ [t])"
    show "\<exists>b \<in> others src bs. ready_to_extend b (vec_binds (take k (p @ [t]))) = Some ((p @ [t]) ! k)"
    proof (cases "k = length p")
      case True
      with Some c show ?thesis by auto
    next
      case False
      with k have "k < length p" by simp
      with \<open>length start \<le> k\<close> inv show ?thesis by (simp add: plan_inv_def nth_append)
    qed
  qed (use inv t c closed in \<open>auto simp: plan_inv_def set_candidates_for\<close>)
qed

lemma plan_fold_inv:
  "plan_inv src bs start p (cs @ w) ord \<Longrightarrow>
   fold (plan_candidate src bs) cs (p, w, ord) = (p', w', ord') \<Longrightarrow>
   plan_inv src bs start p' w' ord'"
proof (induction cs arbitrary: p w ord)
  case Nil
  then show ?case by simp
next
  case (Cons c cs)
  obtain p1 w1 o1 where step: "plan_candidate src bs c (p, w, ord) = (p1, w1, o1)"
    by (metis prod_cases3)
  with Cons show ?case using plan_candidate_inv[of src bs start p c cs w ord] by simp
qed

lemma plan_round_inv:
  assumes "plan_inv src bs start p cands ord" and "plan_round src bs p cands ord = (p', w', ord')"
  shows "plan_inv src bs start p' w' ord'"
  using assms plan_fold_inv[of src bs start p "dedup (sort cands)" "[]" ord p' w' ord']
    plan_inv_cong_cands[of "dedup (sort cands)" cands src bs start p ord]
  by (simp add: plan_round_def)

text \<open>A round with a ready candidate binds at least one more variable.\<close>

lemma plan_candidate_grows:
  "plan_candidate src bs c (p, w, ord) = (p', w', ord') \<Longrightarrow>
   length p \<le> length p' \<and> (length p' = length p \<longrightarrow> p' = p) \<and>
   (ready_to_extend c (vec_binds p) \<noteq> None \<longrightarrow> length p < length p')"
  by (auto simp: plan_candidate_def bind_simps dest: bnd.ready_new split: option.splits if_splits)

lemma plan_fold_grows:
  "fold (plan_candidate src bs) cs (p, w, ord) = (p', w', ord') \<Longrightarrow>
   length p \<le> length p' \<and>
   ((\<exists>c \<in> set cs. ready_to_extend c (vec_binds p) \<noteq> None) \<longrightarrow> length p < length p')"
proof (induction cs arbitrary: p w ord)
  case Nil
  then show ?case by simp
next
  case (Cons c cs)
  obtain p1 w1 o1 where step: "plan_candidate src bs c (p, w, ord) = (p1, w1, o1)"
    by (metis prod_cases3)
  note grow = plan_candidate_grows[OF step]
  have "length p1 \<le> length p' \<and>
      ((\<exists>c \<in> set cs. ready_to_extend c (vec_binds p1) \<noteq> None) \<longrightarrow> length p1 < length p')"
    using Cons.IH[of p1 w1 o1] Cons.prems step by simp
  then show ?case using grow by (cases "length p1 = length p") auto
qed

section \<open>Connected queries\<close>

text \<open>No set of variables that contains the source can be left without a binding leading out of it.\<close>

definition connected :: "usize \<Rightarrow> 'a binding list \<Rightarrow> var list \<Rightarrow> bool" where
  "connected src bs start \<longleftrightarrow>
     (\<forall>P. set start \<subseteq> P \<and> P \<subset> set (all_variables bs) \<longrightarrow>
        (\<exists>b \<in> others src bs. set (variables b) \<inter> P \<noteq> {} \<and> \<not> set (variables b) \<subseteq> P))"

lemma plan_inv_ready:
  assumes inv: "plan_inv src bs start p cands ord" and conn: "connected src bs start"
    and small: "length p < length (all_variables bs)"
  shows "\<exists>c \<in> set cands. ready_to_extend c (vec_binds p) \<noteq> None"
proof -
  have "set p \<noteq> set (all_variables bs)"
    using inv small distinct_card[of p] distinct_card[of "all_variables bs"]
    by (auto simp: plan_inv_def)
  moreover have "set start \<subseteq> set p"
    using inv set_take_subset[of "length start" p] by (simp add: plan_inv_def)
  ultimately have "set start \<subseteq> set p \<and> set p \<subset> set (all_variables bs)"
    using inv by (simp add: plan_inv_def psubset_eq)
  with conn obtain b where b: "b \<in> others src bs" "set (variables b) \<inter> set p \<noteq> {}"
      "\<not> set (variables b) \<subseteq> set p"
    unfolding connected_def by meson
  then obtain x y where xy: "x \<in> set (variables b)" "x \<in> set p" "y \<in> set (variables b)" "y \<notin> set p"
    by auto
  have "b \<in> set cands" using inv b by (auto simp: plan_inv_def)
  moreover have "ready_to_extend b (vec_binds p) = Some y"
    using xy by (intro ready_open[of x]) (auto simp: bind_simps)
  ultimately show ?thesis by auto
qed

definition complete_order ::
  "usize \<Rightarrow> 'a binding list \<Rightarrow> var list \<Rightarrow> var list \<Rightarrow> 'a binding list \<Rightarrow> bool" where
  "complete_order src bs start prefix ordered \<longleftrightarrow>
     distinct prefix \<and> set prefix = set (all_variables bs) \<and> take (length start) prefix = start \<and>
     (\<forall>k. length start \<le> k \<longrightarrow> k < length prefix \<longrightarrow>
        (\<exists>b \<in> others src bs. ready_to_extend b (vec_binds (take k prefix)) = Some (prefix ! k))) \<and>
     others src bs = set ordered"

lemma variables_nonempty [simp]: "variables b \<noteq> []"
  by (induction b) auto

lemma plan_inv_complete:
  assumes inv: "plan_inv src bs start p w ord" and full: "length p = length (all_variables bs)"
  shows "complete_order src bs start p (ord @ w)"
proof -
  have "distinct p" and sub: "set p \<subseteq> set (all_variables bs)" using inv by (simp_all add: plan_inv_def)
  then have "card (set p) = card (set (all_variables bs))"
    using full by (simp add: distinct_card)
  with sub have p: "set p = set (all_variables bs)" by (intro card_subset_eq) auto
  have "b \<in> set ord \<union> set w" if "b \<in> others src bs" for b
  proof -
    have "set (variables b) \<inter> set p \<noteq> {}"
      using others_variables[OF that] p variables_nonempty[of b] by (simp add: inf.absorb1)
    with inv that show ?thesis by (auto simp: plan_inv_def)
  qed
  with inv p show ?thesis by (auto simp: plan_inv_def complete_order_def)
qed

lemma plan_loop_returns:
  assumes "connected src bs start"
  shows "plan_inv src bs start p cands ord \<Longrightarrow>
    \<exists>p' ord'. plan_loop src bs p cands ord = Some (p', ord') \<and> complete_order src bs start p' ord'"
proof (induction "length (all_variables bs) - length p" arbitrary: p cands ord rule: less_induct)
  case less
  obtain p1 w1 o1 where round: "plan_round src bs p cands ord = (p1, w1, o1)" by (metis prod_cases3)
  note inv1 = plan_round_inv[OF less.prems round]
  note grows = plan_fold_grows[OF round[unfolded plan_round_def]]
  have bound: "length q \<le> length (all_variables bs)" if "plan_inv src bs start q c r" for q c r
    using that by (simp add: plan_inv_def length_filter_distinct_le)
  show ?case
  proof (cases "length p1 = length (all_variables bs)")
    case True
    with plan_inv_complete[OF inv1 True] show ?thesis
      by (subst plan_loop.simps) (auto simp: round)
  next
    case False
    with bound[OF inv1] have small: "length p1 < length (all_variables bs)" by simp
    with grows have "length p < length (all_variables bs)" by simp
    with plan_inv_ready[OF less.prems assms] grows have "length p < length p1" by simp
    with small less.hyps[OF _ inv1] plan_inv_ready[OF inv1 assms small] show ?thesis
      by (subst plan_loop.simps) (auto simp: round)
  qed
qed

section \<open>Properties\<close>

lemma plan_inv_init:
  assumes "src < length bs" and "bs ! src = Attribute (AttributeBinding (e, v) a)" and "e \<noteq> v"
  shows "plan_inv src bs [e, v] [e, v] (concat (map (candidates_for src bs) [e, v])) []"
proof -
  have "{e, v} \<subseteq> set (all_variables bs)"
    using nth_mem[OF assms(1)] assms(2) by (auto simp: set_all_variables intro!: bexI[of _ "bs ! src"])
  with assms(3) show ?thesis by (auto simp: plan_inv_def set_candidates_for)
qed

text \<open>C7: For a source attribute \<^verbatim>\<open>[e a v]\<close> with two different variables, from which the bindings of
  the query are connected, \<^verbatim>\<open>plan_order\<close> returns without panicking. The variable order starts with the
  source's variables, lists every variable of the query exactly once, and every later variable is one
  that some other binding is ready to extend the variables before it to; the binding order contains
  exactly the bindings other than the source.\<close>

theorem plan_order_complete:
  assumes "src < length bs" and "bs ! src = Attribute (AttributeBinding (e, v) a)" and "e \<noteq> v"
    and "connected src bs [e, v]"
  shows "\<exists>prefix ordered. plan_order src bs = Some (Inr (prefix, ordered)) \<and>
    distinct prefix \<and> set prefix = (\<Union>b \<in> set bs. set (variables b)) \<and> take 2 prefix = [e, v] \<and>
    (\<forall>k. 2 \<le> k \<longrightarrow> k < length prefix \<longrightarrow>
       (\<exists>b \<in> others src bs. ready_to_extend b (vec_binds (take k prefix)) = Some (prefix ! k))) \<and>
    set ordered = others src bs"
proof -
  obtain p ord where "plan_loop src bs [e, v] (concat (map (candidates_for src bs) [e, v])) [] =
      Some (p, ord)" and "complete_order src bs [e, v] p ord"
    using plan_loop_returns[OF assms(4) plan_inv_init[OF assms(1-3)]] by blast
  then show ?thesis using assms(1,2)
    by (auto simp: plan_order_def vec_index_def complete_order_def set_all_variables numeral_2_eq_2)
qed

definition triangle :: "aid binding list" where
  "triangle = [binding_attribute 0 ''x'' 1, binding_attribute 1 ''y'' 2, binding_attribute 0 ''z'' 2]"

lemma triangle_connected: "connected 0 triangle [0, 1]"
proof -
  have all: "set (all_variables triangle) = {0, 1, 2}"
    by (auto simp: set_all_variables triangle_def binding_attribute_def)
  have b: "binding_attribute 1 ''y'' 2 \<in> others 0 triangle"
    by (auto simp: others_def triangle_def intro!: exI[of _ 1])
  show ?thesis unfolding connected_def all
  proof (intro allI impI)
    fix P :: "var set"
    assume "set [0, 1] \<subseteq> P \<and> P \<subset> {0, 1, 2}"
    then have "1 \<in> P" "2 \<notin> P" by auto
    then show "\<exists>b \<in> others 0 triangle. set (variables b) \<inter> P \<noteq> {} \<and> \<not> set (variables b) \<subseteq> P"
      using b by (intro bexI[of _ "binding_attribute 1 ''y'' 2"]) (auto simp: binding_attribute_def)
  qed
qed

theorem plan_order_complete_witness:
  "\<exists>prefix ordered. plan_order 0 triangle = Some (Inr (prefix, ordered)) \<and>
     distinct prefix \<and> take 2 prefix = [0, 1] \<and> set ordered = others 0 triangle"
  using plan_order_complete[OF _ _ _ triangle_connected, of "''x''"]
  by (auto simp: triangle_def binding_attribute_def)

text \<open>A round that changes nothing repeats forever.\<close>

lemma plan_loop_stuck:
  assumes round: "plan_round src bs p c ord = (p, c, ord)" and "c \<noteq> []"
    and "length p \<noteq> length (all_variables bs)"
  shows "plan_loop src bs p c ord = None"
proof (rule ccontr)
  assume "plan_loop src bs p c ord \<noteq> None"
  then obtain y where y: "plan_loop src bs p c ord = Some y" by auto
  let ?P = "\<lambda>s b q d r y. \<not> (s = src \<and> b = bs \<and> q = p \<and> d = c \<and> r = ord)"
  have "?P src bs p c ord y"
    using y
  proof (rule plan_loop.raw_induct[where P = ?P, rotated])
    fix f s b q d r z
    assume IH: "\<And>s b q d r z. f s b q d r = Some z \<Longrightarrow> ?P s b q d r z"
      and eq: "(case plan_round s b q d r of (prefix', waiting, ordered') \<Rightarrow>
          if waiting = [] then Some (prefix', ordered')
          else if length prefix' = length (all_variables b) then Some (prefix', ordered' @ waiting)
          else f s b prefix' waiting ordered') = Some z"
    show "?P s b q d r z"
    proof
      assume "s = src \<and> b = bs \<and> q = p \<and> d = c \<and> r = ord"
      with eq assms have "f src bs p c ord = Some z" by simp
      with IH show False by blast
    qed
  qed
  then show False by simp
qed

definition unconnected :: "aid binding list" where
  "unconnected = [binding_attribute 0 ''x'' 1, binding_attribute 0 ''y'' 1, binding_attribute 2 ''z'' 3]"

lemma unconnected_round:
  "plan_round 0 unconnected [0, 1] [binding_attribute 0 ''y'' 1] [] =
     ([0, 1], [binding_attribute 0 ''y'' 1], [])"
  by code_simp

lemma unconnected_candidates:
  "concat (map (candidates_for 0 unconnected) [0, 1]) =
     [binding_attribute 0 ''y'' 1, binding_attribute 0 ''y'' 1]"
  by code_simp

lemma unconnected_first_round:
  "plan_round 0 unconnected [0, 1] [binding_attribute 0 ''y'' 1, binding_attribute 0 ''y'' 1] [] =
     ([0, 1], [binding_attribute 0 ''y'' 1], [])"
  by code_simp

lemma length_unconnected: "length (all_variables unconnected) = 4"
  by code_simp


definition reflexive :: "aid binding list" where
  "reflexive =
     [binding_attribute 0 ''a'' 0, binding_attribute 0 ''b'' 1, binding_attribute 1 ''c'' 2,
      binding_attribute 2 ''d'' 3]"

text \<open>With a reflexive source \<^verbatim>\<open>[x a x]\<close> the prefix lists the variable twice, the loop stops one
  variable early, and the returned order lacks a variable of a connected query.\<close>

theorem plan_order_reflexive_source:
  "map_option (map_sum id fst) (plan_order 0 reflexive) = Some (Inr [0, 0, 1, 2]) \<and>
   all_variables reflexive = [0, 1, 2, 3]"
  by code_simp

end
