(* ===== verification/Extend.thy ===== *)
theory Extend
  imports Extender_Operators Plan_Order
begin

text \<open>
  Extension of a collection of prefixes by several extenders, from \<^verbatim>\<open>src/src/plan/hector.rs\<close>: the
  implementations of \<^verbatim>\<open>PrefixExtender\<close> and \<^verbatim>\<open>ProposeExtensionMethod::extend\<close>. A collection extender is
  given here by what its operators have produced once the times of the requests are complete, the
  answers of \<open>respond\<close> that the theory \<open>Extender_Operators\<close> proves them to give.

  The contract of \<^verbatim>\<open>PrefixExtender\<close> is stated in two locales: every extender filters proposals by the
  extensions it accepts, and those that can be nominated also propose exactly the extensions they
  accept. The main theorem is that \<^verbatim>\<open>extend\<close> computes the join of all its extenders, whichever of
  them is nominated for which prefix.
\<close>

section \<open>Extenders\<close>

record 't attribute_indices =
  counts :: "(df_value, unit, 't) storage"
  proposes :: "(df_value, df_value, 't) storage"
  validates :: "(df_value \<times> df_value, unit, 't) storage"

datatype 't extender =
    ConstantExtender df_value
  | BinaryPredicateExtender binary_predicate direction
  | CollectionExtender "'t attribute_indices" usize
  | AntijoinExtender "'t extender"

definition coll_flat_map_run ::
  "(('a, 't) update \<Rightarrow> ('b, 't) collection run) \<Rightarrow> ('a, 't) collection \<Rightarrow> ('b, 't) collection run" where
  "coll_flat_map_run f c = run_bind (run_map f c) (\<lambda>r. Inr (concat r))"

definition constant_into_extender :: "constant_binding \<Rightarrow> 't extender list" where
  "constant_into_extender c = [ConstantExtender (cb_value c)]"

definition predicate_into_extender :: "binary_predicate_binding \<Rightarrow> prefix \<Rightarrow> 't extender list" where
  "predicate_into_extender b prefix =
     (case direction prefix (bp_variables b) of
        Inl _ \<Rightarrow> []
      | Inr dir \<Rightarrow> [BinaryPredicateExtender (bp_predicate b) dir])"

subsection \<open>Count\<close>

definition constant_count ::
  "usize \<Rightarrow> (tuple \<times> usize \<times> usize, 't) collection \<Rightarrow> (tuple \<times> usize \<times> usize, 't) collection" where
  "constant_count index c =
     coll_map (\<lambda>(prefix, old_count, old_index).
       if 1 < old_count then (prefix, 1, index) else (prefix, old_count, old_index)) c"

definition collection_count ::
  "'t lattice_ops \<Rightarrow> 't attribute_indices \<Rightarrow> usize \<Rightarrow> usize \<Rightarrow> (tuple \<times> usize \<times> usize, 't) collection \<Rightarrow>
   (tuple \<times> usize \<times> usize, 't) collection run" where
  "collection_count L I offset index c =
     coll_flat_map_run (\<lambda>((prefix, oc, oi), t, d). run_bind (vec_index prefix offset) (\<lambda>key.
       Inr (respond (\<lambda>_. key) (count_answer L index) (counts I) ((prefix, oc, oi), t, d)))) c"

text \<open>Predicates and negations are never counted.\<close>

fun ext_count ::
  "'t lattice_ops \<Rightarrow> 't extender \<Rightarrow> usize \<Rightarrow> (tuple \<times> usize \<times> usize, 't) collection \<Rightarrow>
   (tuple \<times> usize \<times> usize, 't) collection run option" where
  "ext_count L (ConstantExtender v) index c = Some (Inr (constant_count index c))"
| "ext_count L (BinaryPredicateExtender p dir) index c = None"
| "ext_count L (CollectionExtender I offset) index c =
     Some (collection_count L I offset index c)"
| "ext_count L (AntijoinExtender e) index c = None"

subsection \<open>Propose\<close>

definition constant_propose :: "df_value \<Rightarrow> (tuple, 't) collection \<Rightarrow> (tuple \<times> df_value, 't) collection" where
  "constant_propose v c = coll_map (\<lambda>prefix. (prefix, v)) c"

definition predicate_propose :: "(tuple, 't) collection \<Rightarrow> (tuple \<times> df_value, 't) collection run" where
  "predicate_propose c =
     coll_map_run (\<lambda>_. Inl ''BinaryPredicateExtender should never be asked to propose.'') c"

definition antijoin_propose :: "(tuple, 't) collection \<Rightarrow> (tuple \<times> df_value, 't) collection run" where
  "antijoin_propose c =
     coll_map_run (\<lambda>_. Inl ''AntijoinExtender should never be asked to propose.'') c"

definition collection_propose ::
  "'t lattice_ops \<Rightarrow> 't attribute_indices \<Rightarrow> usize \<Rightarrow> (tuple, 't) collection \<Rightarrow>
   (tuple \<times> df_value, 't) collection run" where
  "collection_propose L I offset c =
     coll_flat_map_run (\<lambda>(prefix, t, d). run_bind (vec_index prefix offset) (\<lambda>key.
       Inr (respond (\<lambda>_. key) (propose_answer L) (proposes I) (prefix, t, d)))) c"

fun ext_propose ::
  "'t lattice_ops \<Rightarrow> 't extender \<Rightarrow> (tuple, 't) collection \<Rightarrow> (tuple \<times> df_value, 't) collection run" where
  "ext_propose L (ConstantExtender v) c = Inr (constant_propose v c)"
| "ext_propose L (BinaryPredicateExtender p dir) c = predicate_propose c"
| "ext_propose L (CollectionExtender I offset) c = collection_propose L I offset c"
| "ext_propose L (AntijoinExtender e) c = antijoin_propose c"

subsection \<open>Validate\<close>

fun predicate_holds :: "binary_predicate \<Rightarrow> direction \<Rightarrow> df_value \<Rightarrow> df_value \<Rightarrow> bool" where
  "predicate_holds LT (DirReverse _) extension other = (extension > other)"
| "predicate_holds LTE (DirReverse _) extension other = (extension \<ge> other)"
| "predicate_holds GT (DirReverse _) extension other = (extension < other)"
| "predicate_holds GTE (DirReverse _) extension other = (extension \<le> other)"
| "predicate_holds EQ (DirReverse _) extension other = (extension = other)"
| "predicate_holds NEQ (DirReverse _) extension other = (extension \<noteq> other)"
| "predicate_holds LT (DirForward _) extension other = (extension < other)"
| "predicate_holds LTE (DirForward _) extension other = (extension \<le> other)"
| "predicate_holds GT (DirForward _) extension other = (extension > other)"
| "predicate_holds GTE (DirForward _) extension other = (extension \<ge> other)"
| "predicate_holds EQ (DirForward _) extension other = (extension = other)"
| "predicate_holds NEQ (DirForward _) extension other = (extension \<noteq> other)"

fun direction_offset :: "direction \<Rightarrow> usize" where
  "direction_offset (DirReverse offset) = offset"
| "direction_offset (DirForward offset) = offset"

definition constant_validate ::
  "df_value \<Rightarrow> (tuple \<times> df_value, 't) collection \<Rightarrow> (tuple \<times> df_value, 't) collection" where
  "constant_validate target c = coll_filter (\<lambda>(_, extension). extension = target) c"

definition predicate_validate ::
  "binary_predicate \<Rightarrow> direction \<Rightarrow> (tuple \<times> df_value, 't) collection \<Rightarrow>
   (tuple \<times> df_value, 't) collection run" where
  "predicate_validate p dir c =
     coll_filter_run (\<lambda>(prefix, extension). run_bind (vec_index prefix (direction_offset dir))
       (\<lambda>other. Inr (predicate_holds p dir extension other))) c"

definition collection_validate ::
  "'t lattice_ops \<Rightarrow> 't attribute_indices \<Rightarrow> usize \<Rightarrow> (tuple \<times> df_value, 't) collection \<Rightarrow>
   (tuple \<times> df_value, 't) collection run" where
  "collection_validate L I offset c =
     coll_flat_map_run (\<lambda>((prefix, v), t, d). run_bind (vec_index prefix offset) (\<lambda>key.
       Inr (respond (\<lambda>_. (key, v)) (validate_answer L) (validates I) ((prefix, v), t, d)))) c"

text \<open>A negation keeps what it is given and retracts what its inner extender validates.\<close>

definition antijoin_validate ::
  "(tuple \<times> df_value, 't) collection run \<Rightarrow> (tuple \<times> df_value, 't) collection \<Rightarrow>
   (tuple \<times> df_value, 't) collection run" where
  "antijoin_validate inner c = run_bind inner (\<lambda>v. Inr (c @ coll_negate v))"

fun ext_validate ::
  "'t lattice_ops \<Rightarrow> 't extender \<Rightarrow> (tuple \<times> df_value, 't) collection \<Rightarrow>
   (tuple \<times> df_value, 't) collection run" where
  "ext_validate L (ConstantExtender v) c = Inr (constant_validate v c)"
| "ext_validate L (BinaryPredicateExtender p dir) c = predicate_validate p dir c"
| "ext_validate L (CollectionExtender I offset) c = collection_validate L I offset c"
| "ext_validate L (AntijoinExtender e) c = antijoin_validate (ext_validate L e c) c"

lemmas extender_defs [simp] =
  constant_propose_def predicate_propose_def antijoin_propose_def collection_propose_def
  constant_validate_def predicate_validate_def antijoin_validate_def collection_validate_def
  collection_count_def

section \<open>Extend\<close>

fun count_all ::
  "'t lattice_ops \<Rightarrow> 't extender list \<Rightarrow> usize \<Rightarrow> (tuple \<times> usize \<times> usize, 't) collection \<Rightarrow>
   (tuple \<times> usize \<times> usize, 't) collection run" where
  "count_all L [] index c = Inr c"
| "count_all L (e # es) index c =
     (case ext_count L e index c of
        None \<Rightarrow> count_all L es (index + 1) c
      | Some new_counts \<Rightarrow> run_bind new_counts (count_all L es (index + 1)))"

fun validate_all ::
  "'t lattice_ops \<Rightarrow> 't extender list \<Rightarrow> (tuple \<times> df_value, 't) collection \<Rightarrow>
   (tuple \<times> df_value, 't) collection run" where
  "validate_all L [] c = Inr c"
| "validate_all L (e # es) c = run_bind (ext_validate L e c) (validate_all L es)"

definition initial_count :: usize where
  "initial_count = 2 ^ 31"

definition nominations ::
  "usize \<Rightarrow> (tuple \<times> usize \<times> usize, 't) collection \<Rightarrow> (tuple, 't) collection" where
  "nominations index c =
     map (\<lambda>((p, _, i), t, d). (p, t, d)) (filter (\<lambda>((p, _, i), t, d). i = index) c)"

definition extend ::
  "'t lattice_ops \<Rightarrow> 't extender list \<Rightarrow> (tuple, 't) collection \<Rightarrow>
   (tuple \<times> df_value, 't) collection run" where
  "extend L extenders c =
     (if extenders = [] then Inl ''No extenders specified.''
      else if length extenders = 1 then ext_propose L (extenders ! 0) c
      else run_bind (count_all L extenders 0 (coll_map (\<lambda>p. (p, initial_count, 0)) c)) (\<lambda>nominated.
        run_bind (run_map (\<lambda>index.
            run_bind (ext_propose L (extenders ! index) (nominations index nominated)) (\<lambda>extensions.
              validate_all L (map (\<lambda>other. extenders ! other)
                (filter (\<lambda>x. x \<noteq> index) [0..<length extenders])) extensions))
          [0..<length extenders])
        (\<lambda>results. Inr (concat results))))"

section \<open>What an extender accepts\<close>

fun accepts :: "'t lattice_ops \<Rightarrow> 't extender \<Rightarrow> tuple \<Rightarrow> df_value \<Rightarrow> 't \<Rightarrow> bool" where
  "accepts L (ConstantExtender c) p v t = (v = c)"
| "accepts L (BinaryPredicateExtender b dir) p v t = predicate_holds b dir v (p ! direction_offset dir)"
| "accepts L (CollectionExtender I offset) p v t =
     (\<exists>ts. map_of (validates I) (p ! offset, v) = Some [((), ts)] \<and> 0 < count_times L t ts)"
| "accepts L (AntijoinExtender e) p v t = (\<not> accepts L e p v t)"

fun ext_ok :: "'t extender \<Rightarrow> tuple \<Rightarrow> bool" where
  "ext_ok (ConstantExtender c) p = True"
| "ext_ok (BinaryPredicateExtender b dir) p = (direction_offset dir < length p)"
| "ext_ok (CollectionExtender I offset) p =
     (offset < length p \<and> (\<forall>(k, vs) \<in> set (validates I). length vs = 1))"
| "ext_ok (AntijoinExtender e) p = ext_ok e p"

locale extension_filter =
  fixes ok :: "'p \<Rightarrow> bool" and accept :: "'p \<Rightarrow> 'v \<Rightarrow> 't \<Rightarrow> bool"
    and validate :: "('p \<times> 'v, 't) collection \<Rightarrow> ('p \<times> 'v, 't) collection run"
  assumes validate_law: "\<forall>u \<in> set c. ok (fst (fst u)) \<Longrightarrow>
    \<exists>c'. validate c = Inr c' \<and> (\<forall>u \<in> set c'. fst (fst u) \<in> (fst \<circ> fst) ` set c) \<and>
      (\<forall>p v t. acc c' (p, v) t = (if accept p v t then acc c (p, v) t else 0))"

locale prefix_extender = extension_filter ok accept validate
  for ok :: "'p \<Rightarrow> bool" and accept :: "'p \<Rightarrow> 'v \<Rightarrow> 't \<Rightarrow> bool" and validate +
  fixes propose :: "('p, 't) collection \<Rightarrow> ('p \<times> 'v, 't) collection run"
  assumes propose_law: "\<forall>u \<in> set c. ok (fst u) \<Longrightarrow>
    \<exists>c'. propose c = Inr c' \<and> (\<forall>u \<in> set c'. fst (fst u) \<in> fst ` set c) \<and>
      (\<forall>p v t. acc c' (p, v) t = (if accept p v t then acc c p t else 0))"

lemma coll_flat_map_run_total:
  assumes "\<And>u. u \<in> set c \<Longrightarrow> f u = Inr (g u)"
  shows "coll_flat_map_run f c = Inr (concat (map g c))"
  using assms by (simp add: coll_flat_map_run_def run_map_total[where g = g])

lemma acc_keep:
  "acc (concat (map (\<lambda>(x, t, d). if P x t then [(x, t, d)] else []) c)) x t =
     (if P x t then acc c x t else 0)"
  by (induction c) auto

lemma acc_keep_prefix: "u \<in> set (concat (map (\<lambda>(x, t, d). if P x t then [(x, t, d)] else []) c)) \<Longrightarrow> u \<in> set c"
  by (auto split: if_splits)

lemma ext_validate_law:
  "\<forall>u \<in> set c. ext_ok e (fst (fst u)) \<Longrightarrow>
    \<exists>c'. ext_validate L e c = Inr c' \<and> (\<forall>u \<in> set c'. fst (fst u) \<in> (fst \<circ> fst) ` set c) \<and>
      (\<forall>p v t. acc c' (p, v) t = (if accepts L e p v t then acc c (p, v) t else 0))"
proof (induction e arbitrary: c)
  case (ConstantExtender w)
  have "fst (fst u) \<in> (fst \<circ> fst) ` set c" if "u \<in> set (coll_filter (\<lambda>(_, x). x = w) c)" for u
    using that by (force simp: coll_filter_def)
  then show ?case by simp
next
  case (BinaryPredicateExtender b dir)
  let ?P = "\<lambda>(p, v). predicate_holds b dir v (p ! direction_offset dir)"
  have "coll_filter_run (\<lambda>(prefix, extension). run_bind (vec_index prefix (direction_offset dir))
      (\<lambda>other. Inr (predicate_holds b dir extension other))) c = Inr (coll_filter ?P c)"
    using BinaryPredicateExtender by (intro coll_filter_run_total) (fastforce simp: vec_index_def)
  moreover have "fst (fst u) \<in> (fst \<circ> fst) ` set c" if "u \<in> set (coll_filter ?P c)" for u
    using that by (force simp: coll_filter_def)
  ultimately show ?case by simp
next
  case (CollectionExtender I offset)
  let ?acc = "\<lambda>x t. accepts L (CollectionExtender I offset) (fst x) (snd x) t"
  let ?f = "\<lambda>((prefix, v), t, d). run_bind (vec_index prefix offset) (\<lambda>key.
       Inr (respond (\<lambda>_. (key, v)) (validate_answer L) (validates I) ((prefix, v), t, d)))"
  have "?f u = Inr ((\<lambda>(x, t, d). if ?acc x t then [(x, t, d)] else []) u)" if "u \<in> set c" for u
  proof -
    obtain p v t d where u: "u = ((p, v), t, d)" by (metis prod.exhaust)
    with CollectionExtender that have ok: "offset < length p" "\<forall>(k, vs) \<in> set (validates I). length vs = 1"
      by auto
    show ?thesis
    proof (cases "map_of (validates I) (p ! offset, v)")
      case None
      with ok show ?thesis by (simp add: u vec_index_def respond_def)
    next
      case (Some vs)
      with ok(2) map_of_SomeD[OF Some] obtain ts where "vs = [((), ts)]"
        by (fastforce simp: length_Suc_conv)
      with Some ok show ?thesis by (auto simp: u vec_index_def respond_def validate_answer_def)
    qed
  qed
  from coll_flat_map_run_total[OF this]
  have eq: "ext_validate L (CollectionExtender I offset) c =
      Inr (concat (map (\<lambda>(x, t, d). if ?acc x t then [(x, t, d)] else []) c))" by simp
  show ?case
    unfolding eq
  proof (intro exI conjI ballI allI refl)
    fix u assume "u \<in> set (concat (map (\<lambda>(x, t, d). if ?acc x t then [(x, t, d)] else []) c))"
    then have "u \<in> set c" by (rule acc_keep_prefix)
    then show "fst (fst u) \<in> (fst \<circ> fst) ` set c" by (auto intro!: rev_image_eqI)
  next
    fix p v t
    show "acc (concat (map (\<lambda>(x, t, d). if ?acc x t then [(x, t, d)] else []) c)) (p, v) t =
        (if accepts L (CollectionExtender I offset) p v t then acc c (p, v) t else 0)"
      using acc_keep[of ?acc c "(p, v)" t] by (simp only: fst_conv snd_conv)
  qed (rule refl)
next
  case (AntijoinExtender e)
  then obtain c' where c': "ext_validate L e c = Inr c'" "\<forall>u \<in> set c'. fst (fst u) \<in> (fst \<circ> fst) ` set c"
    "\<And>p v t. acc c' (p, v) t = (if accepts L e p v t then acc c (p, v) t else 0)"
    by force
  have "fst (fst u) \<in> (fst \<circ> fst) ` set c" if "u \<in> set (c @ coll_negate c')" for u
    using that c'(2) by (force simp: coll_negate_def)
  with c' show ?case by simp
qed

lemma ext_filter: "extension_filter (ext_ok e) (accepts L e) (ext_validate L e)"
  by unfold_locales (rule ext_validate_law)

interpretation ext: extension_filter "ext_ok e" "accepts L e" "ext_validate L e"
  for e :: "'t extender" and L
  by (rule ext_filter)

interpretation constant_ext: prefix_extender
  "ext_ok (ConstantExtender w :: 't extender)" "accepts L (ConstantExtender w)" "ext_validate L (ConstantExtender w)"
  "ext_propose L (ConstantExtender w)"
  for w and L :: "'t lattice_ops"
proof (intro prefix_extender.intro ext_filter prefix_extender_axioms.intro)
  fix c :: "(tuple, 't) collection"
  have "acc (coll_map (\<lambda>p. (p, w)) c) (p, v) t = (if v = w then acc c p t else 0)" for p v t
    by (induction c) (auto simp: coll_map_def)
  then show "\<exists>c'. ext_propose L (ConstantExtender w) c = Inr c' \<and> (\<forall>u \<in> set c'. fst (fst u) \<in> fst ` set c) \<and>
      (\<forall>p v t. acc c' (p, v) t = (if accepts L (ConstantExtender w) p v t then acc c p t else 0))"
    by (auto simp: coll_map_def image_iff) force
qed

subsection \<open>Consistent indices\<close>

text \<open>What the three indices of an attribute promise each other, as they are built from the same tuples:
  a pair validates exactly when it is proposed, and a key with an extension has a count.\<close>

definition consistent_indices :: "'t lattice_ops \<Rightarrow> 't attribute_indices \<Rightarrow> bool" where
  "consistent_indices L I \<longleftrightarrow>
     (\<forall>(k, vs) \<in> set (validates I). length vs = 1) \<and>
     (\<forall>(k, vs) \<in> set (proposes I). distinct (map fst vs)) \<and>
     (\<forall>k v t. (\<exists>ts. map_of (validates I) (k, v) = Some [((), ts)] \<and> 0 < count_times L t ts) \<longleftrightarrow>
        (\<exists>vs ts. map_of (proposes I) k = Some vs \<and> (v, ts) \<in> set vs \<and> 0 < count_times L t ts)) \<and>
     (\<forall>k v t. (\<exists>ts. map_of (validates I) (k, v) = Some [((), ts)] \<and> 0 < count_times L t ts) \<longrightarrow>
        (\<exists>ts. map_of (counts I) k = Some [((), ts)] \<and> 0 < as_usize (count_times L t ts)))"

lemma acc_propose_answer:
  "distinct (map fst vs) \<Longrightarrow> acc (propose_answer L p' t' d vs) (p, v) t =
     (if p' = p \<and> t' = t \<and> (\<exists>ts. (v, ts) \<in> set vs \<and> 0 < count_times L t' ts) then d else 0)"
  unfolding propose_answer_def
proof (induction vs)
  case Nil
  then show ?case by simp
next
  case (Cons e vs)
  obtain w ts where "e = (w, ts)" by fastforce
  with Cons show ?case by (auto simp: image_iff)
qed

lemma collection_prefix_extender:
  fixes L :: "'t lattice_ops"
  assumes "consistent_indices L I"
  shows "prefix_extender (ext_ok (CollectionExtender I offset)) (accepts L (CollectionExtender I offset))
    (ext_validate L (CollectionExtender I offset)) (ext_propose L (CollectionExtender I offset))"
proof (intro prefix_extender.intro ext_filter prefix_extender_axioms.intro)
  fix c :: "(tuple, 't) collection"
  assume ok: "\<forall>u \<in> set c. ext_ok (CollectionExtender I offset) (fst u)"
  let ?g = "\<lambda>(p, t, d). respond (\<lambda>_. p ! offset) (propose_answer L) (proposes I) (p, t, d)"
  have eq: "ext_propose L (CollectionExtender I offset) c = Inr (concat (map ?g c))"
    using ok by (auto simp: vec_index_def intro!: coll_flat_map_run_total split: prod.splits)
  have one: "acc (?g (p', t', d)) (p, v) t =
      (if accepts L (CollectionExtender I offset) p v t then upd_contrib p t (p', t', d) else 0)" for p' t' d p v t
  proof (cases "map_of (proposes I) (p' ! offset)")
    case None
    with assms show ?thesis by (auto simp: respond_def consistent_indices_def)
  next
    case (Some vs)
    with assms map_of_SomeD[OF Some] have "distinct (map fst vs)" by (auto simp: consistent_indices_def)
    with Some assms show ?thesis by (auto simp: respond_def acc_propose_answer consistent_indices_def)
  qed
  have "acc (concat (map ?g c)) (p, v) t =
      (if accepts L (CollectionExtender I offset) p v t then acc c p t else 0)" for p v t
  proof (induction c)
    case Nil
    then show ?case by simp
  next
    case (Cons u c)
    obtain p' t' d where "u = (p', t', d)" by (metis prod_cases3)
    with Cons one[of p' t' d p v t] show ?case by (simp del: accepts.simps)
  qed
  moreover have "fst (fst u) \<in> fst ` set c" if "u \<in> set (concat (map ?g c))" for u
    using that by (force simp: respond_def propose_answer_def split: option.splits if_splits)
  ultimately show "\<exists>c'. ext_propose L (CollectionExtender I offset) c = Inr c' \<and>
      (\<forall>u \<in> set c'. fst (fst u) \<in> fst ` set c) \<and>
      (\<forall>p v t. acc c' (p, v) t = (if accepts L (CollectionExtender I offset) p v t then acc c p t else 0))"
    unfolding eq by blast
qed

subsection \<open>Nomination\<close>

fun is_proposer :: "'t extender \<Rightarrow> bool" where
  "is_proposer (ConstantExtender _) = True"
| "is_proposer (CollectionExtender _ _) = True"
| "is_proposer _ = False"

fun consistent :: "'t lattice_ops \<Rightarrow> 't extender \<Rightarrow> bool" where
  "consistent L (CollectionExtender I _) = consistent_indices L I"
| "consistent L _ = True"

lemma proposer_prefix_extender:
  "is_proposer e \<Longrightarrow> consistent L e \<Longrightarrow>
   prefix_extender (ext_ok e) (accepts L e) (ext_validate L e) (ext_propose L e)"
  by (cases e) (simp_all only: is_proposer.simps consistent.simps constant_ext.prefix_extender_axioms
      collection_prefix_extender)

text \<open>The count of an extender for a prefix, where it has one.\<close>

definition index_count :: "'t lattice_ops \<Rightarrow> 't attribute_indices \<Rightarrow> df_value \<Rightarrow> 't \<Rightarrow> usize" where
  "index_count L I k t =
     (case map_of (counts I) k of
        None \<Rightarrow> 0
      | Some vs \<Rightarrow> as_usize (case vs of [] \<Rightarrow> 0 | (_, ts) # _ \<Rightarrow> count_times L t ts))"

fun nominate :: "'t lattice_ops \<Rightarrow> 't extender list \<Rightarrow> usize \<Rightarrow> tuple \<Rightarrow> 't \<Rightarrow> usize \<times> usize \<Rightarrow>
   (usize \<times> usize) option" where
  "nominate L [] index p t st = Some st"
| "nominate L (ConstantExtender v # es) index p t st =
     nominate L es (index + 1) p t (if 1 < fst st then (1, index) else st)"
| "nominate L (CollectionExtender I offset # es) index p t st =
     (let n = index_count L I (p ! offset) t
      in if n = 0 then None else nominate L es (index + 1) p t (if n < fst st then (n, index) else st))"
| "nominate L (_ # es) index p t st = nominate L es (index + 1) p t st"

definition nominated_list ::
  "'t lattice_ops \<Rightarrow> 't extender list \<Rightarrow> usize \<Rightarrow> (tuple \<times> usize \<times> usize, 't) collection \<Rightarrow>
   (tuple \<times> usize \<times> usize, 't) collection" where
  "nominated_list L es index c =
     concat (map (\<lambda>((p, st), t, d). case nominate L es index p t st of
       None \<Rightarrow> [] | Some st' \<Rightarrow> [((p, st'), t, d)]) c)"

lemma nominated_list_Cons [simp]:
  "nominated_list L es index (((p, st), t, d) # c) =
     (case nominate L es index p t st of None \<Rightarrow> [] | Some st' \<Rightarrow> [((p, st'), t, d)]) @
     nominated_list L es index c"
  "nominated_list L es index [] = []"
  by (simp_all add: nominated_list_def)

lemma count_all_nominates:
  "\<forall>u \<in> set c. \<forall>e \<in> set es. ext_ok e (fst (fst u)) \<Longrightarrow>
   count_all L es index c = Inr (nominated_list L es index c)"
proof (induction es arbitrary: index c)
  case Nil
  have "nominated_list L [] index c = c" by (induction c) auto
  then show ?case by simp
next
  case (Cons e es)
  show ?case
  proof (cases e)
    case (ConstantExtender v)
    have "nominated_list L es (Suc index) (constant_count index c) = nominated_list L (e # es) index c"
      by (induction c) (auto simp: constant_count_def coll_map_def ConstantExtender)
    moreover have "\<forall>u \<in> set (constant_count index c). \<forall>e \<in> set es. ext_ok e (fst (fst u))"
      using Cons.prems by (auto simp: constant_count_def coll_map_def split: if_splits prod.splits)
    ultimately show ?thesis using Cons.IH by (simp add: ConstantExtender)
  next
    case (BinaryPredicateExtender b dir)
    have "nominated_list L es (Suc index) c = nominated_list L (e # es) index c"
      by (induction c) (auto simp: BinaryPredicateExtender)
    with Cons show ?thesis by (fastforce simp: BinaryPredicateExtender)
  next
    case (AntijoinExtender e')
    have "nominated_list L es (Suc index) c = nominated_list L (e # es) index c"
      by (induction c) (auto simp: AntijoinExtender)
    with Cons show ?thesis by (fastforce simp: AntijoinExtender)
  next
    case (CollectionExtender I offset)
    let ?g = "\<lambda>((p, st), t, d). respond (\<lambda>_. p ! offset) (count_answer L index) (counts I) ((p, st), t, d)"
    have one: "?g ((p, st), t, d) = (let n = index_count L I (p ! offset) t in
        if n = 0 then [] else [((p, if n < fst st then (n, index) else st), t, d)])" for p st t d
      by (cases st) (auto simp: respond_def index_count_def count_answer_def Let_def split: option.splits)
    have "coll_flat_map_run (\<lambda>((prefix, oc, oi), t, d). run_bind (vec_index prefix offset) (\<lambda>key.
        Inr (respond (\<lambda>_. key) (count_answer L index) (counts I) ((prefix, oc, oi), t, d)))) c =
        Inr (concat (map ?g c))"
      using Cons.prems CollectionExtender by (intro coll_flat_map_run_total) (fastforce simp: vec_index_def)
    moreover have "nominated_list L es (Suc index) (concat (map ?g c)) = nominated_list L (e # es) index c"
    proof (induction c)
      case Nil
      then show ?case by simp
    next
      case (Cons u c)
      obtain p st t d where "u = ((p, st), t, d)" by (metis prod.exhaust)
      with Cons one[of p st t d] show ?case by (auto simp: CollectionExtender Let_def)
    qed
    moreover have "\<forall>u \<in> set (concat (map ?g c)). \<forall>e \<in> set es. ext_ok e (fst (fst u))"
    proof -
      have "fst (fst u) = fst (fst w)" if "u \<in> set (?g w)" for u w
      proof -
        obtain p st t d where w: "w = ((p, st), t, d)" by (metis prod.exhaust)
        from that one[of p st t d] show ?thesis by (auto simp: w Let_def split: if_splits)
      qed
      with Cons.prems show ?thesis by fastforce
    qed
    ultimately show ?thesis using Cons.IH by (simp add: CollectionExtender)
  qed
qed

text \<open>Which extender is nominated: a proposer, as soon as one of them has a count below the initial
  \<^verbatim>\<open>1 << 31\<close>.\<close>

fun small_count :: "'t lattice_ops \<Rightarrow> 't extender \<Rightarrow> tuple \<Rightarrow> 't \<Rightarrow> bool" where
  "small_count L (ConstantExtender v) p t = True"
| "small_count L (CollectionExtender I offset) p t = (index_count L I (p ! offset) t < initial_count)"
| "small_count L _ p t = False"

definition nominee_inv :: "'t extender list \<Rightarrow> usize \<times> usize \<Rightarrow> bool" where
  "nominee_inv es st \<longleftrightarrow> fst st \<le> initial_count \<and>
     (fst st < initial_count \<longrightarrow> snd st < length es \<and> is_proposer (es ! snd st))"

lemma nominate_proposer:
  assumes "nominee_inv (pre @ es) st" and "nominate L es (length pre) p t st = Some st'"
    and "fst st < initial_count \<or> (\<exists>e \<in> set es. small_count L e p t)"
  shows "snd st' < length (pre @ es) \<and> is_proposer ((pre @ es) ! snd st')"
  using assms
proof (induction es arbitrary: pre st)
  case Nil
  then show ?case by (simp add: nominee_inv_def)
next
  case (Cons e es)
  have IH: "snd st' < length (pre @ e # es) \<and> is_proposer ((pre @ e # es) ! snd st')"
    if "nominee_inv (pre @ e # es) st1" and "nominate L es (length pre + 1) p t st1 = Some st'"
      and "fst st1 < initial_count \<or> (\<exists>e \<in> set es. small_count L e p t)" for st1
    using Cons.IH[of "pre @ [e]" st1] that by simp
  have here: "nominee_inv (pre @ e # es) (n, length pre)" if "is_proposer e" "n \<le> initial_count" for n
    using that by (simp add: nominee_inv_def)
  show ?case
  proof (cases e)
    case (ConstantExtender v)
    let ?st1 = "if 1 < fst st then (1, length pre) else st"
    have "nominee_inv (pre @ e # es) ?st1"
      using here[of 1] Cons.prems(1) by (simp add: ConstantExtender initial_count_def)
    moreover have "fst ?st1 < initial_count" by (simp add: initial_count_def)
    ultimately show ?thesis using Cons.prems(2) by (intro IH[of ?st1]) (simp_all add: ConstantExtender)
  next
    case (CollectionExtender I offset)
    let ?n = "index_count L I (p ! offset) t"
    let ?st1 = "if ?n < fst st then (?n, length pre) else st"
    have "nominee_inv (pre @ e # es) ?st1"
      using here[of ?n] Cons.prems(1) by (auto simp: CollectionExtender nominee_inv_def)
    moreover have "nominate L es (length pre + 1) p t ?st1 = Some st'"
      using Cons.prems(2) by (auto simp: CollectionExtender Let_def split: if_splits)
    moreover have "fst ?st1 < initial_count \<or> (\<exists>e \<in> set es. small_count L e p t)"
      using Cons.prems(3) by (auto simp: CollectionExtender)
    ultimately show ?thesis by (rule IH)
  qed (use IH[of st] Cons.prems in auto)
qed

lemma nominate_None:
  "nominate L es index p t st = None \<Longrightarrow> \<forall>e \<in> set es. consistent L e \<Longrightarrow>
   \<exists>e \<in> set es. \<forall>v. \<not> accepts L e p v t"
proof (induction L es index p t st rule: nominate.induct)
  case (3 L I offset es index p t st)
  show ?case
  proof (cases "index_count L I (p ! offset) t = 0")
    case True
    then have none: "\<not> (\<exists>ts. map_of (counts I) (p ! offset) = Some [((), ts)] \<and> 0 < as_usize (count_times L t ts))"
      by (auto simp: index_count_def)
    have "\<forall>k v t. (\<exists>ts. map_of (validates I) (k, v) = Some [((), ts)] \<and> 0 < count_times L t ts) \<longrightarrow>
        (\<exists>ts. map_of (counts I) k = Some [((), ts)] \<and> 0 < as_usize (count_times L t ts))"
      using "3.prems"(2) unfolding list.set ball_simps consistent.simps consistent_indices_def by blast
    with none have "\<not> accepts L (CollectionExtender I offset) p v t" for v
      unfolding accepts.simps by blast
    then show ?thesis by (meson list.set_intros(1))
  next
    case False
    with 3 show ?thesis by (auto simp: Let_def)
  qed
qed auto

subsection \<open>The join\<close>

lemma image_chain:
  assumes "\<forall>u \<in> A. f u \<in> g ` B" and "\<And>x. x \<in> B \<Longrightarrow> g x \<in> C"
  shows "\<forall>u \<in> A. f u \<in> C"
proof
  fix u assume "u \<in> A"
  with assms(1) obtain x where "x \<in> B" "f u = g x" by (meson imageE)
  with assms(2) show "f u \<in> C" by simp
qed

lemma validate_all_law:
  assumes "\<forall>u \<in> set c. \<forall>e \<in> set es. ext_ok e (fst (fst u))"
  shows "\<exists>c'. validate_all L es c = Inr c' \<and> (\<forall>u \<in> set c'. fst (fst u) \<in> (fst \<circ> fst) ` set c) \<and>
    (\<forall>p v t. acc c' (p, v) t = (if \<forall>e \<in> set es. accepts L e p v t then acc c (p, v) t else 0))"
  using assms
proof (induction es arbitrary: c)
  case Nil
  then show ?case by simp
next
  case (Cons e es)
  have "\<forall>u \<in> set c. ext_ok e (fst (fst u))" using Cons.prems by auto
  from ext.validate_law[OF this, of L] obtain c' where c': "ext_validate L e c = Inr c'"
    "\<forall>u \<in> set c'. fst (fst u) \<in> (fst \<circ> fst) ` set c"
    "\<forall>p v t. acc c' (p, v) t = (if accepts L e p v t then acc c (p, v) t else 0)" by blast
  have "\<forall>u \<in> set c'. \<forall>e \<in> set es. ext_ok e (fst (fst u))" using c'(2) Cons.prems by fastforce
  from Cons.IH[OF this] obtain r where r: "validate_all L es c' = Inr r"
    "\<forall>u \<in> set r. fst (fst u) \<in> (fst \<circ> fst) ` set c'"
    "\<forall>p v t. acc r (p, v) t = (if \<forall>e \<in> set es. accepts L e p v t then acc c' (p, v) t else 0)" by blast
  have "\<forall>u \<in> set r. fst (fst u) \<in> (fst \<circ> fst) ` set c" by (rule image_chain[OF r(2)]) (simp add: c'(2)[rule_format, simplified])
  with r(1,3) c'(1,3) show ?case by auto
qed

lemma nominations_eq:
  "nominations i (nominated_list L es 0 (coll_map (\<lambda>p. (p, initial_count, 0)) c)) =
     concat (map (\<lambda>(p, t, d). if \<exists>n. nominate L es 0 p t (initial_count, 0) = Some (n, i) then [(p, t, d)] else []) c)"
proof (induction c)
  case Nil
  then show ?case by (simp add: coll_map_def nominations_def)
next
  case (Cons u c)
  obtain p t d where u: "u = (p, t, d)" by (metis prod_cases3)
  have "nominations i (nominated_list L es 0 (coll_map (\<lambda>p. (p, initial_count, 0)) (u # c))) =
      nominations i (case nominate L es 0 p t (initial_count, 0) of None \<Rightarrow> [] | Some st' \<Rightarrow> [((p, st'), t, d)]) @
      nominations i (nominated_list L es 0 (coll_map (\<lambda>p. (p, initial_count, 0)) c))"
    by (simp add: coll_map_def nominations_def u)
  also have "nominations i (case nominate L es 0 p t (initial_count, 0) of None \<Rightarrow> [] | Some st' \<Rightarrow> [((p, st'), t, d)]) =
      (if \<exists>n. nominate L es 0 p t (initial_count, 0) = Some (n, i) then [(p, t, d)] else [])"
    by (auto simp: nominations_def split: option.splits)
  finally show ?case using Cons by (simp only: u list.map concat.simps prod.case)
qed

definition joins :: "'t lattice_ops \<Rightarrow> 't extender list \<Rightarrow> tuple \<Rightarrow> df_value \<Rightarrow> 't \<Rightarrow> bool" where
  "joins L es p v t \<longleftrightarrow> list_all (\<lambda>e. accepts L e p v t) es"

lemma extend_part:
  assumes ok: "\<forall>(p, t, d) \<in> set c. \<forall>e \<in> set es. ext_ok e p"
    and cons: "\<forall>e \<in> set es. consistent L e"
    and small: "\<forall>(p, t, d) \<in> set c. \<exists>e \<in> set es. small_count L e p t"
    and i: "i < length es"
  shows "\<exists>r. run_bind (ext_propose L (es ! i)
        (nominations i (nominated_list L es 0 (coll_map (\<lambda>p. (p, initial_count, 0)) c))))
      (validate_all L (map (\<lambda>j. es ! j) (filter (\<lambda>x. x \<noteq> i) [0..<length es]))) = Inr r \<and>
    (\<forall>u \<in> set r. fst (fst u) \<in> fst ` set c) \<and>
    (\<forall>p v t. acc r (p, v) t =
      (if joins L es p v t \<and> (\<exists>n. nominate L es 0 p t (initial_count, 0) = Some (n, i)) then acc c p t else 0))"
proof -
  let ?N = "nominations i (nominated_list L es 0 (coll_map (\<lambda>p. (p, initial_count, 0)) c))"
  let ?others = "map (\<lambda>j. es ! j) (filter (\<lambda>x. x \<noteq> i) [0..<length es])"
  let ?nom = "\<lambda>p t. \<exists>n. nominate L es 0 p t (initial_count, 0) = Some (n, i)"
  have N: "set ?N \<subseteq> {(p, t, d) \<in> set c. ?nom p t}" unfolding nominations_eq by (auto split: if_splits)
  have accN: "acc ?N p t = (if ?nom p t then acc c p t else 0)" for p t
    unfolding nominations_eq by (rule acc_keep)
  have propose: "\<exists>c'. ext_propose L (es ! i) ?N = Inr c' \<and> (\<forall>u \<in> set c'. fst (fst u) \<in> fst ` set ?N) \<and>
      (\<forall>p v t. acc c' (p, v) t = (if accepts L (es ! i) p v t then acc ?N p t else 0))"
  proof (cases "?N = []")
    case True
    then have "ext_propose L (es ! i) ?N = Inr []"
      by (cases "es ! i") (simp_all add: coll_map_def coll_map_run_def coll_flat_map_run_def)
    then show ?thesis by (simp add: True)
  next
    case False
    then obtain p t d where u: "(p, t, d) \<in> set ?N" by (metis list.set_intros(1) neq_Nil_conv prod_cases3)
    with N obtain n where "nominate L es 0 p t (initial_count, 0) = Some (n, i)" "(p, t, d) \<in> set c" by auto
    moreover from this small have "\<exists>e \<in> set es. small_count L e p t" by blast
    ultimately have "is_proposer (es ! i)"
      using nominate_proposer[of "[]" es "(initial_count, 0)" L p t "(n, i)"]
      by (simp add: nominee_inv_def)
    with cons i have "prefix_extender (ext_ok (es ! i)) (accepts L (es ! i)) (ext_validate L (es ! i))
        (ext_propose L (es ! i))" by (intro proposer_prefix_extender) auto
    moreover have "\<forall>u \<in> set ?N. ext_ok (es ! i) (fst u)" using N ok i by fastforce
    ultimately show ?thesis by (rule prefix_extender.propose_law)
  qed
  then obtain c' where c': "ext_propose L (es ! i) ?N = Inr c'" "\<forall>u \<in> set c'. fst (fst u) \<in> fst ` set ?N"
    "\<forall>p v t. acc c' (p, v) t = (if accepts L (es ! i) p v t then acc ?N p t else 0)" by blast
  have "\<forall>u \<in> set c'. \<forall>e \<in> set ?others. ext_ok e (fst (fst u))" using c'(2) N ok by fastforce
  from validate_all_law[OF this, of L] obtain r where r: "validate_all L ?others c' = Inr r"
    "\<forall>u \<in> set r. fst (fst u) \<in> (fst \<circ> fst) ` set c'"
    "\<forall>p v t. acc r (p, v) t = (if \<forall>e \<in> set ?others. accepts L e p v t then acc c' (p, v) t else 0)"
    by blast
  have split: "joins L es p v t \<longleftrightarrow> accepts L (es ! i) p v t \<and> (\<forall>e \<in> set ?others. accepts L e p v t)" for p v t
    using i by (auto simp: joins_def list_all_length)
  have sub: "\<forall>u \<in> set c'. fst (fst u) \<in> fst ` set c" by (rule image_chain[OF c'(2)]) (use N in \<open>auto intro: rev_image_eqI\<close>)
  have "\<forall>u \<in> set r. fst (fst u) \<in> fst ` set c" by (rule image_chain[OF r(2)]) (use sub in simp)
  then show ?thesis using c'(1,3) r(1,3) accN by (auto simp: split simp del: accepts.simps)
qed

lemma sum_single: "i < n \<Longrightarrow> (\<Sum>j \<leftarrow> [0..<n]. if j = i then a else (0 :: int)) = a"
  by (simp add: sum_list_sum_nth atLeast0LessThan)

lemma extend_several:
  assumes "2 \<le> length es"
    and ok: "\<forall>(p, t, d) \<in> set c. \<forall>e \<in> set es. ext_ok e p"
    and cons: "\<forall>e \<in> set es. consistent L e"
    and small: "\<forall>(p, t, d) \<in> set c. \<exists>e \<in> set es. small_count L e p t"
  shows "\<exists>r. extend L es c = Inr r \<and> (\<forall>u \<in> set r. fst (fst u) \<in> fst ` set c) \<and>
    (\<forall>p v t. acc r (p, v) t = (if joins L es p v t then acc c p t else 0))"
proof -
  let ?init = "coll_map (\<lambda>p. (p, initial_count, 0)) c"
  let ?part = "\<lambda>i. run_bind (ext_propose L (es ! i) (nominations i (nominated_list L es 0 ?init)))
      (validate_all L (map (\<lambda>j. es ! j) (filter (\<lambda>x. x \<noteq> i) [0..<length es])))"
  let ?nom = "\<lambda>p t i. \<exists>n. nominate L es 0 p t (initial_count, 0) = Some (n, i)"
  have "\<forall>u \<in> set ?init. \<forall>e \<in> set es. ext_ok e (fst (fst u))" using ok by (fastforce simp: coll_map_def)
  note nominated = count_all_nominates[OF this, of L 0]
  define g where "g i = projr (?part i)" for i
  have g: "?part i = Inr (g i)" "\<forall>u \<in> set (g i). fst (fst u) \<in> fst ` set c"
    "acc (g i) (p, v) t = (if joins L es p v t \<and> ?nom p t i then acc c p t else 0)"
    if "i < length es" for i p v t
    using extend_part[OF ok cons small that] by (auto simp: g_def)
  have "run_map ?part [0..<length es] = Inr (map g [0..<length es])"
    using g(1) by (intro run_map_total) simp
  then have "extend L es c = Inr (concat (map g [0..<length es]))"
    using assms(1) nominated by (auto simp: extend_def)
  moreover have "\<forall>u \<in> set (concat (map g [0..<length es])). fst (fst u) \<in> fst ` set c" using g(2) by simp
  moreover have "acc (concat (map g [0..<length es])) (p, v) t = (if joins L es p v t then acc c p t else 0)"
    for p v t
  proof -
    have sum: "acc (concat (map g [0..<length es])) (p, v) t =
        (\<Sum>i \<leftarrow> [0..<length es]. if joins L es p v t \<and> ?nom p t i then acc c p t else 0)"
      unfolding acc_concat map_map comp_def using g(3)[of _ p v t]
      by (intro arg_cong[of _ _ sum_list] map_cong refl) simp
    consider "acc c p t = 0" | "\<not> joins L es p v t" | d where "(p, t, d) \<in> set c" "joins L es p v t"
      using acc_absent by metis
    then show ?thesis
    proof cases
      case 1
      then show ?thesis unfolding sum by (simp cong: if_cong)
    next
      case 3
      then have e: "\<exists>e \<in> set es. small_count L e p t" using small by blast
      show ?thesis
      proof (cases "nominate L es 0 p t (initial_count, 0)")
        case None
        from nominate_None[OF this cons] 3(2) show ?thesis by (auto simp: joins_def list_all_iff)
      next
        case (Some st)
        with e nominate_proposer[of "[]" es "(initial_count, 0)" L p t st] have "snd st < length es"
          by (simp add: nominee_inv_def)
        moreover have "?nom p t i \<longleftrightarrow> i = snd st" for i using Some by (cases st) auto
        ultimately show ?thesis unfolding sum using 3(2) sum_single[of "snd st"] by simp
      qed
    qed (simp_all add: sum)
  qed
  ultimately show ?thesis by blast
qed

text \<open>A single extender only has to propose.\<close>

lemma extend_single:
  assumes "is_proposer e" and "\<forall>(p, t, d) \<in> set c. ext_ok e p" and "consistent L e"
  shows "\<exists>r. extend L [e] c = Inr r \<and> (\<forall>u \<in> set r. fst (fst u) \<in> fst ` set c) \<and>
    (\<forall>p v t. acc r (p, v) t = (if joins L [e] p v t then acc c p t else 0))"
proof -
  have "\<forall>u \<in> set c. ext_ok e (fst u)" using assms(2) by fastforce
  from prefix_extender.propose_law[OF proposer_prefix_extender[OF assms(1,3)] this]
  show ?thesis by (simp add: extend_def joins_def del: accepts.simps)
qed

lemma extend_join:
  assumes "\<forall>(p, t, d) \<in> set c. \<forall>e \<in> set es. ext_ok e p" and "\<forall>e \<in> set es. consistent L e"
    and "\<forall>(p, t, d) \<in> set c. \<exists>e \<in> set es. small_count L e p t" and "\<exists>e \<in> set es. is_proposer e"
  shows "\<exists>r. extend L es c = Inr r \<and> (\<forall>u \<in> set r. fst (fst u) \<in> fst ` set c) \<and>
    (\<forall>p v t. acc r (p, v) t = (if joins L es p v t then acc c p t else 0))"
proof (cases "2 \<le> length es")
  case True
  from extend_several[OF this assms(1-3)] show ?thesis .
next
  case False
  with assms(4) obtain e where es: "es = [e]" by (cases es rule: remdups_adj.cases) auto
  have "\<forall>(p, t, d) \<in> set c. ext_ok e p" using assms(1) by (auto simp: es)
  from extend_single[OF _ this] assms(2,4) show ?thesis by (simp add: es)
qed

section \<open>Properties\<close>

text \<open>C5: Extending a collection of prefixes by several extenders computes their join. Whatever the counts
  nominate for each prefix, an extension appears with the multiplicity of its prefix when every extender
  accepts it (constants, predicates, attributes and negations alike) and with multiplicity zero
  otherwise, and nothing panics. This needs each prefix to be long enough for the extenders, the indices
  of an attribute to agree, and some extender to count fewer than \<^verbatim>\<open>1 << 31\<close> extensions.\<close>

theorem extend_computes_join:
  assumes "2 \<le> length es"
    and ok: "\<forall>(p, t, d) \<in> set c. \<forall>e \<in> set es. ext_ok e p"
    and cons: "\<forall>e \<in> set es. consistent L e"
    and small: "\<forall>(p, t, d) \<in> set c. \<exists>e \<in> set es. small_count L e p t"
  shows "\<exists>r. extend L es c = Inr r \<and>
    (\<forall>p v t. acc r (p, v) t = (if joins L es p v t then acc c p t else 0))"
  using extend_several[OF assms] by blast

definition demo_indices :: "u64 attribute_indices" where
  "demo_indices =
     \<lparr> counts = [(Eid 1, [((), [(0, 2)])])],
       proposes = [(Eid 1, [(Number 5, [(0, 1)]), (Number 6, [(0, 1)])])],
       validates = [((Eid 1, Number 5), [((), [(0, 1)])]), ((Eid 1, Number 6), [((), [(0, 1)])])] \<rparr>"

lemma demo_consistent: "consistent_indices u64_ops demo_indices"
  unfolding consistent_indices_def
proof (intro conjI allI impI)
  fix k v t
  show "(\<exists>ts. map_of (validates demo_indices) (k, v) = Some [((), ts)] \<and> 0 < count_times u64_ops t ts) \<longleftrightarrow>
      (\<exists>vs ts. map_of (proposes demo_indices) k = Some vs \<and> (v, ts) \<in> set vs \<and>
         0 < count_times u64_ops t ts)"
    by (auto simp: demo_indices_def)
  assume "\<exists>ts. map_of (validates demo_indices) (k, v) = Some [((), ts)] \<and> 0 < count_times u64_ops t ts"
  then show "\<exists>ts. map_of (counts demo_indices) k = Some [((), ts)] \<and> 0 < as_usize (count_times u64_ops t ts)"
    by (auto simp: demo_indices_def count_times_def total_ops_def as_usize_def split: if_splits)
qed (auto simp: demo_indices_def)

theorem extend_computes_join_witness:
  "\<exists>r. extend u64_ops [CollectionExtender demo_indices 0, BinaryPredicateExtender GT (DirForward 1)]
       [([Eid 1, Number 5], 3, 1)] = Inr r \<and>
     acc r ([Eid 1, Number 5], Number 6) 3 = 1 \<and> acc r ([Eid 1, Number 5], Number 5) 3 = 0"
proof -
  let ?es = "[CollectionExtender demo_indices 0, BinaryPredicateExtender GT (DirForward 1)]"
  have "\<forall>(p, t, d) \<in> set [([Eid 1, Number 5], 3 :: u64, 1 :: int)]. \<forall>e \<in> set ?es. ext_ok e p"
    "\<forall>(p, t, d) \<in> set [([Eid 1, Number 5], 3 :: u64, 1 :: int)]. \<exists>e \<in> set ?es. small_count u64_ops e p t"
    by (auto simp: demo_indices_def index_count_def count_times_def total_ops_def as_usize_def
        initial_count_def)
  with extend_computes_join[of ?es "[([Eid 1, Number 5], 3, 1)]" u64_ops] demo_consistent
  obtain r where r: "extend u64_ops ?es [([Eid 1, Number 5], 3, 1)] = Inr r"
    "\<forall>p v t. acc r (p, v) t =
       (if joins u64_ops ?es p v t then acc [([Eid 1, Number 5], 3, 1)] p t else 0)" by auto
  have "joins u64_ops ?es [Eid 1, Number 5] (Number 6) 3"
    "\<not> joins u64_ops ?es [Eid 1, Number 5] (Number 5) 3"
    by (auto simp: joins_def demo_indices_def count_times_def total_ops_def less_df_value_def)
  with r show ?thesis by auto
qed

fun predicate_relation :: "binary_predicate \<Rightarrow> df_value \<Rightarrow> df_value \<Rightarrow> bool" where
  "predicate_relation LT a b = (a < b)"
| "predicate_relation GT a b = (a > b)"
| "predicate_relation LTE a b = (a \<le> b)"
| "predicate_relation GTE a b = (a \<ge> b)"
| "predicate_relation EQ a b = (a = b)"
| "predicate_relation NEQ a b = (a \<noteq> b)"

definition env :: "var list \<Rightarrow> tuple \<Rightarrow> var \<Rightarrow> df_value" where
  "env vars tup x = tup ! the (vec_binds vars x)"

lemma vec_binds_append:
  "vec_binds (ps @ [y]) x = (case vec_binds ps x of
     Some i \<Rightarrow> Some i | None \<Rightarrow> if x = y then Some (length ps) else None)"
  unfolding vec_binds_def by (induction ps) (auto split: option.splits)

lemma env_append:
  assumes "length p = length ps"
  shows "x \<in> set ps \<Longrightarrow> env (ps @ [y]) (p @ [v]) x = p ! the (vec_binds ps x)"
    and "y \<notin> set ps \<Longrightarrow> env (ps @ [y]) (p @ [v]) y = v"
  using assms vec_binds_None[of ps x] vec_binds_None[of ps y]
  by (auto simp: env_def vec_binds_append nth_append dest: vec_binds_Some split: option.splits)

text \<open>What a binary predicate \<^verbatim>\<open>(pred x y)\<close> filters by, whichever of its variables the prefix is
  extended to: the relation named by the predicate holds between the value of \<^verbatim>\<open>y\<close> and the value of
  \<^verbatim>\<open>x\<close>, in this order, so that \<^verbatim>\<open>(LT x y)\<close> keeps the tuples with \<open>y < x\<close>.\<close>

theorem binary_predicate_order:
  assumes "length p = length vars" and "target \<notin> set vars"
    and "(x \<in> set vars \<and> y = target) \<or> (y \<in> set vars \<and> x = target)"
  shows "\<exists>e. predicate_into_extender (BinaryPredicateBinding (x, y) pred) (vec_binds vars) = [e] \<and>
    ext_ok e p \<and> accepts L e p v t =
      predicate_relation pred (env (vars @ [target]) (p @ [v]) y) (env (vars @ [target]) (p @ [v]) x)"
proof -
  have split: "predicate_holds pred (DirForward i) v w = predicate_relation pred v w"
    "predicate_holds pred (DirReverse i) v w = predicate_relation pred w v" for i w
    by (cases pred; auto)+
  from assms(3) show ?thesis
  proof
    assume xy: "x \<in> set vars \<and> y = target"
    then obtain i where i: "vec_binds vars x = Some i" using vec_binds_None[of vars x] by auto
    moreover have "vec_binds vars target = None" using assms(2) by (simp add: vec_binds_None)
    ultimately show ?thesis
      using xy assms(1,2) vec_binds_Some[OF i]
      by (simp add: predicate_into_extender_def direction_def env_append split)
  next
    assume xy: "y \<in> set vars \<and> x = target"
    then obtain i where i: "vec_binds vars y = Some i" using vec_binds_None[of vars y] by auto
    moreover have "vec_binds vars target = None" using assms(2) by (simp add: vec_binds_None)
    ultimately show ?thesis
      using xy assms(1,2) vec_binds_Some[OF i]
      by (simp add: predicate_into_extender_def direction_def env_append split)
  qed
qed

theorem binary_predicate_order_witness:
  "\<exists>e. predicate_into_extender (BinaryPredicateBinding (1, 2) LT) (vec_binds [0, 1]) = [e] \<and>
     ext_ok e [Number 7, Number 9] \<and> accepts u64_ops e [Number 7, Number 9] (Number 8) 0"
  using binary_predicate_order[of "[Number 7, Number 9]" "[0, 1]" 2 1 2 LT u64_ops "Number 8" 0]
  by (simp add: env_def vec_binds_def less_df_value_def)

end
