(* ===== verification/Hector.thy ===== *)
theory Hector
  imports Extend Relations Operators
begin

text \<open>
  Worst-case optimal joins by delta queries, from \<^verbatim>\<open>src/src/plan/hector.rs\<close>: \<^verbatim>\<open>implement_single_binding\<close> and
  \<^verbatim>\<open>Hector::implement\<close>. Every attribute binding drives one pipeline, which extends the changes of its attribute
  variable by variable through all the other bindings.

  An arrangement is the storage its cursors walk over; importing one of the six indices of an attribute into a
  scope belongs to differential dataflow and is a field of \<open>index_imports\<close>. The pipelines run in a scope with
  \<^verbatim>\<open>AltNeu\<close> times: \<^verbatim>\<open>enter\<close> makes a time old, \<^verbatim>\<open>enter_at\<close> makes it old or new, \<^verbatim>\<open>leave\<close> forgets the mark. As
  \<^verbatim>\<open>plan_order\<close> need not return, neither need an implementation: its value is then \<open>None\<close>. The optional logging
  of tuple counts is left out.
\<close>

type_synonym 't inner_time = "'t nested altneu"

record 't index_imports =
  import_counts :: "(df_value, 't) trace_key_handle \<Rightarrow> (df_value, unit, 't) storage"
  import_proposes :: "(df_value, df_value, 't) trace_val_handle \<Rightarrow> (df_value, df_value, 't) storage"
  import_validates :: "(df_value \<times> df_value, 't) trace_key_handle \<Rightarrow> (df_value \<times> df_value, unit, 't) storage"

section \<open>Arrangements\<close>

definition as_collection :: "('k, 'v, 't) storage \<Rightarrow> ('k \<times> 'v, 't) collection" where
  "as_collection st = concat (map (\<lambda>(k, vs). concat (map (\<lambda>(v, ts). map (\<lambda>(t, d). ((k, v), t, d)) ts) vs)) st)"

definition map_storage_times :: "('t \<Rightarrow> 's) \<Rightarrow> ('k, 'v, 't) storage \<Rightarrow> ('k, 'v, 's) storage" where
  "map_storage_times f st = map (\<lambda>(k, vs). (k, map (\<lambda>(v, ts). (v, map (\<lambda>(t, d). (f t, d)) ts)) vs)) st"

definition coll_map_times :: "('t \<Rightarrow> 's) \<Rightarrow> ('d, 't) collection \<Rightarrow> ('d, 's) collection" where
  "coll_map_times f c = map (\<lambda>(x, t, d). (x, f t, d)) c"

text \<open>\<^verbatim>\<open>.enter(&scope.parent).enter_at(&scope, |_, _, t| AltNeu { time: t.clone(), neu })\<close>.\<close>

definition enter_at :: "bool \<Rightarrow> ('k, 'v, 't) storage \<Rightarrow> ('k, 'v, 't inner_time) storage" where
  "enter_at is_new st = map_storage_times (\<lambda>t. AltNeu (t, 0) is_new) st"

text \<open>\<^verbatim>\<open>.enter(&scope.parent).enter(&scope)\<close> on the way in and \<^verbatim>\<open>.leave()\<close> on the way out.\<close>

definition enter_alt :: "('d, 't) collection \<Rightarrow> ('d, 't inner_time) collection" where
  "enter_alt c = coll_map_times (\<lambda>t. altneu_to_inner (t, 0)) c"

definition leave_alt :: "('d, 't inner_time) collection \<Rightarrow> ('d, 't nested) collection" where
  "leave_alt c = coll_map_times altneu_to_outer c"

section \<open>A single binding\<close>

fun pair_index :: "df_value \<times> df_value \<Rightarrow> usize \<Rightarrow> df_value run" where
  "pair_index (x, y) i = (if i \<le> 1 then Inr (if i = 0 then x else y) else Inl ''assertion failed'')"

text \<open>The prefix of a single binding is the vector of its variables.\<close>

definition implement_single_binding ::
  "'t index_imports \<Rightarrow> ('t, 'r, 'pr) dom \<Rightarrow> var list \<Rightarrow> aid binding list \<Rightarrow> ('t implemented \<times> handle) run" where
  "implement_single_binding imports dm vs bindings =
     (case bindings ! 0 of
        Attribute b \<Rightarrow>
          (case forward_propose_of (source_attribute b) dm of
             None \<Rightarrow> Inl ''Unknown attribute''
           | Some forward_trace \<Rightarrow>
               (let forward = import_proposes imports forward_trace; prefix = variables (Attribute b) in
                run_bind (coll_map_run (\<lambda>tup. run_map (\<lambda>x.
                    run_bind (expect ''called `Option::unwrap()` on a `None` value'' (vec_binds prefix x))
                      (pair_index tup)) vs) (enter (as_collection forward))) (\<lambda>tuples.
                  Inr (ImplCollection \<lparr> rel_variables = vs, rel_tuples = tuples \<rparr>,
                       from_button (Propose (source_attribute b))))))
      | _ \<Rightarrow> Inl ''Passed a single, non-sourceable binding.'')"

section \<open>Cached indices\<close>

record 't index_caches =
  forward_counts :: "(aid, (df_value, unit, 't) storage) hash_map"
  forward_proposes :: "(aid, (df_value, df_value, 't) storage) hash_map"
  forward_validates :: "(aid, (df_value \<times> df_value, unit, 't) storage) hash_map"
  reverse_counts :: "(aid, (df_value, unit, 't) storage) hash_map"
  reverse_proposes :: "(aid, (df_value, df_value, 't) storage) hash_map"
  reverse_validates :: "(aid, (df_value \<times> df_value, unit, 't) storage) hash_map"
  cache_handle :: handle

definition no_caches :: "'t index_caches" where
  "no_caches = \<lparr> forward_counts = [], forward_proposes = [], forward_validates = [], reverse_counts = [],
     reverse_proposes = [], reverse_validates = [], cache_handle = handle_empty \<rparr>"

text \<open>\<^verbatim>\<open>cache.entry(name).or_insert_with(|| { .. })\<close>: the entry, the cache and the shutdown handle afterwards.\<close>

definition or_insert_with ::
  "aid \<Rightarrow> 's run \<Rightarrow> button \<Rightarrow> (aid, 's) hash_map \<Rightarrow> handle \<Rightarrow> ('s \<times> (aid, 's) hash_map \<times> handle) run" where
  "or_insert_with name fetch button cache h =
     (case map_of cache name of
        Some arranged \<Rightarrow> Inr (arranged, cache, h)
      | None \<Rightarrow> run_bind fetch (\<lambda>arranged. Inr (arranged, hm_insert name arranged cache, add_button h button)))"

definition fetch_index :: "string \<Rightarrow> ('h \<Rightarrow> 's) \<Rightarrow> 'h option \<Rightarrow> 's run" where
  "fetch_index m import_index trace = run_bind (expect m trace) (\<lambda>tr. Inr (import_index tr))"

definition forward_indices ::
  "'t index_imports \<Rightarrow> ('t, 'r, 'pr) dom \<Rightarrow> aid \<Rightarrow> bool \<Rightarrow> 't index_caches \<Rightarrow>
   ('t inner_time attribute_indices \<times> 't index_caches) run" where
  "forward_indices imports dm a is_new caches =
     run_bind (or_insert_with a (fetch_index ''forward count doesn't exist'' (import_counts imports)
         (forward_count_of a dm)) (Count a) (forward_counts caches) (cache_handle caches)) (\<lambda>(count, cs, h1).
     run_bind (or_insert_with a (fetch_index ''forward propose doesn't exist'' (import_proposes imports)
         (forward_propose_of a dm)) (Propose a) (forward_proposes caches) h1) (\<lambda>(propose, ps, h2).
     run_bind (or_insert_with a (fetch_index ''forward validate doesn't exist'' (import_validates imports)
         (forward_validate_of a dm)) (Validate a) (forward_validates caches) h2) (\<lambda>(validate, vs, h3).
       Inr (\<lparr> counts = enter_at is_new count, proposes = enter_at is_new propose,
              validates = enter_at is_new validate \<rparr>,
            caches \<lparr> forward_counts := cs, forward_proposes := ps, forward_validates := vs, cache_handle := h3 \<rparr>))))"

definition reverse_indices ::
  "'t index_imports \<Rightarrow> ('t, 'r, 'pr) dom \<Rightarrow> aid \<Rightarrow> bool \<Rightarrow> 't index_caches \<Rightarrow>
   ('t inner_time attribute_indices \<times> 't index_caches) run" where
  "reverse_indices imports dm a is_new caches =
     run_bind (or_insert_with a (fetch_index ''reverse count doesn't exist'' (import_counts imports)
         (reverse_count_of a dm)) (ReverseCount a) (reverse_counts caches) (cache_handle caches)) (\<lambda>(count, cs, h1).
     run_bind (or_insert_with a (fetch_index ''reverse propose doesn't exist'' (import_proposes imports)
         (reverse_propose_of a dm)) (ReversePropose a) (reverse_proposes caches) h1) (\<lambda>(propose, ps, h2).
     run_bind (or_insert_with a (fetch_index ''reverse validate doesn't exist'' (import_validates imports)
         (reverse_validate_of a dm)) (ReverseValidate a) (reverse_validates caches) h2) (\<lambda>(validate, vs, h3).
       Inr (\<lparr> counts = enter_at is_new count, proposes = enter_at is_new propose,
              validates = enter_at is_new validate \<rparr>,
            caches \<lparr> reverse_counts := cs, reverse_proposes := ps, reverse_validates := vs, cache_handle := h3 \<rparr>))))"

section \<open>Extenders for a variable\<close>

text \<open>The queue of bindings, in which a negation follows the binding it negates.\<close>

definition binding_queue :: "'a binding list \<Rightarrow> (usize \<times> 'a binding) list" where
  "binding_queue bindings =
     concat (map (\<lambda>(idx, b). case b of Not inner \<Rightarrow> [(idx, inner), (idx, Not inner)] | _ \<Rightarrow> [(idx, b)])
       (enumerated bindings))"

definition attribute_extender ::
  "'t index_imports \<Rightarrow> ('t, 'r, 'pr) dom \<Rightarrow> var list \<Rightarrow> bool \<Rightarrow> aid attribute_binding \<Rightarrow> 't index_caches \<Rightarrow>
   ('t inner_time extender \<times> 't index_caches) run" where
  "attribute_extender imports dm prefix is_new other caches =
     (case direction (vec_binds prefix) (ab_variables other) of
        Inl msg \<Rightarrow> Inl msg
      | Inr (DirForward offset) \<Rightarrow>
          run_bind (forward_indices imports dm (source_attribute other) is_new caches)
            (\<lambda>(I, caches'). Inr (CollectionExtender I offset, caches'))
      | Inr (DirReverse offset) \<Rightarrow>
          run_bind (reverse_indices imports dm (source_attribute other) is_new caches)
            (\<lambda>(I, caches'). Inr (CollectionExtender I offset, caches')))"

fun add_extender ::
  "'t index_imports \<Rightarrow> ('t, 'r, 'pr) dom \<Rightarrow> var list \<Rightarrow> bool \<Rightarrow> aid binding \<Rightarrow>
   't inner_time extender list \<Rightarrow> 't index_caches \<Rightarrow>
   ('t inner_time extender list \<times> 't index_caches) run" where
  "add_extender imports dm prefix is_new (Not _) extenders caches =
     (if extenders = [] then Inl ''No internal extender available on stack.''
      else Inr (butlast extenders @ [AntijoinExtender (last extenders)], caches))"
| "add_extender imports dm prefix is_new (Constant other) extenders caches =
     Inr (extenders @ constant_into_extender other, caches)"
| "add_extender imports dm prefix is_new (BinaryPredicate other) extenders caches =
     Inr (extenders @ predicate_into_extender other (vec_binds prefix), caches)"
| "add_extender imports dm prefix is_new (Attribute other) extenders caches =
     run_bind (attribute_extender imports dm prefix is_new other caches)
       (\<lambda>(e, caches'). Inr (extenders @ [e], caches'))"

fun gather_extenders ::
  "'t index_imports \<Rightarrow> ('t, 'r, 'pr) dom \<Rightarrow> usize \<Rightarrow> var list \<Rightarrow> var \<Rightarrow> (usize \<times> aid binding) list \<Rightarrow>
   't inner_time extender list \<Rightarrow> 't index_caches \<Rightarrow>
   ('t inner_time extender list \<times> 't index_caches) run" where
  "gather_extenders imports dm idx prefix target [] extenders caches = Inr (extenders, caches)"
| "gather_extenders imports dm idx prefix target ((other_idx, other) # queue) extenders caches =
     (if other_idx = idx \<or> binds other target = None \<or> \<not> can_extend other (vec_binds prefix) target
      then gather_extenders imports dm idx prefix target queue extenders caches
      else run_bind (add_extender imports dm prefix (other_idx \<ge> idx) other extenders caches)
        (\<lambda>(extenders', caches'). gather_extenders imports dm idx prefix target queue extenders' caches'))"

section \<open>Delta pipelines\<close>

fun extend_targets ::
  "'t inner_time lattice_ops \<Rightarrow> 't index_imports \<Rightarrow> ('t, 'r, 'pr) dom \<Rightarrow> aid binding list \<Rightarrow> usize \<Rightarrow> var list \<Rightarrow>
   var list \<times> (tuple, 't inner_time) collection \<times> 't index_caches \<Rightarrow>
   (var list \<times> (tuple, 't inner_time) collection \<times> 't index_caches) run" where
  "extend_targets N imports dm bindings idx [] st = Inr st"
| "extend_targets N imports dm bindings idx (target # targets) (prefix, source, caches) =
     (if vec_binds prefix target \<noteq> None
      then extend_targets N imports dm bindings idx targets (prefix, source, caches)
      else run_bind (gather_extenders imports dm idx prefix target (binding_queue bindings) [] caches)
        (\<lambda>(extenders, caches').
         run_bind (Extend.extend N extenders source) (\<lambda>extended.
           extend_targets N imports dm bindings idx targets
             (prefix @ [target], coll_map (\<lambda>(tup, v). tup @ [v]) extended, caches'))))"

text \<open>The changes of the source attribute. A constant on one of its variables is resolved here: the constant's
  variable comes first in the prefix.\<close>

definition resolve_conflict ::
  "aid attribute_binding \<Rightarrow> aid binding \<Rightarrow> (df_value, df_value, 't) storage \<Rightarrow>
   (var list \<times> (tuple, 't inner_time) collection) run" where
  "resolve_conflict delta other propose =
     (case other of
        Constant c \<Rightarrow>
          (case direction (vec_binds [cb_variable c]) (ab_variables delta) of
             Inl msg \<Rightarrow> Inl msg
           | Inr (DirForward _) \<Rightarrow>
               Inr ([cb_variable c, snd (ab_variables delta)],
                 coll_map (\<lambda>(e, v). [e, v]) (enter_alt (coll_filter (\<lambda>(e, v). e = cb_value c) (as_collection propose))))
           | Inr (DirReverse _) \<Rightarrow>
               Inr ([cb_variable c, fst (ab_variables delta)],
                 coll_map (\<lambda>(v, e). [e, v]) (enter_alt (coll_filter (\<lambda>(e, v). v = cb_value c) (as_collection propose)))))
      | _ \<Rightarrow> Inl ''Can't resolve conflicts on these bindings'')"

definition delta_source ::
  "'t index_imports \<Rightarrow> ('t, 'r, 'pr) dom \<Rightarrow> aid binding list \<Rightarrow> usize \<Rightarrow> aid attribute_binding \<Rightarrow>
   't index_caches \<Rightarrow> (var list \<times> (tuple, 't inner_time) collection \<times> 't index_caches) run" where
  "delta_source imports dm bindings idx delta caches =
     (let a = source_attribute delta in
      run_bind (or_insert_with a (fetch_index ''forward propose trace doesn't exist'' (import_proposes imports)
          (forward_propose_of a dm)) (Propose a) (forward_proposes caches) (cache_handle caches)) (\<lambda>(propose, ps, h).
      run_bind (source_conflicts idx bindings) (\<lambda>conflicts.
      run_bind (if conflicts \<noteq> [] then
                  if length conflicts = 1 then resolve_conflict delta (last conflicts) propose
                  else Inl ''assertion failed''
                else Inr ([fst (ab_variables delta), snd (ab_variables delta)],
                       coll_map (\<lambda>(e, v). [e, v]) (enter_alt (as_collection propose)))) (\<lambda>(prefix, source).
        Inr (prefix, source, caches \<lparr> forward_proposes := ps, cache_handle := h \<rparr>)))))"

definition delta_pipeline ::
  "'t lattice_ops \<Rightarrow> 't index_imports \<Rightarrow> ('t, 'r, 'pr) dom \<Rightarrow> var list \<Rightarrow> aid binding list \<Rightarrow> usize \<Rightarrow>
   aid attribute_binding \<Rightarrow> 't index_caches \<Rightarrow> ((tuple, 't inner_time) collection \<times> 't index_caches) run option" where
  "delta_pipeline L imports dm vs bindings idx delta caches =
     (case plan_order idx bindings of
        None \<Rightarrow> None
      | Some order \<Rightarrow> Some (run_bind order (\<lambda>(variables, _).
          run_bind (delta_source imports dm bindings idx delta caches) (\<lambda>st.
          run_bind (extend_targets (altneu_ops (nested_ops L)) imports dm bindings idx variables st)
            (\<lambda>(prefix, source, caches').
              if vs = prefix then Inr (source, caches')
              else run_bind (coll_map_run (project_tuple prefix vs) source) (\<lambda>c. Inr (c, caches')))))))"

fun delta_pipelines ::
  "'t lattice_ops \<Rightarrow> 't index_imports \<Rightarrow> ('t, 'r, 'pr) dom \<Rightarrow> var list \<Rightarrow> aid binding list \<Rightarrow>
   (usize \<times> aid binding) list \<Rightarrow> 't index_caches \<Rightarrow>
   ((tuple, 't inner_time) collection list \<times> 't index_caches) run option" where
  "delta_pipelines L imports dm vs bindings [] caches = Some (Inr ([], caches))"
| "delta_pipelines L imports dm vs bindings ((idx, Attribute delta) # rest) caches =
     (case delta_pipeline L imports dm vs bindings idx delta caches of
        None \<Rightarrow> None
      | Some (Inl msg) \<Rightarrow> Some (Inl msg)
      | Some (Inr (change, caches')) \<Rightarrow>
          map_option (\<lambda>r. run_bind r (\<lambda>(changes, caches''). Inr (change # changes, caches'')))
            (delta_pipelines L imports dm vs bindings rest caches'))"
| "delta_pipelines L imports dm vs bindings ((idx, _) # rest) caches =
     delta_pipelines L imports dm vs bindings rest caches"

definition hector_implement ::
  "'t lattice_ops \<Rightarrow> 't index_imports \<Rightarrow> ('t, 'r, 'pr) dom \<Rightarrow> var list \<Rightarrow> aid binding list \<Rightarrow>
   ('t implemented \<times> handle) run option" where
  "hector_implement L imports dm vs bindings =
     (if bindings = [] then Some (Inl ''No bindings passed.'')
      else if vs = [] then Some (Inl ''No variables requested.'')
      else if length bindings = 1 then Some (implement_single_binding imports dm vs bindings)
      else map_option (\<lambda>r. run_bind r (\<lambda>(changes, caches).
             Inr (ImplCollection \<lparr> rel_variables = vs, rel_tuples = leave_alt (concat changes) \<rparr>, cache_handle caches)))
        (delta_pipelines L imports dm vs bindings (enumerated bindings) no_caches))"

end
