(* ===== verification/Index_Semantics.thy ===== *)
theory Index_Semantics
  imports Hector Plan_Semantics
begin

text \<open>
  What the indices of an attribute show to a delta pipeline. The laws \<open>indexes\<close> and \<open>attribute_indexed\<close> say what an
  imported arrangement holds. An index that entered the scope as old shows all updates up to a time, one that
  entered as new only those strictly before it, and either way the three indices of an attribute agree.
\<close>

section \<open>Visible updates\<close>

definition visible :: "bool \<Rightarrow> 't::linorder \<Rightarrow> 't \<Rightarrow> bool" where
  "visible strictly s t \<longleftrightarrow> (if strictly then s < t else s \<le> t)"

fun upd_seen :: "bool \<Rightarrow> 'd \<Rightarrow> 't::linorder \<Rightarrow> ('d, 't) update \<Rightarrow> int" where
  "upd_seen strictly x t (y, s, d) = (if y = x \<and> visible strictly s t then d else 0)"

definition seen :: "bool \<Rightarrow> ('d, 't::linorder) collection \<Rightarrow> 'd \<Rightarrow> 't \<Rightarrow> int" where
  "seen strictly c x t = (\<Sum>u \<leftarrow> c. upd_seen strictly x t u)"

lemma seen_Nil [simp]: "seen m [] x t = 0"
  by (simp add: seen_def)

lemma seen_Cons [simp]: "seen m (u # c) x t = upd_seen m x t u + seen m c x t"
  by (simp add: seen_def)

lemma seen_append [simp]: "seen m (c @ c') x t = seen m c x t + seen m c' x t"
  by (simp add: seen_def)

lemma seen_total: "seen False c x t = total_at (total_ops b) c x t"
  by (induction c) (auto simp: visible_def total_ops_def)

text \<open>What is seen is determined by the multiplicities at the single times.\<close>

abbreviation upd_times :: "('d, 't) collection \<Rightarrow> 't set" where
  "upd_times c \<equiv> (fst \<circ> snd) ` set c"

lemma seen_acc:
  assumes "finite S" and "upd_times c \<subseteq> S"
  shows "seen m c x t = (\<Sum>s \<in> {s \<in> S. visible m s t}. acc c x s)"
  using assms(2)
proof (induction c)
  case Nil
  then show ?case by simp
next
  case (Cons u c)
  obtain y r d where u: "u = (y, r, d)" by (metis prod_cases3)
  have "(\<Sum>s \<in> {s \<in> S. visible m s t}. upd_contrib x s u) =
      (\<Sum>s \<in> {s \<in> S. visible m s t}. if r = s then (if y = x then d else 0) else 0)"
    by (rule sum.cong) (auto simp: u)
  also have "\<dots> = upd_seen m x t u" using Cons.prems assms(1) by (subst sum.delta') (auto simp: u)
  finally show ?case using Cons by (simp add: sum.distrib)
qed

lemma seen_cong:
  assumes "\<And>s. acc c x s = acc c' y s"
  shows "seen m c x t = seen m c' y t"
proof -
  let ?S = "upd_times c \<union> upd_times c'"
  have "finite ?S" by simp
  from seen_acc[OF this, of c m x t] seen_acc[OF this, of c' m y t] assms show ?thesis by simp
qed

text \<open>Strictly before a time one sees what one sees at the last update before it.\<close>

lemma seen_strict:
  assumes "finite S" and "upd_times c \<subseteq> S"
  shows "seen True c x t =
    (if \<exists>s \<in> S. s < t then seen False c x (Max {s \<in> S. s < t}) else 0)"
proof (cases "\<exists>s \<in> S. s < t")
  case True
  let ?B = "{s \<in> S. s < t}"
  have fin: "finite ?B" "?B \<noteq> {}" using assms(1) True by auto
  then have "Max ?B \<in> ?B" by (rule Max_in)
  then have max: "Max ?B < t" by simp
  have "{s \<in> S. visible True s t} = {s \<in> S. visible False s (Max ?B)}"
    using max Max_ge[OF fin(1)] by (auto simp: visible_def)
  with True show ?thesis by (simp add: seen_acc[OF assms])
next
  case False
  then have "{s \<in> S. visible True s t} = {}" by (auto simp: visible_def)
  with False show ?thesis by (simp only: seen_acc[OF assms] sum.empty if_False)
qed

lemma seen_step:
  "seen False c x t - seen True c x t = acc c x t"
  by (induction c) (auto simp: visible_def split: if_splits)

section \<open>Indices\<close>

definition indexes :: "('k, 'v, 't) storage \<Rightarrow> ('k \<times> 'v, 't) collection \<Rightarrow> bool" where
  "indexes st c \<longleftrightarrow> distinct (map fst st) \<and>
     (\<forall>(k, vs) \<in> set st. vs \<noteq> [] \<and> distinct (map fst vs)) \<and>
     (\<forall>x t. acc (as_collection st) x t = acc c x t)"

definition entry_times :: "('k, 'v, 't) storage \<Rightarrow> 'k \<Rightarrow> 'v \<Rightarrow> ('t \<times> int) list" where
  "entry_times st k v = (case map_of st k of None \<Rightarrow> [] | Some vs \<Rightarrow> (case map_of vs v of None \<Rightarrow> [] | Some ts \<Rightarrow> ts))"

lemma seen_other: "x \<notin> fst ` set c \<Longrightarrow> seen m c x t = 0"
  by (induction c) auto

lemma as_collection_Cons:
  "as_collection ((k, vs) # st) =
     concat (map (\<lambda>(v, ts). map (\<lambda>(t, d). ((k, v), t, d)) ts) vs) @ as_collection st"
  by (simp add: as_collection_def)

lemma seen_entry:
  "distinct (map fst vs) \<Longrightarrow> seen m (concat (map (\<lambda>(v, ts). map (\<lambda>(t, d). ((k, v), t, d)) ts) vs)) (k', v) t =
     (if k' = k then (\<Sum>(s, d) \<leftarrow> (case map_of vs v of None \<Rightarrow> [] | Some ts \<Rightarrow> ts). if visible m s t then d else 0) else 0)"
proof (induction vs)
  case Nil
  then show ?case by simp
next
  case (Cons e vs)
  obtain w ts where e: "e = (w, ts)" by fastforce
  have "seen m (map (\<lambda>(t, d). ((k, w), t, d)) ts) (k', v) t =
      (if k' = k \<and> w = v then (\<Sum>(s, d) \<leftarrow> ts. if visible m s t then d else 0) else 0)"
    by (induction ts) auto
  moreover have "w = v \<Longrightarrow> map_of vs v = None" using Cons.prems by (auto simp: e map_of_eq_None_iff)
  ultimately show ?case using Cons by (auto simp: e)
qed

lemma seen_storage:
  assumes "distinct (map fst st)" and "\<forall>(k, vs) \<in> set st. distinct (map fst vs)"
  shows "(\<Sum>(s, d) \<leftarrow> entry_times st k v. if visible m s t then d else 0) = seen m (as_collection st) (k, v) t"
  using assms
proof (induction st)
  case Nil
  then show ?case by (simp add: entry_times_def as_collection_def)
next
  case (Cons e st)
  obtain k' vs where e: "e = (k', vs)" by fastforce
  have vs: "distinct (map fst vs)" using Cons.prems(2) by (simp add: e)
  have "seen m (as_collection st) (k, v) t = 0" if "k = k'"
  proof (rule seen_other)
    have "k \<notin> fst ` set st" using Cons.prems(1) that by (simp add: e)
    then show "(k, v) \<notin> fst ` set (as_collection st)" by (force simp: as_collection_def)
  qed
  moreover have "entry_times (e # st) k v = (if k = k' then (case map_of vs v of None \<Rightarrow> [] | Some ts \<Rightarrow> ts) else entry_times st k v)"
    by (simp add: e entry_times_def)
  ultimately show ?case
    using Cons unfolding e as_collection_Cons seen_append seen_entry[OF vs] by auto
qed

lemma seen_indexes:
  assumes "indexes st c"
  shows "(\<Sum>(s, d) \<leftarrow> entry_times st k v. if visible m s t then d else 0) = seen m c (k, v) t"
proof -
  have "seen m (as_collection st) (k, v) t = seen m c (k, v) t"
    using assms by (intro seen_cong) (simp add: indexes_def)
  with seen_storage[of st] assms show ?thesis by (fastforce simp: indexes_def)
qed

section \<open>Times of the pipelines\<close>

abbreviation pipeline_ops :: "'t::linorder \<Rightarrow> 't inner_time lattice_ops" where
  "pipeline_ops b \<equiv> altneu_ops (nested_ops (total_ops b))"

fun strictly_before :: "bool \<Rightarrow> 't inner_time \<Rightarrow> bool" where
  "strictly_before is_new (AltNeu (t, r) n) \<longleftrightarrow> is_new \<and> r = 0 \<and> \<not> n"

abbreviation base_time :: "'t inner_time \<Rightarrow> 't" where
  "base_time T \<equiv> fst (inner_time T)"

lemma pipeline_visible:
  "less_equal (pipeline_ops b) (AltNeu (s, 0) m) T \<longleftrightarrow> visible (strictly_before m T) s (base_time T)"
proof -
  obtain t r n where "T = AltNeu (t, r) n" by (metis altneu.exhaust prod.exhaust)
  then show ?thesis
    by (cases "r = 0") (auto simp: altneu_ops_def altneu_less_equal_def nested_ops_def total_ops_def visible_def)
qed

lemma count_times_enter:
  "count_times (pipeline_ops b) T (map (\<lambda>(t, d). (AltNeu (t, 0) m, d)) ts) =
     (\<Sum>(s, d) \<leftarrow> ts. if visible (strictly_before m T) s (base_time T) then d else 0)"
  by (induction ts) (auto simp: count_times_def pipeline_visible)

lemma map_of_enter_at:
  "map_of (enter_at m st) k =
     map_option (map (\<lambda>(v, ts). (v, map (\<lambda>(t, d). (AltNeu (t, 0) m, d)) ts))) (map_of st k)"
  by (induction st) (auto simp: enter_at_def map_storage_times_def)

lemma enter_at_set:
  "(k, vs) \<in> set (enter_at m st) \<Longrightarrow>
   \<exists>vs'. (k, vs') \<in> set st \<and> vs = map (\<lambda>(v, ts). (v, map (\<lambda>(t, d). (AltNeu (t, 0) m, d)) ts)) vs'"
  by (auto simp: enter_at_def map_storage_times_def)

lemma unit_entries: "vs \<noteq> [] \<Longrightarrow> distinct (map fst vs) \<Longrightarrow> \<exists>ts. vs = [((), ts)]"
proof (cases vs)
  case (Cons e vs')
  moreover assume "distinct (map fst vs)"
  ultimately show ?thesis by (cases vs'; cases e) auto
qed simp

lemma key_index_seen:
  fixes c :: "('k \<times> unit, 't::linorder) collection"
  assumes "indexes st c"
  shows "(\<exists>ts. map_of (enter_at m st) k = Some [((), ts)] \<and> P (count_times (pipeline_ops b) T ts)) \<longleftrightarrow>
    map_of st k \<noteq> None \<and> P (seen (strictly_before m T) c (k, ()) (base_time T))"
proof (cases "map_of st k")
  case None
  then show ?thesis by (simp add: map_of_enter_at)
next
  case (Some vs)
  from map_of_SomeD[OF Some] assms obtain ts where "vs = [((), ts)]"
    using unit_entries by (fastforce simp: indexes_def)
  with Some seen_indexes[OF assms, of "strictly_before m T" "base_time T" k "()"] show ?thesis
    by (simp add: map_of_enter_at count_times_enter entry_times_def)
qed

lemma absent_seen:
  assumes "indexes st c" and "map_of st k = None"
  shows "seen m c (k, v) t = 0"
  using seen_indexes[OF assms(1), of m t k v] assms(2) by (simp add: entry_times_def)

lemma val_index_seen:
  fixes c :: "('k \<times> 'v, 't::linorder) collection"
  assumes "indexes st c"
  shows "(\<exists>vs ts. map_of (enter_at m st) k = Some vs \<and> (v, ts) \<in> set vs \<and> 0 < count_times (pipeline_ops b) T ts) \<longleftrightarrow>
    0 < seen (strictly_before m T) c (k, v) (base_time T)"
proof (cases "map_of st k")
  case None
  then show ?thesis by (simp add: map_of_enter_at absent_seen[OF assms])
next
  case (Some vs)
  from map_of_SomeD[OF Some] assms have dist: "distinct (map fst vs)" by (auto simp: indexes_def)
  have eq: "(\<Sum>(s, d) \<leftarrow> (case map_of vs v of None \<Rightarrow> [] | Some ts \<Rightarrow> ts).
      if visible (strictly_before m T) s (base_time T) then d else 0) = seen (strictly_before m T) c (k, v) (base_time T)"
    using seen_indexes[OF assms, of "strictly_before m T" "base_time T" k v] Some by (simp add: entry_times_def)
  let ?f = "map (\<lambda>(t, d). (AltNeu (t, 0 :: u64) m, d))"
  have "(\<exists>vs' ts. map_of (enter_at m st) k = Some vs' \<and> (v, ts) \<in> set vs' \<and> 0 < count_times (pipeline_ops b) T ts) \<longleftrightarrow>
      (\<exists>ts. (v, ts) \<in> set vs \<and> 0 < count_times (pipeline_ops b) T (?f ts))"
    by (auto simp: map_of_enter_at Some)
  also have "\<dots> \<longleftrightarrow> (\<exists>ts. map_of vs v = Some ts \<and> 0 < count_times (pipeline_ops b) T (?f ts))"
    using dist by (metis map_of_SomeD map_of_eq_Some_iff)
  also have "\<dots> \<longleftrightarrow> 0 < seen (strictly_before m T) c (k, v) (base_time T)"
    unfolding eq[symmetric] by (cases "map_of vs v") (simp_all add: count_times_enter)
  finally show ?thesis .
qed

section \<open>The indices of an attribute\<close>

definition attribute_indexed ::
  "'t index_imports \<Rightarrow> ('t, 'r, 'pr) dom \<Rightarrow> aid \<Rightarrow> (df_value \<times> df_value, 't) collection \<Rightarrow> bool" where
  "attribute_indexed imports dm a c \<longleftrightarrow>
     (\<exists>tr. forward_count_of a dm = Some tr \<and> indexes (import_counts imports tr) (coll_map (\<lambda>(e, v). (e, ())) c)) \<and>
     (\<exists>tr. forward_propose_of a dm = Some tr \<and> indexes (import_proposes imports tr) c) \<and>
     (\<exists>tr. forward_validate_of a dm = Some tr \<and> indexes (import_validates imports tr) (coll_map (\<lambda>p. (p, ())) c)) \<and>
     (\<exists>tr. reverse_count_of a dm = Some tr \<and> indexes (import_counts imports tr) (coll_map (\<lambda>(e, v). (v, ())) c)) \<and>
     (\<exists>tr. reverse_propose_of a dm = Some tr \<and> indexes (import_proposes imports tr) (coll_map (\<lambda>(e, v). (v, e)) c)) \<and>
     (\<exists>tr. reverse_validate_of a dm = Some tr \<and>
        indexes (import_validates imports tr) (coll_map (\<lambda>(e, v). ((v, e), ())) c))"

text \<open>An attribute that holds every pair at most once, with fewer than \<^verbatim>\<open>1 << 31\<close> updates.\<close>

definition set_valued :: "(df_value \<times> df_value, 't::linorder) collection \<Rightarrow> bool" where
  "set_valued c \<longleftrightarrow> (\<forall>x t. seen False c x t \<in> {0, 1}) \<and> length c < 2 ^ 31"

lemma set_valued_seen:
  assumes "set_valued c"
  shows "seen m c x t \<in> {0, 1}"
proof (cases m)
  case True
  have "seen False c x s \<in> {0, 1}" for s using assms by (simp only: set_valued_def)
  then show ?thesis using True
    by (simp only: seen_strict[OF finite_imageI[OF finite_set] order_refl]) (simp only: insertI1 simp_thms split: if_split)
next
  case False
  with assms show ?thesis by (simp only: set_valued_def)
qed

lemma set_valued_bounds: "set_valued c \<Longrightarrow> 0 \<le> seen m c x t" "set_valued c \<Longrightarrow> seen m c x t \<le> 1"
  using set_valued_seen[of c m x t] by auto

lemma seen_map_inj: "inj f \<Longrightarrow> seen m (coll_map f c) (f x) t = seen m c x t"
  by (induction c) (auto simp: coll_map_def inj_eq)

lemma seen_map:
  "seen m (coll_map f c) y t = (\<Sum>x \<in> {x \<in> fst ` set c. f x = y}. seen m c x t)"
proof -
  have "seen m (coll_map f c') y t = (\<Sum>x \<in> {x \<in> A. f x = y}. seen m c' x t)" if "finite A" "fst ` set c' \<subseteq> A" for A c'
    using that(2)
  proof (induction c')
    case Nil
    then show ?case by (simp add: coll_map_def)
  next
    case (Cons u c')
    obtain z s d where u: "u = (z, s, d)" by (metis prod_cases3)
    have "(\<Sum>x \<in> {x \<in> A. f x = y}. upd_seen m x t u) =
        (\<Sum>x \<in> {x \<in> A. f x = y}. if z = x then (if visible m s t then d else 0) else 0)"
      by (rule sum.cong) (auto simp: u)
    also have "\<dots> = upd_seen m y t (f z, s, d)"
      using that(1) Cons.prems u by (subst sum.delta') auto
    finally show ?case using Cons by (simp add: coll_map_def u sum.distrib)
  qed
  then show ?thesis by simp
qed

lemma seen_key_bounds:
  assumes "set_valued c" and "seen m c x t > 0" and "f x = y"
  shows "0 < seen m (coll_map f c) y t"
proof -
  have "x \<in> fst ` set c" using assms(2) seen_other[of x c m t] by fastforce
  then show ?thesis unfolding seen_map using assms(2,3) set_valued_bounds(1)[OF assms(1)]
    by (intro sum_pos2[of _ x]) auto
qed

lemma seen_key_small:
  assumes "set_valued c"
  shows "seen m (coll_map f c) y t < 2 ^ 31"
proof -
  have "seen m (coll_map f c) y t \<le> (\<Sum>x \<in> {x \<in> fst ` set c. f x = y}. 1)"
    unfolding seen_map by (intro sum_mono set_valued_bounds(2)[OF assms])
  also have "\<dots> \<le> int (card (fst ` set c))" by (simp add: card_mono)
  also have "\<dots> \<le> int (length c)" by (metis card_image_le card_length finite_set le_trans of_nat_mono)
  finally show ?thesis using assms by (simp add: set_valued_def)
qed

text \<open>Three indices of the same tuples agree at every time of a pipeline, and their counts stay below the
  initial one.\<close>

lemma indices_agree:
  fixes c :: "(df_value \<times> df_value, 't::linorder) collection" and m :: bool
  assumes cs: "indexes cs (coll_map (\<lambda>(k, v). (k, ())) c)" and ps: "indexes ps c"
    and vs: "indexes vs (coll_map (\<lambda>p. (p, ())) c)" and c: "set_valued c"
  defines "I \<equiv> \<lparr> counts = enter_at m cs, proposes = enter_at m ps, validates = enter_at m vs \<rparr>"
  shows "consistent_indices (pipeline_ops b) I"
    and "(\<exists>ts. map_of (validates I) (k, v) = Some [((), ts)] \<and> 0 < count_times (pipeline_ops b) T ts) \<longleftrightarrow>
      0 < seen (strictly_before m T) c (k, v) (base_time T)"
    and "index_count (pipeline_ops b) I k T < initial_count"
    and "\<forall>(k, vs) \<in> set (validates I). length vs = 1"
proof -
  have single: "\<forall>(k, ws) \<in> set (enter_at m st). length ws = 1"
    if "indexes st d" for st :: "('k, unit, 't) storage" and d
    using that unit_entries by (fastforce simp: indexes_def dest: enter_at_set)
  have validates: "(\<exists>ts. map_of (enter_at m vs) (k, v) = Some [((), ts)] \<and> 0 < count_times (pipeline_ops b) T ts) \<longleftrightarrow>
      0 < seen (strictly_before m T) c (k, v) (base_time T)" for k v T
    using key_index_seen[OF vs, of m "(k, v)" "\<lambda>n. 0 < n" b T] absent_seen[OF vs, of "(k, v)" "strictly_before m T" "()" "base_time T"]
      seen_map_inj[of "\<lambda>p. (p, ())" "strictly_before m T" c "(k, v)" "base_time T"]
    by (auto simp: inj_def)
  then show "(\<exists>ts. map_of (validates I) (k, v) = Some [((), ts)] \<and> 0 < count_times (pipeline_ops b) T ts) \<longleftrightarrow>
      0 < seen (strictly_before m T) c (k, v) (base_time T)" by (simp add: I_def)
  show "\<forall>(k, vs) \<in> set (validates I). length vs = 1" using single[OF vs] by (simp add: I_def)
  note small = seen_key_small[OF c, of _ "\<lambda>(k, v). (k, ())"]
  have count: "\<exists>ts. map_of (enter_at m cs) k = Some [((), ts)] \<and> 0 < as_usize (count_times (pipeline_ops b) T ts)"
    if pos: "0 < seen (strictly_before m T) c (k, v) (base_time T)" for k v T
  proof -
    let ?n = "seen (strictly_before m T) (coll_map (\<lambda>(k, v). (k, ())) c) (k, ()) (base_time T)"
    have "0 < ?n" using seen_key_bounds[OF c pos, of "\<lambda>(k, v). (k, ())"] by simp
    moreover have "?n < 2 ^ 31" by (rule small)
    ultimately have "0 < as_usize ?n" by (simp add: as_usize_def)
    moreover from \<open>0 < ?n\<close> absent_seen[OF cs, of k "strictly_before m T" "()" "base_time T"] have "map_of cs k \<noteq> None"
      by (metis less_irrefl)
    ultimately show ?thesis using key_index_seen[OF cs, of m k "\<lambda>n. 0 < as_usize n" b T] by blast
  qed
  have "distinct (map fst ws)" if "(k, ws) \<in> set (enter_at m ps)" for k ws
    using enter_at_set[OF that] ps by (auto simp: indexes_def comp_def case_prod_unfold)
  then show "consistent_indices (pipeline_ops b) I"
    unfolding consistent_indices_def I_def attribute_indices.simps validates val_index_seen[OF ps]
    using single[OF vs] count by auto
  show "index_count (pipeline_ops b) I k T < initial_count"
  proof (cases "map_of cs k")
    case None
    then show ?thesis by (simp add: I_def index_count_def map_of_enter_at initial_count_def)
  next
    case (Some ws)
    let ?n = "seen (strictly_before m T) (coll_map (\<lambda>(k, v). (k, ())) c) (k, ()) (base_time T)"
    have "\<exists>ts. map_of (enter_at m cs) k = Some [((), ts)] \<and> count_times (pipeline_ops b) T ts = ?n"
      by (rule iffD2[OF key_index_seen[OF cs, where P = "\<lambda>n. n = ?n"]]) (simp add: Some)
    then obtain ts where
      ts: "map_of (enter_at m cs) k = Some [((), ts)]" "count_times (pipeline_ops b) T ts = ?n" by (elim exE conjE)
    have nonneg: "0 \<le> ?n" unfolding seen_map by (intro sum_nonneg set_valued_bounds(1)[OF c])
    have "?n < 2 ^ 31" by (rule small)
    then have "as_usize ?n < initial_count" using nonneg by (simp add: as_usize_def initial_count_def)
    with ts show ?thesis by (simp add: I_def index_count_def)
  qed
qed

end
