(* ===== verification/Pipeline_Semantics.thy ===== *)
theory Pipeline_Semantics
  imports Index_Semantics
begin

text \<open>
  What one delta pipeline of \<^verbatim>\<open>Hector::implement\<close> computes: the changes of its source, kept where every other binding
  holds. Bindings before the source are evaluated on all updates up to the time of the change, bindings after it on
  the updates strictly before.
\<close>

section \<open>Bindings\<close>

fun binding_holds ::
  "(aid \<Rightarrow> (df_value \<times> df_value, 't::linorder) collection) \<Rightarrow> bool \<Rightarrow> 't \<Rightarrow> aid binding \<Rightarrow> valuation \<Rightarrow> bool" where
  "binding_holds R strictly t (Attribute b) \<sigma> \<longleftrightarrow>
     0 < seen strictly (R (source_attribute b)) (\<sigma> (fst (ab_variables b)), \<sigma> (snd (ab_variables b))) t"
| "binding_holds R strictly t (Not b) \<sigma> \<longleftrightarrow> \<not> binding_holds R strictly t b \<sigma>"
| "binding_holds R strictly t (Constant c) \<sigma> \<longleftrightarrow> \<sigma> (cb_variable c) = cb_value c"
| "binding_holds R strictly t (BinaryPredicate b) \<sigma> \<longleftrightarrow>
     predicate_relation (bp_predicate b) (\<sigma> (snd (bp_variables b))) (\<sigma> (fst (bp_variables b)))"

text \<open>Only constants and predicates may be negated: they do not change over time.\<close>

fun timeless :: "'a binding \<Rightarrow> bool" where
  "timeless (Constant c) = True"
| "timeless (BinaryPredicate b) = (fst (bp_variables b) \<noteq> snd (bp_variables b))"
| "timeless _ = False"

fun wf_binding :: "'a binding \<Rightarrow> bool" where
  "wf_binding (Attribute b) = (fst (ab_variables b) \<noteq> snd (ab_variables b))"
| "wf_binding (Not b) = timeless b"
| "wf_binding b = timeless b"

fun proposing :: "'a binding \<Rightarrow> bool" where
  "proposing (Attribute b) = True"
| "proposing (Constant b) = True"
| "proposing _ = False"

definition query_ready ::
  "'t::linorder index_imports \<Rightarrow> ('t, 'r, 'pr) dom \<Rightarrow> (aid \<Rightarrow> (df_value \<times> df_value, 't) collection) \<Rightarrow>
   aid binding list \<Rightarrow> bool" where
  "query_ready imports dm R bs \<longleftrightarrow> (\<forall>b \<in> set bs. wf_binding b) \<and>
     (\<forall>ab. Attribute ab \<in> set bs \<longrightarrow> attribute_indexed imports dm (source_attribute ab) (R (source_attribute ab)) \<and>
        set_valued (R (source_attribute ab)))"

lemma can_extend_timeless:
  "timeless b \<Longrightarrow> can_extend b (vec_binds prefix) x \<longleftrightarrow>
     x \<in> set (variables b) \<and> x \<notin> set prefix \<and> set (variables b) \<subseteq> insert x (set prefix)"
  by (cases b) (auto simp: can_extend_def two_defs constant_defs bind_simps)

lemma can_extend_iff:
  "wf_binding b \<Longrightarrow> can_extend b (vec_binds prefix) x \<longleftrightarrow>
     x \<in> set (variables b) \<and> x \<notin> set prefix \<and> set (variables b) \<subseteq> insert x (set prefix)"
proof (cases b)
  case (Not b')
  moreover assume "wf_binding b"
  ultimately show ?thesis using can_extend_timeless[of b' prefix x] by (simp add: can_extend_def)
qed (auto simp: can_extend_def two_defs constant_defs bind_simps)

lemma binding_holds_timeless: "timeless b \<Longrightarrow> binding_holds R m t b \<sigma> = binding_holds R m' t' b \<sigma>"
  by (cases b) simp_all

lemma binding_holds_local:
  "(\<And>x. x \<in> set (variables b) \<Longrightarrow> \<sigma> x = \<rho> x) \<Longrightarrow> binding_holds R m t b \<sigma> = binding_holds R m t b \<rho>"
  by (induction b) simp_all

section \<open>Caches\<close>

definition cached :: "(aid \<Rightarrow> 'h option) \<Rightarrow> ('h \<Rightarrow> 's) \<Rightarrow> (aid, 's) hash_map \<Rightarrow> bool" where
  "cached lookup_trace imp cache \<longleftrightarrow>
     (\<forall>a st. map_of cache a = Some st \<longrightarrow> (\<exists>tr. lookup_trace a = Some tr \<and> st = imp tr))"

lemma or_insert_cached:
  assumes "cached lookup_trace imp cache" and "lookup_trace a = Some tr"
  shows "\<exists>cache' h'. or_insert_with a (fetch_index msg imp (lookup_trace a)) bt cache h = Inr (imp tr, cache', h') \<and>
    cached lookup_trace imp cache'"
proof (cases "map_of cache a")
  case None
  with assms show ?thesis
    by (auto simp: or_insert_with_def fetch_index_def expect_def cached_def)
next
  case (Some st)
  with assms have "st = imp tr" unfolding cached_def by (metis option.inject)
  with Some assms(1) show ?thesis by (simp add: or_insert_with_def)
qed

definition caches_ok :: "'t index_imports \<Rightarrow> ('t, 'r, 'pr) dom \<Rightarrow> 't index_caches \<Rightarrow> bool" where
  "caches_ok imports dm caches \<longleftrightarrow>
     cached (\<lambda>a. forward_count_of a dm) (import_counts imports) (forward_counts caches) \<and>
     cached (\<lambda>a. forward_propose_of a dm) (import_proposes imports) (forward_proposes caches) \<and>
     cached (\<lambda>a. forward_validate_of a dm) (import_validates imports) (forward_validates caches) \<and>
     cached (\<lambda>a. reverse_count_of a dm) (import_counts imports) (reverse_counts caches) \<and>
     cached (\<lambda>a. reverse_propose_of a dm) (import_proposes imports) (reverse_proposes caches) \<and>
     cached (\<lambda>a. reverse_validate_of a dm) (import_validates imports) (reverse_validates caches)"

lemma no_caches_ok: "caches_ok imports dm no_caches"
  by (simp add: caches_ok_def no_caches_def cached_def)

lemma forward_indices_ok:
  assumes "caches_ok imports dm caches" and "forward_count_of a dm = Some ct" and "forward_propose_of a dm = Some pt"
    and "forward_validate_of a dm = Some vt"
  shows "\<exists>caches'. forward_indices imports dm a m caches =
      Inr (\<lparr> counts = enter_at m (import_counts imports ct), proposes = enter_at m (import_proposes imports pt),
        validates = enter_at m (import_validates imports vt) \<rparr>, caches') \<and> caches_ok imports dm caches'"
proof -
  note ok = assms(1)[unfolded caches_ok_def]
  obtain cs h1 where 1: "or_insert_with a (fetch_index ''forward count doesn't exist'' (import_counts imports)
      (forward_count_of a dm)) (Count a) (forward_counts caches) (cache_handle caches) =
      Inr (import_counts imports ct, cs, h1)" "cached (\<lambda>a. forward_count_of a dm) (import_counts imports) cs"
    using or_insert_cached[of "\<lambda>a. forward_count_of a dm", OF _ assms(2)] ok by blast
  obtain ps h2 where 2: "or_insert_with a (fetch_index ''forward propose doesn't exist'' (import_proposes imports)
      (forward_propose_of a dm)) (Propose a) (forward_proposes caches) h1 =
      Inr (import_proposes imports pt, ps, h2)" "cached (\<lambda>a. forward_propose_of a dm) (import_proposes imports) ps"
    using or_insert_cached[of "\<lambda>a. forward_propose_of a dm", OF _ assms(3)] ok by blast
  obtain vs h3 where 3: "or_insert_with a (fetch_index ''forward validate doesn't exist'' (import_validates imports)
      (forward_validate_of a dm)) (Validate a) (forward_validates caches) h2 =
      Inr (import_validates imports vt, vs, h3)" "cached (\<lambda>a. forward_validate_of a dm) (import_validates imports) vs"
    using or_insert_cached[of "\<lambda>a. forward_validate_of a dm", OF _ assms(4)] ok by blast
  show ?thesis using 1 2 3 ok by (simp add: forward_indices_def caches_ok_def)
qed

lemma reverse_indices_ok:
  assumes "caches_ok imports dm caches" and "reverse_count_of a dm = Some ct" and "reverse_propose_of a dm = Some pt"
    and "reverse_validate_of a dm = Some vt"
  shows "\<exists>caches'. reverse_indices imports dm a m caches =
      Inr (\<lparr> counts = enter_at m (import_counts imports ct), proposes = enter_at m (import_proposes imports pt),
        validates = enter_at m (import_validates imports vt) \<rparr>, caches') \<and> caches_ok imports dm caches'"
proof -
  note ok = assms(1)[unfolded caches_ok_def]
  obtain cs h1 where 1: "or_insert_with a (fetch_index ''reverse count doesn't exist'' (import_counts imports)
      (reverse_count_of a dm)) (ReverseCount a) (reverse_counts caches) (cache_handle caches) =
      Inr (import_counts imports ct, cs, h1)" "cached (\<lambda>a. reverse_count_of a dm) (import_counts imports) cs"
    using or_insert_cached[of "\<lambda>a. reverse_count_of a dm", OF _ assms(2)] ok by blast
  obtain ps h2 where 2: "or_insert_with a (fetch_index ''reverse propose doesn't exist'' (import_proposes imports)
      (reverse_propose_of a dm)) (ReversePropose a) (reverse_proposes caches) h1 =
      Inr (import_proposes imports pt, ps, h2)" "cached (\<lambda>a. reverse_propose_of a dm) (import_proposes imports) ps"
    using or_insert_cached[of "\<lambda>a. reverse_propose_of a dm", OF _ assms(3)] ok by blast
  obtain vs h3 where 3: "or_insert_with a (fetch_index ''reverse validate doesn't exist'' (import_validates imports)
      (reverse_validate_of a dm)) (ReverseValidate a) (reverse_validates caches) h2 =
      Inr (import_validates imports vt, vs, h3)" "cached (\<lambda>a. reverse_validate_of a dm) (import_validates imports) vs"
    using or_insert_cached[of "\<lambda>a. reverse_validate_of a dm", OF _ assms(4)] ok by blast
  show ?thesis using 1 2 3 ok by (simp add: reverse_indices_def caches_ok_def)
qed

section \<open>Extenders\<close>

text \<open>An extender that stands for a binding when a prefix is extended to a variable.\<close>

definition extender_for ::
  "'t::linorder \<Rightarrow> (aid \<Rightarrow> (df_value \<times> df_value, 't) collection) \<Rightarrow> bool \<Rightarrow> var list \<Rightarrow> var \<Rightarrow> aid binding \<Rightarrow>
   't inner_time extender \<Rightarrow> bool" where
  "extender_for b R m prefix x bd e \<longleftrightarrow>
     (\<forall>p. length p = length prefix \<longrightarrow> ext_ok e p) \<and> consistent (pipeline_ops b) e \<and>
     (proposing bd \<longrightarrow> is_proposer e \<and> (\<forall>p T. small_count (pipeline_ops b) e p T)) \<and>
     (\<forall>\<sigma> T. accepts (pipeline_ops b) e (map \<sigma> prefix) (\<sigma> x) T =
        binding_holds R (strictly_before m T) (base_time T) bd \<sigma>)"

lemma vec_binds_bound: "x \<in> set prefix \<Longrightarrow> \<exists>i. vec_binds prefix x = Some i \<and> i < length prefix \<and> prefix ! i = x"
  using vec_binds_None[of prefix x] vec_binds_Some[of prefix x] by auto

lemma collection_extender_for:
  assumes "indexes cs (coll_map (\<lambda>(k, v). (k, ())) c)" and "indexes ps c" and "indexes vs (coll_map (\<lambda>p. (p, ())) c)"
    and "set_valued c" and "i < length prefix"
    and holds: "\<And>\<sigma> m' t. binding_holds R m' t bd \<sigma> \<longleftrightarrow> 0 < seen m' c (\<sigma> (prefix ! i), \<sigma> x) t"
  shows "extender_for b R m prefix x bd
    (CollectionExtender \<lparr> counts = enter_at m cs, proposes = enter_at m ps, validates = enter_at m vs \<rparr> i)"
proof -
  let ?I = "\<lparr> counts = enter_at m cs, proposes = enter_at m ps, validates = enter_at m vs \<rparr>"
  note agree = indices_agree[OF assms(1-4), where m = m]
  have "accepts (pipeline_ops b) (CollectionExtender ?I i) (map \<sigma> prefix) (\<sigma> x) T =
      binding_holds R (strictly_before m T) (base_time T) bd \<sigma>" for \<sigma> T
    unfolding holds accepts.simps agree(2) using assms(5) by simp
  moreover have "\<forall>p. length p = length prefix \<longrightarrow> ext_ok (CollectionExtender ?I i) p" using agree(4) assms(5) by simp
  moreover have "small_count (pipeline_ops b) (CollectionExtender ?I i) p T" for p T
    using agree(3) by (simp only: small_count.simps)
  ultimately show ?thesis unfolding extender_for_def consistent.simps is_proposer.simps using agree(1) by blast
qed

lemma set_valued_swap: "set_valued c \<Longrightarrow> set_valued (coll_map (\<lambda>(e, v). (v, e)) c)"
proof -
  assume c: "set_valued c"
  have "seen False (coll_map (\<lambda>(e, v). (v, e)) c) x t = seen False c (snd x, fst x) t" for x t
    using seen_map_inj[of "\<lambda>(e, v). (v, e)" False c "(snd x, fst x)" t] by (simp add: inj_def)
  with c show ?thesis unfolding set_valued_def by (simp add: coll_map_def)
qed

lemma seen_swap: "seen m (coll_map (\<lambda>(e, v). (v, e)) c) (y, x) t = seen m c (x, y) t"
  using seen_map_inj[of "\<lambda>(e, v). (v, e)" m c "(x, y)" t] by (simp add: inj_def)

lemma attribute_extender_for:
  assumes ok: "caches_ok imports dm caches" and idx: "attribute_indexed imports dm (source_attribute ab) (R (source_attribute ab))"
    and sv: "set_valued (R (source_attribute ab))" and wf: "wf_binding (Attribute ab)"
    and ext: "can_extend (Attribute ab) (vec_binds prefix) x"
  shows "\<exists>e caches'. attribute_extender imports dm prefix m ab caches = Inr (e, caches') \<and>
    caches_ok imports dm caches' \<and> extender_for b R m prefix x (Attribute ab) e"
proof -
  obtain u w a where ab: "ab = AttributeBinding (u, w) a" by (metis attribute_binding.exhaust prod.exhaust)
  let ?c = "R a"
  note idx = idx[unfolded attribute_indexed_def ab attribute_binding.sel] and sv = sv[unfolded ab attribute_binding.sel]
  from ext wf consider "x = w" "u \<in> set prefix" "w \<notin> set prefix" | "x = u" "w \<in> set prefix" "u \<notin> set prefix"
    by (auto simp: can_extend_iff ab)
  then show ?thesis
  proof cases
    case 1
    then obtain i where i: "vec_binds prefix u = Some i" "i < length prefix" "prefix ! i = u"
      using vec_binds_bound by blast
    then have dir: "direction (vec_binds prefix) (u, w) = Inr (DirForward i)"
      using vec_binds_None[THEN iffD2, OF 1(3)] by (simp add: direction_def)
    from idx obtain ct pt vt where tr: "forward_count_of a dm = Some ct" "forward_propose_of a dm = Some pt"
        "forward_validate_of a dm = Some vt"
      and ix: "indexes (import_counts imports ct) (coll_map (\<lambda>(k, v). (k, ())) ?c)" "indexes (import_proposes imports pt) ?c"
        "indexes (import_validates imports vt) (coll_map (\<lambda>p. (p, ())) ?c)" by blast
    have "extender_for b R m prefix x (Attribute ab) (CollectionExtender \<lparr> counts = enter_at m (import_counts imports ct),
        proposes = enter_at m (import_proposes imports pt), validates = enter_at m (import_validates imports vt) \<rparr> i)"
      by (rule collection_extender_for[OF ix sv i(2)]) (simp add: ab i(3) 1(1))
    moreover obtain caches' where "forward_indices imports dm a m caches = Inr (\<lparr> counts = enter_at m (import_counts imports ct),
        proposes = enter_at m (import_proposes imports pt), validates = enter_at m (import_validates imports vt) \<rparr>, caches')"
      "caches_ok imports dm caches'" using forward_indices_ok[OF ok tr] by blast
    ultimately show ?thesis by (intro exI conjI) (simp_all add: attribute_extender_def ab dir)
  next
    case 2
    then obtain i where i: "vec_binds prefix w = Some i" "i < length prefix" "prefix ! i = w"
      using vec_binds_bound by blast
    then have dir: "direction (vec_binds prefix) (u, w) = Inr (DirReverse i)"
      using vec_binds_None[THEN iffD2, OF 2(3)] by (simp add: direction_def)
    from idx obtain ct pt vt where tr: "reverse_count_of a dm = Some ct" "reverse_propose_of a dm = Some pt"
        "reverse_validate_of a dm = Some vt"
      and ix: "indexes (import_counts imports ct) (coll_map (\<lambda>(e, v). (v, ())) ?c)"
        "indexes (import_proposes imports pt) (coll_map (\<lambda>(e, v). (v, e)) ?c)"
        "indexes (import_validates imports vt) (coll_map (\<lambda>(e, v). ((v, e), ())) ?c)" by blast
    let ?d = "coll_map (\<lambda>(e, v). (v, e)) ?c"
    have maps: "coll_map (\<lambda>(k, v). (k, ())) ?d = coll_map (\<lambda>(e, v). (v, ())) ?c"
      "coll_map (\<lambda>p. (p, ())) ?d = coll_map (\<lambda>(e, v). ((v, e), ())) ?c"
      by (simp_all add: coll_map_coll_map comp_def case_prod_unfold)
    have "extender_for b R m prefix x (Attribute ab) (CollectionExtender \<lparr> counts = enter_at m (import_counts imports ct),
        proposes = enter_at m (import_proposes imports pt), validates = enter_at m (import_validates imports vt) \<rparr> i)"
      by (rule collection_extender_for[OF ix(1)[folded maps(1)] ix(2) ix(3)[folded maps(2)] set_valued_swap[OF sv] i(2)])
        (simp add: ab i(3) 2(1) seen_swap)
    moreover obtain caches' where "reverse_indices imports dm a m caches = Inr (\<lparr> counts = enter_at m (import_counts imports ct),
        proposes = enter_at m (import_proposes imports pt), validates = enter_at m (import_validates imports vt) \<rparr>, caches')"
      "caches_ok imports dm caches'" using reverse_indices_ok[OF ok tr] by blast
    ultimately show ?thesis by (intro exI conjI) (simp_all add: attribute_extender_def ab dir)
  qed
qed

lemma predicate_extender_for:
  assumes wf: "timeless (BinaryPredicate bp)" and ext: "can_extend (BinaryPredicate bp) (vec_binds prefix) x"
  shows "\<exists>e. predicate_into_extender bp (vec_binds prefix) = [e] \<and> extender_for b R m prefix x (BinaryPredicate bp) e"
proof -
  obtain u w pr where bp: "bp = BinaryPredicateBinding (u, w) pr" by (metis binary_predicate_binding.exhaust prod.exhaust)
  have split: "predicate_holds pr (DirForward i) v v' = predicate_relation pr v v'"
    "predicate_holds pr (DirReverse i) v v' = predicate_relation pr v' v" for i v v'
    by (cases pr; auto)+
  from ext wf consider "x = w" "u \<in> set prefix" "w \<notin> set prefix" | "x = u" "w \<in> set prefix" "u \<notin> set prefix"
    by (auto simp: can_extend_timeless bp)
  then show ?thesis
  proof cases
    case 1
    then obtain i where "vec_binds prefix u = Some i" "i < length prefix" "prefix ! i = u" using vec_binds_bound by blast
    with 1 vec_binds_None[THEN iffD2, OF 1(3)] show ?thesis
      by (simp add: predicate_into_extender_def bp direction_def extender_for_def split)
  next
    case 2
    then obtain i where "vec_binds prefix w = Some i" "i < length prefix" "prefix ! i = w" using vec_binds_bound by blast
    with 2 vec_binds_None[THEN iffD2, OF 2(3)] show ?thesis
      by (simp add: predicate_into_extender_def bp direction_def extender_for_def split)
  qed
qed

lemma constant_extender_for:
  "can_extend (Constant c) (vec_binds prefix) x \<Longrightarrow>
   extender_for b R m prefix x (Constant c) (ConstantExtender (cb_value c))"
  using can_extend_timeless[of "Constant c" prefix x] by (auto simp: extender_for_def)

lemma antijoin_extender_for:
  "extender_for b R m prefix x bd e \<Longrightarrow> extender_for b R m prefix x (Not bd) (AntijoinExtender e)"
  unfolding extender_for_def by simp

lemma add_timeless:
  assumes "timeless bd" and "can_extend bd (vec_binds prefix) x"
  shows "\<exists>e. add_extender imports dm prefix m bd es caches = Inr (es @ [e], caches) \<and> extender_for b R m prefix x bd e"
proof (cases bd)
  case (Constant c)
  with assms constant_extender_for show ?thesis by (fastforce simp: constant_into_extender_def)
next
  case (BinaryPredicate bp)
  with assms predicate_extender_for[of bp prefix x b R m] show ?thesis by auto
qed (use assms in auto)

section \<open>The extenders of a variable\<close>

text \<open>The part of the queue that belongs to one binding.\<close>

definition queue_of :: "usize \<times> 'a binding \<Rightarrow> (usize \<times> 'a binding) list" where
  "queue_of jb = (case snd jb of Not inner \<Rightarrow> [(fst jb, inner), (fst jb, Not inner)] | bd \<Rightarrow> [(fst jb, bd)])"

lemma binding_queue_eq: "binding_queue bs = concat (map queue_of (enumerated bs))"
  by (auto simp: binding_queue_def queue_of_def intro!: arg_cong[of _ _ concat] split: binding.splits)

definition usable :: "usize \<Rightarrow> var list \<Rightarrow> var \<Rightarrow> usize \<times> 'a binding \<Rightarrow> bool" where
  "usable idx prefix x jb \<longleftrightarrow> fst jb \<noteq> idx \<and> can_extend (snd jb) (vec_binds prefix) x"

lemma can_extend_binds: "can_extend bd p x \<Longrightarrow> binds bd x \<noteq> None"
  unfolding can_extend_def by (rule bnd.ready_binds)

lemma can_extend_Not [simp]: "can_extend (Not bd) p x = can_extend bd p x"
  by (simp add: can_extend_def)

lemma gather_skip:
  "\<not> usable idx prefix x jb \<Longrightarrow>
   gather_extenders imports dm idx prefix x (queue_of jb @ q) es caches = gather_extenders imports dm idx prefix x q es caches"
  by (cases jb; cases "snd jb") (auto simp: usable_def queue_of_def)

lemma gather_use:
  assumes "usable idx prefix x jb" and "wf_binding (snd jb)" and "caches_ok imports dm caches"
    and "\<And>ab. snd jb = Attribute ab \<Longrightarrow> attribute_indexed imports dm (source_attribute ab) (R (source_attribute ab)) \<and>
      set_valued (R (source_attribute ab))"
  shows "\<exists>e caches'. caches_ok imports dm caches' \<and> extender_for b R (fst jb \<ge> idx) prefix x (snd jb) e \<and>
    gather_extenders imports dm idx prefix x (queue_of jb @ q) es caches =
      gather_extenders imports dm idx prefix x q (es @ [e]) caches'"
proof -
  obtain j bd where jb: "jb = (j, bd)" by fastforce
  have use: "j \<noteq> idx" "can_extend bd (vec_binds prefix) x" using assms(1) by (simp_all add: usable_def jb)
  show ?thesis
  proof (cases bd)
    case (Attribute ab)
    then have "attribute_indexed imports dm (source_attribute ab) (R (source_attribute ab))"
      "set_valued (R (source_attribute ab))" "wf_binding (Attribute ab)" "can_extend (Attribute ab) (vec_binds prefix) x"
      using assms(2,4) use by (auto simp: jb)
    from attribute_extender_for[where R = R and m = "j \<ge> idx" and b = b, OF assms(3) this]
    obtain e caches' where "attribute_extender imports dm prefix (j \<ge> idx) ab caches = Inr (e, caches')"
      "caches_ok imports dm caches'" "extender_for b R (j \<ge> idx) prefix x (Attribute ab) e" by (auto simp: jb)
    with use can_extend_binds[OF use(2)] show ?thesis by (auto simp: jb queue_of_def Attribute)
  next
    case (Not inner)
    then have inner: "timeless inner" "can_extend inner (vec_binds prefix) x" using assms(2) use by (simp_all add: jb)
    from add_timeless[OF inner, where m = "j \<ge> idx" and b = b and R = R] obtain e where
      "add_extender imports dm prefix (j \<ge> idx) inner es caches = Inr (es @ [e], caches)"
      "extender_for b R (j \<ge> idx) prefix x inner e" by blast
    with use can_extend_binds[OF use(2)] assms(3) antijoin_extender_for show ?thesis
      by (fastforce simp: jb queue_of_def Not)
  next
    case (Constant c)
    then have "timeless bd" by simp
    from add_timeless[OF this use(2)] obtain e where
      "add_extender imports dm prefix (j \<ge> idx) bd es caches = Inr (es @ [e], caches)"
      "extender_for b R (j \<ge> idx) prefix x bd e" by blast
    with use can_extend_binds[OF use(2)] assms(3) show ?thesis
      by (intro exI[of _ e] exI[of _ caches]) (auto simp: jb queue_of_def Constant)
  next
    case (BinaryPredicate bp)
    then have "timeless bd" using assms(2) by (simp add: jb)
    from add_timeless[OF this use(2)] obtain e where
      "add_extender imports dm prefix (j \<ge> idx) bd es caches = Inr (es @ [e], caches)"
      "extender_for b R (j \<ge> idx) prefix x bd e" by blast
    with use can_extend_binds[OF use(2)] assms(3) show ?thesis
      by (intro exI[of _ e] exI[of _ caches]) (auto simp: jb queue_of_def BinaryPredicate)
  qed
qed

lemma gather_all:
  assumes "\<And>j bd. (j, bd) \<in> set jbs \<Longrightarrow> wf_binding bd"
    and "\<And>j ab. (j, Attribute ab) \<in> set jbs \<Longrightarrow>
      attribute_indexed imports dm (source_attribute ab) (R (source_attribute ab)) \<and> set_valued (R (source_attribute ab))"
    and "caches_ok imports dm caches"
  shows "\<exists>es' caches'. gather_extenders imports dm idx prefix x (concat (map queue_of jbs)) es caches = Inr (es @ es', caches') \<and>
    caches_ok imports dm caches' \<and>
    list_all2 (\<lambda>jb e. extender_for b R (fst jb \<ge> idx) prefix x (snd jb) e) (filter (usable idx prefix x) jbs) es'"
  using assms
proof (induction jbs arbitrary: es caches)
  case Nil
  then show ?case by simp
next
  case (Cons jb jbs)
  show ?case
  proof (cases "usable idx prefix x jb")
    case False
    have "\<exists>es' caches'. gather_extenders imports dm idx prefix x (concat (map queue_of jbs)) es caches = Inr (es @ es', caches') \<and>
        caches_ok imports dm caches' \<and>
        list_all2 (\<lambda>jb e. extender_for b R (fst jb \<ge> idx) prefix x (snd jb) e) (filter (usable idx prefix x) jbs) es'"
      using Cons.prems by (intro Cons.IH) auto
    with False show ?thesis by (simp add: gather_skip[OF False])
  next
    case True
    have "wf_binding (snd jb)" using Cons.prems(1)[of "fst jb" "snd jb"] by simp
    moreover have "snd jb = Attribute ab \<Longrightarrow> attribute_indexed imports dm (source_attribute ab) (R (source_attribute ab)) \<and>
        set_valued (R (source_attribute ab))" for ab
      using Cons.prems(2)[of "fst jb" ab] by (cases jb) simp
    ultimately obtain e caches1 where e: "caches_ok imports dm caches1"
      "extender_for b R (fst jb \<ge> idx) prefix x (snd jb) e"
      "gather_extenders imports dm idx prefix x (queue_of jb @ concat (map queue_of jbs)) es caches =
        gather_extenders imports dm idx prefix x (concat (map queue_of jbs)) (es @ [e]) caches1"
      using gather_use[OF True _ Cons.prems(3), of R b "concat (map queue_of jbs)" es] by blast
    have "\<exists>es' caches'. gather_extenders imports dm idx prefix x (concat (map queue_of jbs)) (es @ [e]) caches1 =
        Inr ((es @ [e]) @ es', caches') \<and> caches_ok imports dm caches' \<and>
        list_all2 (\<lambda>jb e. extender_for b R (fst jb \<ge> idx) prefix x (snd jb) e) (filter (usable idx prefix x) jbs) es'"
      using Cons.prems(1,2) e(1) by (intro Cons.IH) auto
    with e True show ?thesis by fastforce
  qed
qed

section \<open>One extension\<close>

lemma list_all2_left: "list_all2 P xs ys \<Longrightarrow> x \<in> set xs \<Longrightarrow> \<exists>y \<in> set ys. P x y"
  by (induction xs ys rule: list_all2_induct) auto

lemma list_all2_right: "list_all2 P xs ys \<Longrightarrow> y \<in> set ys \<Longrightarrow> \<exists>x \<in> set xs. P x y"
  by (induction xs ys rule: list_all2_induct) auto

lemma list_all2_ball: "list_all2 (\<lambda>x y. Q y \<longleftrightarrow> P x) xs ys \<Longrightarrow> (\<forall>y \<in> set ys. Q y) \<longleftrightarrow> (\<forall>x \<in> set xs. P x)"
  by (induction xs ys rule: list_all2_induct) auto

text \<open>The bindings other than the source that only talk about a set of variables hold at a time of the pipeline.\<close>

definition others_hold ::
  "(aid \<Rightarrow> (df_value \<times> df_value, 't::linorder) collection) \<Rightarrow> usize \<Rightarrow> aid binding list \<Rightarrow> var set \<Rightarrow>
   't inner_time \<Rightarrow> valuation \<Rightarrow> bool" where
  "others_hold R idx bs X T \<sigma> \<longleftrightarrow>
     (\<forall>j < length bs. j \<noteq> idx \<longrightarrow> set (variables (bs ! j)) \<subseteq> X \<longrightarrow>
        binding_holds R (strictly_before (j \<ge> idx) T) (base_time T) (bs ! j) \<sigma>)"

definition pipeline_inv ::
  "(aid \<Rightarrow> (df_value \<times> df_value, 't::linorder) collection) \<Rightarrow> usize \<Rightarrow> aid binding list \<Rightarrow>
   (valuation \<Rightarrow> 't inner_time \<Rightarrow> int) \<Rightarrow> var list \<Rightarrow> (tuple, 't inner_time) collection \<Rightarrow> bool" where
  "pipeline_inv R idx bs D prefix c \<longleftrightarrow>
     (\<forall>u \<in> set c. length (fst u) = length prefix) \<and>
     (\<forall>\<sigma> T. acc c (map \<sigma> prefix) T = (if others_hold R idx bs (set prefix) T \<sigma> then D \<sigma> T else 0))"

text \<open>A binding that can propose the next variable.\<close>

definition proposable :: "usize \<Rightarrow> aid binding list \<Rightarrow> var set \<Rightarrow> var \<Rightarrow> bool" where
  "proposable idx bs X x \<longleftrightarrow>
     (\<exists>j < length bs. j \<noteq> idx \<and> proposing (bs ! j) \<and> x \<in> set (variables (bs ! j)) \<and> set (variables (bs ! j)) \<subseteq> insert x X)"

lemma query_readyD:
  assumes "query_ready imports dm R bs"
  shows "(j, bd) \<in> set (enumerated bs) \<Longrightarrow> wf_binding bd"
    and "(j, Attribute ab) \<in> set (enumerated bs) \<Longrightarrow>
      attribute_indexed imports dm (source_attribute ab) (R (source_attribute ab)) \<and> set_valued (R (source_attribute ab))"
    and "j < length bs \<Longrightarrow> wf_binding (bs ! j)"
  using assms nth_mem[of j bs] unfolding query_ready_def enumerated_def by (auto simp: in_set_enumerate_eq)

lemma set_usable:
  assumes "query_ready imports dm R bs" and "x \<notin> set prefix"
  shows "(j, bd) \<in> set (filter (usable idx prefix x) (enumerated bs)) \<longleftrightarrow>
    j < length bs \<and> bs ! j = bd \<and> j \<noteq> idx \<and> x \<in> set (variables bd) \<and> set (variables bd) \<subseteq> insert x (set prefix)"
  using can_extend_iff[OF query_readyD(3)[OF assms(1)]] assms(2)
  by (auto simp: usable_def enumerated_def in_set_enumerate_eq)

lemma others_hold_insert:
  assumes "query_ready imports dm R bs" and "x \<notin> set prefix"
  shows "others_hold R idx bs (insert x (set prefix)) T \<sigma> \<longleftrightarrow> others_hold R idx bs (set prefix) T \<sigma> \<and>
    (\<forall>(j, bd) \<in> set (filter (usable idx prefix x) (enumerated bs)).
       binding_holds R (strictly_before (j \<ge> idx) T) (base_time T) bd \<sigma>)"
proof -
  let ?H = "\<lambda>j bd. binding_holds R (strictly_before (j \<ge> idx) T) (base_time T) bd \<sigma>"
  define U where "U j \<longleftrightarrow> x \<in> set (variables (bs ! j)) \<and> set (variables (bs ! j)) \<subseteq> insert x (set prefix)" for j
  have "set (variables (bs ! j)) \<subseteq> insert x (set prefix) \<longleftrightarrow> set (variables (bs ! j)) \<subseteq> set prefix \<or> U j" for j
    using assms(2) unfolding U_def by blast
  moreover have "(\<forall>(j, bd) \<in> set (filter (usable idx prefix x) (enumerated bs)). ?H j bd) \<longleftrightarrow>
      (\<forall>j < length bs. j \<noteq> idx \<longrightarrow> U j \<longrightarrow> ?H j (bs ! j))"
    unfolding Ball_def split_paired_All prod.case set_usable[OF assms] U_def by blast
  ultimately show ?thesis unfolding others_hold_def by (simp only:) blast
qed

lemma acc_snoc: "acc (coll_map (\<lambda>(tup, v). tup @ [v]) c) (p @ [v]) T = acc c (p, v) T"
  using acc_map_inj[of "\<lambda>(tup, v). tup @ [v]" c "(p, v)" T] by (simp add: inj_def)

lemma extension_step:
  assumes ready: "query_ready imports dm R bs" and ok: "caches_ok imports dm caches" and new: "x \<notin> set prefix"
    and inv: "pipeline_inv R idx bs D prefix c" and pr: "proposable idx bs (set prefix) x"
  shows "\<exists>es caches' r. gather_extenders imports dm idx prefix x (binding_queue bs) [] caches = Inr (es, caches') \<and>
    caches_ok imports dm caches' \<and> Extend.extend (pipeline_ops b) es c = Inr r \<and>
    pipeline_inv R idx bs D (prefix @ [x]) (coll_map (\<lambda>(tup, v). tup @ [v]) r)"
proof -
  let ?jbs = "filter (usable idx prefix x) (enumerated bs)"
  have "\<exists>es caches'. gather_extenders imports dm idx prefix x (concat (map queue_of (enumerated bs))) [] caches =
      Inr ([] @ es, caches') \<and> caches_ok imports dm caches' \<and>
      list_all2 (\<lambda>jb e. extender_for b R (fst jb \<ge> idx) prefix x (snd jb) e) ?jbs es"
    by (rule gather_all[OF _ _ ok]) (rule query_readyD(1,2)[OF ready], assumption)+
  then obtain es caches' where gather: "gather_extenders imports dm idx prefix x (binding_queue bs) [] caches = Inr (es, caches')"
      "caches_ok imports dm caches'"
    and all: "list_all2 (\<lambda>jb e. extender_for b R (fst jb \<ge> idx) prefix x (snd jb) e) ?jbs es"
    unfolding binding_queue_eq by auto
  have len: "\<forall>u \<in> set c. length (fst u) = length prefix" using inv by (simp add: pipeline_inv_def)
  have each: "\<exists>jb. extender_for b R (fst jb \<ge> idx) prefix x (snd jb) e" if "e \<in> set es" for e
    using list_all2_right[OF all that] by blast
  from pr obtain j where "j < length bs" "j \<noteq> idx" "proposing (bs ! j)" "(j, bs ! j) \<in> set ?jbs"
    unfolding proposable_def set_usable[OF ready new] by blast
  with list_all2_left[OF all] obtain e where e: "e \<in> set es" "extender_for b R (j \<ge> idx) prefix x (bs ! j) e" by fastforce
  have "is_proposer e" "small_count (pipeline_ops b) e p T" for p T
    using e(2) \<open>proposing (bs ! j)\<close> unfolding extender_for_def by blast+
  then have 1: "\<exists>e \<in> set es. is_proposer e" and 2: "\<forall>(p, T, d) \<in> set c. \<exists>e \<in> set es. small_count (pipeline_ops b) e p T"
    using e(1) by blast+
  have "ext_ok e p" if "e \<in> set es" "length p = length prefix" for e p
    using each[OF that(1)] that(2) unfolding extender_for_def by blast
  then have 3: "\<forall>(p, T, d) \<in> set c. \<forall>e \<in> set es. ext_ok e p" using len by auto
  have 4: "\<forall>e \<in> set es. consistent (pipeline_ops b) e" using each unfolding extender_for_def by blast
  from extend_join[OF 3 4 2 1] obtain r where r: "Extend.extend (pipeline_ops b) es c = Inr r"
    "\<forall>u \<in> set r. fst (fst u) \<in> fst ` set c"
    "\<And>p v T. acc r (p, v) T = (if joins (pipeline_ops b) es p v T then acc c p T else 0)" by blast
  have joins: "joins (pipeline_ops b) es (map \<sigma> prefix) (\<sigma> x) T \<longleftrightarrow>
      (\<forall>(j, bd) \<in> set ?jbs. binding_holds R (strictly_before (j \<ge> idx) T) (base_time T) bd \<sigma>)" for \<sigma> T
  proof -
    have "list_all2 (\<lambda>jb e. accepts (pipeline_ops b) e (map \<sigma> prefix) (\<sigma> x) T \<longleftrightarrow>
        (case jb of (j, bd) \<Rightarrow> binding_holds R (strictly_before (j \<ge> idx) T) (base_time T) bd \<sigma>)) ?jbs es"
      by (rule list_all2_mono[OF all]) (simp only: extender_for_def case_prod_unfold)
    from list_all2_ball[OF this] show ?thesis unfolding joins_def list_all_iff .
  qed
  have "length (fst u) = length (prefix @ [x])" if "u \<in> set (coll_map (\<lambda>(tup, v). tup @ [v]) r)" for u
  proof -
    from that obtain p v T d where u: "((p, v), T, d) \<in> set r" "u = (p @ [v], T, d)" by (auto simp: coll_map_def)
    from bspec[OF r(2) u(1)] have "p \<in> fst ` set c" by simp
    with len u(2) show ?thesis by auto
  qed
  moreover have "acc (coll_map (\<lambda>(tup, v). tup @ [v]) r) (map \<sigma> (prefix @ [x])) T =
      (if others_hold R idx bs (set (prefix @ [x])) T \<sigma> then D \<sigma> T else 0)" for \<sigma> T
  proof -
    have "acc (coll_map (\<lambda>(tup, v). tup @ [v]) r) (map \<sigma> (prefix @ [x])) T =
        (if joins (pipeline_ops b) es (map \<sigma> prefix) (\<sigma> x) T then acc c (map \<sigma> prefix) T else 0)"
      by (simp add: acc_snoc r(3))
    moreover have "acc c (map \<sigma> prefix) T = (if others_hold R idx bs (set prefix) T \<sigma> then D \<sigma> T else 0)"
      using inv by (simp add: pipeline_inv_def)
    moreover have "others_hold R idx bs (set (prefix @ [x])) T \<sigma> \<longleftrightarrow> others_hold R idx bs (set prefix) T \<sigma> \<and>
        joins (pipeline_ops b) es (map \<sigma> prefix) (\<sigma> x) T"
      using others_hold_insert[OF ready new, of idx T \<sigma>] unfolding joins by simp
    ultimately show ?thesis by simp
  qed
  ultimately have "pipeline_inv R idx bs D (prefix @ [x]) (coll_map (\<lambda>(tup, v). tup @ [v]) r)"
    unfolding pipeline_inv_def by blast
  with gather r(1) show ?thesis by blast
qed

text \<open>All the extensions of a pipeline, when each variable can be proposed as its turn comes.\<close>

lemma extend_targets_inv:
  assumes ready: "query_ready imports dm R bs"
    and "caches_ok imports dm caches" and "pipeline_inv R idx bs D prefix c" and "distinct prefix"
    and "\<And>ys x zs. targets = ys @ x # zs \<Longrightarrow> x \<notin> set prefix \<union> set ys \<Longrightarrow> proposable idx bs (set prefix \<union> set ys) x"
  shows "\<exists>prefix' c' caches'. extend_targets (pipeline_ops b) imports dm bs idx targets (prefix, c, caches) =
      Inr (prefix', c', caches') \<and> set prefix' = set prefix \<union> set targets \<and> distinct prefix' \<and>
      pipeline_inv R idx bs D prefix' c' \<and> caches_ok imports dm caches'"
  using assms(2-)
proof (induction targets arbitrary: prefix c caches)
  case Nil
  then show ?case by simp
next
  case (Cons x targets)
  show ?case
  proof (cases "x \<in> set prefix")
    case True
    have "proposable idx bs (set prefix \<union> set ys) y" if "targets = ys @ y # zs" "y \<notin> set prefix \<union> set ys" for ys y zs
      using Cons.prems(4)[of "x # ys" y zs] that True by (auto simp: insert_absorb)
    from Cons.IH[OF Cons.prems(1-3) this] True show ?thesis by (auto simp: bind_simps insert_absorb)
  next
    case False
    have "proposable idx bs (set prefix) x" using Cons.prems(4)[of "[]" x targets] False by simp
    from extension_step[OF ready Cons.prems(1) False Cons.prems(2) this, where b = b] obtain es caches1 r where
      step: "gather_extenders imports dm idx prefix x (binding_queue bs) [] caches = Inr (es, caches1)"
        "Extend.extend (pipeline_ops b) es c = Inr r"
      and next_inv: "caches_ok imports dm caches1" "pipeline_inv R idx bs D (prefix @ [x]) (coll_map (\<lambda>(tup, v). tup @ [v]) r)"
      by blast
    have "proposable idx bs (set (prefix @ [x]) \<union> set ys) y"
      if "targets = ys @ y # zs" "y \<notin> set (prefix @ [x]) \<union> set ys" for ys y zs
      using Cons.prems(4)[of "x # ys" y zs] that by simp
    from Cons.IH[OF next_inv _ this] False Cons.prems(3) step show ?thesis by (auto simp: bind_simps)
  qed
qed

end
