(* ===== verification/Hector_Semantics.thy ===== *)
theory Hector_Semantics
  imports Pipeline_Semantics
begin

text \<open>
  The delta queries of \<^verbatim>\<open>Hector::implement\<close> together compute the join of all bindings: the pipelines telescope.
\<close>

section \<open>The source of a pipeline\<close>

lemma acc_enter_alt:
  "acc (enter_alt c) x T = (case T of AltNeu (s, r) n \<Rightarrow> if r = 0 \<and> \<not> n then acc c x s else 0)"
proof -
  obtain s r n where T: "T = AltNeu (s, r) n" by (metis altneu.exhaust prod.exhaust)
  have "acc (enter_alt c) x (AltNeu (s, r) n) = (if r = 0 \<and> \<not> n then acc c x s else 0)"
    by (induction c) (auto simp: enter_alt_def coll_map_times_def altneu_to_inner_def alt_def)
  then show ?thesis by (simp add: T)
qed

lemma acc_enter_alt_cong: "(\<And>s. acc c x s = acc c' y s) \<Longrightarrow> acc (enter_alt c) x T = acc (enter_alt c') y T"
  by (simp add: acc_enter_alt split: altneu.split prod.split)

lemma acc_enter_alt_filter:
  "acc (enter_alt (coll_filter P c)) x T = (if P x then acc (enter_alt c) x T else 0)"
  by (simp add: acc_enter_alt split: altneu.split prod.split)

definition conflicts_with :: "var \<Rightarrow> var \<Rightarrow> usize \<Rightarrow> usize \<times> 'a binding \<Rightarrow> bool" where
  "conflicts_with e v idx jb \<longleftrightarrow> fst jb \<noteq> idx \<and> set (variables (snd jb)) \<subseteq> {e, v}"

lemma source_conflicts_eq:
  assumes "idx < length bs" and "bs ! idx = Attribute (AttributeBinding (e, v) a)" and "\<forall>bd \<in> set bs. wf_binding bd"
  shows "source_conflicts idx bs = Inr (map snd (filter (conflicts_with e v idx) (enumerated bs)))"
proof -
  have ev: "e \<noteq> v" using assms nth_mem[OF assms(1)] by fastforce
  have "can_extend bd (vec_binds [e]) v \<or> can_extend bd (vec_binds [v]) e \<longleftrightarrow> set (variables bd) \<subseteq> {e, v}"
    if "wf_binding bd" for bd :: "'a binding"
    using ev variables_nonempty[of bd] unfolding can_extend_iff[OF that] by (cases "variables bd") auto
  note conflict = this
  have "filter (\<lambda>(j, bd). j \<noteq> idx \<and> (can_extend bd (vec_binds [e]) v \<or> can_extend bd (vec_binds [v]) e)) (enumerated bs) =
      filter (conflicts_with e v idx) (enumerated bs)"
  proof (intro filter_cong refl)
    fix jb assume "jb \<in> set (enumerated bs)"
    then have "fst jb < length bs" "snd jb = bs ! fst jb" by (simp_all add: enumerated_def in_set_enumerate_eq)
    with assms(3) have "wf_binding (snd jb)" by simp
    from conflict[OF this] show "(case jb of (j, bd) \<Rightarrow> j \<noteq> idx \<and> (can_extend bd (vec_binds [e]) v \<or>
        can_extend bd (vec_binds [v]) e)) = conflicts_with e v idx jb"
      by (simp add: conflicts_with_def case_prod_beta)
  qed
  with assms(1,2) show ?thesis by (simp add: source_conflicts_def vec_index_def)
qed

lemma others_hold_conflicts:
  "others_hold R idx bs {e, v} T \<sigma> \<longleftrightarrow> (\<forall>(j, bd) \<in> set (filter (conflicts_with e v idx) (enumerated bs)).
     binding_holds R (strictly_before (j \<ge> idx) T) (base_time T) bd \<sigma>)"
  unfolding others_hold_def by (auto simp: conflicts_with_def enumerated_def in_set_enumerate_eq)

text \<open>At most one constant may restrict the variables of the source.\<close>

definition resolvable :: "usize \<Rightarrow> aid binding list \<Rightarrow> bool" where
  "resolvable idx bs \<longleftrightarrow> (\<exists>cs. source_conflicts idx bs = Inr cs \<and> (cs = [] \<or> (\<exists>c. cs = [Constant c])))"

definition source_change ::
  "(df_value \<times> df_value, 't) collection \<Rightarrow> var \<Rightarrow> var \<Rightarrow> valuation \<Rightarrow> 't inner_time \<Rightarrow> int" where
  "source_change c e v \<sigma> T = acc (enter_alt c) (\<sigma> e, \<sigma> v) T"

lemma acc_pairs:
  "acc (coll_map (\<lambda>(x, y). [x, y]) c) [x, y] T = acc c (x, y) T"
  "acc (coll_map (\<lambda>(x, y). [y, x]) c) [y, x] T = acc c (x, y) T"
  using acc_map_inj[of "\<lambda>(x, y). [x, y]" c "(x, y)" T] acc_map_inj[of "\<lambda>(x, y). [y, x]" c "(x, y)" T]
  by (simp_all add: inj_def)

lemma pair_lengths:
  "u \<in> set (coll_map (\<lambda>(x, y). [x, y]) c) \<Longrightarrow> length (fst u) = 2"
  "u \<in> set (coll_map (\<lambda>(x, y). [y, x]) c) \<Longrightarrow> length (fst u) = 2"
  by (auto simp: coll_map_def)

lemma delta_source_inv:
  assumes ready: "query_ready imports dm R bs" and ok: "caches_ok imports dm caches" and idx: "idx < length bs"
    and src: "bs ! idx = Attribute (AttributeBinding (e, v) a)" and res: "resolvable idx bs"
  shows "\<exists>prefix c caches'. delta_source imports dm bs idx (AttributeBinding (e, v) a) caches = Inr (prefix, c, caches') \<and>
    set prefix = {e, v} \<and> distinct prefix \<and> caches_ok imports dm caches' \<and>
    pipeline_inv R idx bs (source_change (R a) e v) prefix c"
proof -
  have wf: "\<forall>bd \<in> set bs. wf_binding bd" using ready by (simp add: query_ready_def)
  have mem: "Attribute (AttributeBinding (e, v) a) \<in> set bs" using nth_mem[OF idx] src by simp
  with wf have ev: "e \<noteq> v" by force
  from mem ready obtain pt where pt: "forward_propose_of a dm = Some pt" "indexes (import_proposes imports pt) (R a)"
    unfolding query_ready_def attribute_indexed_def by fastforce
  let ?st = "import_proposes imports pt"
  have acc: "acc (enter_alt (as_collection ?st)) x T = acc (enter_alt (R a)) x T" for x T
    using pt(2) unfolding indexes_def by (intro acc_enter_alt_cong) blast
  from ok have "cached (\<lambda>a. forward_propose_of a dm) (import_proposes imports) (forward_proposes caches)"
    by (simp add: caches_ok_def)
  from or_insert_cached[OF this pt(1)] obtain ps h where
    ins: "or_insert_with a (fetch_index ''forward propose trace doesn't exist'' (import_proposes imports)
        (forward_propose_of a dm)) (Propose a) (forward_proposes caches) (cache_handle caches) = Inr (?st, ps, h)"
    and ps: "cached (\<lambda>a. forward_propose_of a dm) (import_proposes imports) ps" by blast
  let ?caches = "caches \<lparr> forward_proposes := ps, cache_handle := h \<rparr>"
  have ok': "caches_ok imports dm ?caches" using ok ps by (simp add: caches_ok_def)
  from res obtain cs where cs: "source_conflicts idx bs = Inr cs" "cs = [] \<or> (\<exists>c. cs = [Constant c])"
    by (auto simp: resolvable_def)
  from cs(1) source_conflicts_eq[OF idx src wf] have filt: "map snd (filter (conflicts_with e v idx) (enumerated bs)) = cs" by simp
  from cs(2) show ?thesis
  proof
    assume Nil: "cs = []"
    then have "others_hold R idx bs {e, v} T \<sigma>" for T \<sigma> using filt by (simp add: others_hold_conflicts)
    then have "pipeline_inv R idx bs (source_change (R a) e v) [e, v] (coll_map (\<lambda>(e, v). [e, v]) (enter_alt (as_collection ?st)))"
      unfolding pipeline_inv_def source_change_def by (intro conjI ballI allI) (simp_all add: acc_pairs acc pair_lengths)
    with ins ok' cs(1) Nil ev show ?thesis by (simp add: delta_source_def)
  next
    assume "\<exists>c. cs = [Constant c]"
    then obtain c where c: "cs = [Constant c]" by blast
    with filt obtain j where j: "filter (conflicts_with e v idx) (enumerated bs) = [(j, Constant c)]" by auto
    then have hold: "others_hold R idx bs {e, v} T \<sigma> \<longleftrightarrow> \<sigma> (cb_variable c) = cb_value c" for T \<sigma>
      by (simp add: others_hold_conflicts)
    have "(j, Constant c) \<in> set (filter (conflicts_with e v idx) (enumerated bs))" by (simp add: j)
    then consider "cb_variable c = e" | "cb_variable c = v" by (auto simp: conflicts_with_def)
    then show ?thesis
    proof cases
      case 1
      then have "resolve_conflict (AttributeBinding (e, v) a) (Constant c) ?st = Inr ([e, v],
          coll_map (\<lambda>(e, v). [e, v]) (enter_alt (coll_filter (\<lambda>(e, v). e = cb_value c) (as_collection ?st))))"
        using ev by (simp add: resolve_conflict_def direction_def vec_binds_def)
      moreover have "pipeline_inv R idx bs (source_change (R a) e v) [e, v]
          (coll_map (\<lambda>(e, v). [e, v]) (enter_alt (coll_filter (\<lambda>(e, v). e = cb_value c) (as_collection ?st))))"
        unfolding pipeline_inv_def source_change_def using 1
        by (intro conjI ballI allI) (simp_all add: acc_pairs acc_enter_alt_filter acc hold pair_lengths)
      ultimately show ?thesis using ins ok' cs(1) c ev by (simp add: delta_source_def)
    next
      case 2
      then have "resolve_conflict (AttributeBinding (e, v) a) (Constant c) ?st = Inr ([v, e],
          coll_map (\<lambda>(v, e). [e, v]) (enter_alt (coll_filter (\<lambda>(e, v). v = cb_value c) (as_collection ?st))))"
        using ev by (simp add: resolve_conflict_def direction_def vec_binds_def)
      moreover have "pipeline_inv R idx bs (source_change (R a) e v) [v, e]
          (coll_map (\<lambda>(v, e). [e, v]) (enter_alt (coll_filter (\<lambda>(e, v). v = cb_value c) (as_collection ?st))))"
        unfolding pipeline_inv_def source_change_def using 2
        by (intro conjI ballI allI)
          (simp_all add: acc_pairs acc_enter_alt_filter acc hold pair_lengths insert_commute[of v e])
      ultimately show ?thesis using ins ok' cs(1) c ev by (auto simp: delta_source_def insert_commute)
    qed
  qed
qed

section \<open>Leaving the scope\<close>

lemma total_leave_acc:
  assumes "finite A" and "upd_times c \<subseteq> A"
  shows "total_at L (leave_alt c) x t = (\<Sum>T \<in> {T \<in> A. less_equal L (inner_time T) t}. acc c x T)"
  using assms(2)
proof (induction c)
  case Nil
  then show ?case by (simp add: leave_alt_def coll_map_times_def)
next
  case (Cons u c)
  obtain y T d where u: "u = (y, T, d)" by (metis prod_cases3)
  have "(\<Sum>T' \<in> {T \<in> A. less_equal L (inner_time T) t}. upd_contrib x T' u) =
      (\<Sum>T' \<in> {T \<in> A. less_equal L (inner_time T) t}. if T = T' then (if y = x then d else 0) else 0)"
    by (rule sum.cong) (auto simp: u)
  also have "\<dots> = upd_until L x t (y, inner_time T, d)" using Cons.prems assms(1) by (subst sum.delta') (auto simp: u)
  finally show ?case using Cons by (simp add: sum.distrib u leave_alt_def coll_map_times_def altneu_to_outer_def)
qed

lemma total_leave:
  assumes "finite S" and "\<And>T. acc c x T \<noteq> 0 \<Longrightarrow> \<exists>s \<in> S. T = AltNeu (s, 0) False"
  shows "total_at (nested_ops (total_ops b)) (leave_alt c) x (t, r) = (\<Sum>s \<in> {s \<in> S. s \<le> t}. acc c x (AltNeu (s, 0) False))"
proof -
  let ?g = "\<lambda>s. AltNeu (s, 0 :: u64) False" and ?A = "upd_times c \<union> (\<lambda>s. AltNeu (s, 0) False) ` S"
  have inj: "inj_on ?g B" for B by (auto simp: inj_on_def)
  have "total_at (nested_ops (total_ops b)) (leave_alt c) x (t, r) =
      (\<Sum>T \<in> {T \<in> ?A. less_equal (nested_ops (total_ops b)) (inner_time T) (t, r)}. acc c x T)"
    using assms(1) by (intro total_leave_acc) auto
  also have "\<dots> = (\<Sum>T \<in> ?g ` {s \<in> S. s \<le> t}. acc c x T)"
  proof (rule sum.mono_neutral_right)
    show "finite {T \<in> ?A. less_equal (nested_ops (total_ops b)) (inner_time T) (t, r)}" using assms(1) by simp
    show "?g ` {s \<in> S. s \<le> t} \<subseteq> {T \<in> ?A. less_equal (nested_ops (total_ops b)) (inner_time T) (t, r)}"
      by (auto simp: nested_ops_def total_ops_def)
    show "\<forall>T \<in> {T \<in> ?A. less_equal (nested_ops (total_ops b)) (inner_time T) (t, r)} - ?g ` {s \<in> S. s \<le> t}. acc c x T = 0"
    proof
      fix T assume T: "T \<in> {T \<in> ?A. less_equal (nested_ops (total_ops b)) (inner_time T) (t, r)} - ?g ` {s \<in> S. s \<le> t}"
      show "acc c x T = 0"
      proof (rule ccontr)
        assume "acc c x T \<noteq> 0"
        from assms(2)[OF this] obtain s where "s \<in> S" "T = ?g s" by blast
        with T show False by (auto simp: nested_ops_def total_ops_def)
      qed
    qed
  qed
  also have "\<dots> = (\<Sum>s \<in> {s \<in> S. s \<le> t}. acc c x (?g s))" by (simp add: sum.reindex[OF inj])
  finally show ?thesis .
qed

lemma leave_alt_map: "leave_alt (coll_map f c) = coll_map f (leave_alt c)"
  by (induction c) (auto simp: leave_alt_def coll_map_times_def coll_map_def)

lemma wf_tuples_leave: "wf_tuples vs (leave_alt c) \<longleftrightarrow> (\<forall>u \<in> set c. length (fst u) = length vs)"
  by (induction c) (auto simp: wf_tuples_def leave_alt_def coll_map_times_def)

lemma leave_alt_concat: "leave_alt (concat cs) = concat (map leave_alt cs)"
  by (induction cs) (auto simp: leave_alt_def coll_map_times_def)

section \<open>A pipeline\<close>

definition delta_change ::
  "(aid \<Rightarrow> (df_value \<times> df_value, 't::linorder) collection) \<Rightarrow> aid binding list \<Rightarrow> usize \<Rightarrow> valuation \<Rightarrow> 't \<Rightarrow> int" where
  "delta_change R bs idx \<rho> s =
     (case bs ! idx of
        Attribute ab \<Rightarrow>
          if \<forall>j < length bs. j \<noteq> idx \<longrightarrow> binding_holds R (j \<ge> idx) s (bs ! j) \<rho>
          then acc (R (source_attribute ab)) (\<rho> (fst (ab_variables ab)), \<rho> (snd (ab_variables ab))) s else 0
      | _ \<Rightarrow> 0)"

text \<open>The order found for a source covers all variables, and some attribute or constant can propose each of
  them in its turn.\<close>

definition well_planned :: "usize \<Rightarrow> aid binding list \<Rightarrow> bool" where
  "well_planned idx bs \<longleftrightarrow>
     (case plan_order idx bs of
        Some (Inr (order, _)) \<Rightarrow>
          set order = set (all_variables bs) \<and>
          (\<forall>k < length order. order ! k \<notin> set (variables (bs ! idx)) \<union> set (take k order) \<longrightarrow>
             proposable idx bs (set (variables (bs ! idx)) \<union> set (take k order)) (order ! k))
      | _ \<Rightarrow> False)"

lemma all_variables_mem: "idx < length bs \<Longrightarrow> set (variables (bs ! idx)) \<subseteq> set (all_variables bs)"
  unfolding set_all_variables by (rule UN_upper) simp

lemma finite_support:
  assumes "\<And>\<rho>. m \<rho> = total_at L c (map \<rho> vars) t"
  shows "finite {\<rho> \<in> valuations (set vars). m \<rho> \<noteq> 0}"
proof (rule finite_subset)
  show "{\<rho> \<in> valuations (set vars). m \<rho> \<noteq> 0} \<subseteq> restrict_to vars ` fst ` set c"
  proof
    fix \<rho> assume \<rho>: "\<rho> \<in> {\<rho> \<in> valuations (set vars). m \<rho> \<noteq> 0}"
    then have "map \<rho> vars \<in> fst ` set c" using total_absent[of "map \<rho> vars" c L t] assms by auto
    moreover have "\<rho> = restrict_to vars (map \<rho> vars)" using \<rho> by (simp add: restrict_to_map)
    ultimately show "\<rho> \<in> restrict_to vars ` fst ` set c" by (rule rev_image_eqI)
  qed
qed simp

lemma delta_pipeline_exact:
  assumes ready: "query_ready imports dm R bs" and ok: "caches_ok imports dm caches" and idx: "idx < length bs"
    and src: "bs ! idx = Attribute ab" and res: "resolvable idx bs" and plan: "well_planned idx bs"
    and vs: "set vs \<subseteq> set (all_variables bs)"
    and S: "finite S" "upd_times (R (source_attribute ab)) \<subseteq> S"
  shows "\<exists>c caches'. delta_pipeline (total_ops b) imports dm vs bs idx ab caches = Some (Inr (c, caches')) \<and>
    caches_ok imports dm caches' \<and> (\<forall>u \<in> set c. length (fst u) = length vs) \<and>
    (\<forall>t. finite {\<rho> \<in> valuations (set (all_variables bs)). (\<Sum>s \<in> {s \<in> S. s \<le> t}. delta_change R bs idx \<rho> s) \<noteq> 0}) \<and>
    (\<forall>\<sigma> t r. total_at (nested_ops (total_ops b)) (leave_alt c) (map \<sigma> vs) (t, r) =
       project_sum (set (all_variables bs)) vs (\<lambda>\<rho>. \<Sum>s \<in> {s \<in> S. s \<le> t}. delta_change R bs idx \<rho> s) \<sigma>)"
proof -
  obtain e v a where ab: "ab = AttributeBinding (e, v) a" by (metis attribute_binding.exhaust prod.exhaust)
  let ?V = "set (all_variables bs)"
  note src' = src[unfolded ab]
  from plan obtain order ord where order: "plan_order idx bs = Some (Inr (order, ord))" "set order = ?V"
      "\<And>k. k < length order \<Longrightarrow> order ! k \<notin> {e, v} \<union> set (take k order) \<Longrightarrow>
        proposable idx bs ({e, v} \<union> set (take k order)) (order ! k)"
    by (auto simp: well_planned_def src' split: option.splits sum.splits)
  from delta_source_inv[OF ready ok idx src' res] obtain prefix0 c0 caches0 where
    source: "delta_source imports dm bs idx ab caches = Inr (prefix0, c0, caches0)" "set prefix0 = {e, v}"
      "distinct prefix0" "caches_ok imports dm caches0" "pipeline_inv R idx bs (source_change (R a) e v) prefix0 c0"
    unfolding ab by blast
  have step: "proposable idx bs (set prefix0 \<union> set ys) x" if "order = ys @ x # zs" "x \<notin> set prefix0 \<union> set ys" for ys x zs
    using order(3)[of "length ys"] that source(2) by (simp add: that(1))
  have "\<exists>prefix c caches'. extend_targets (pipeline_ops b) imports dm bs idx order (prefix0, c0, caches0) = Inr (prefix, c, caches') \<and>
      set prefix = set prefix0 \<union> set order \<and> distinct prefix \<and> pipeline_inv R idx bs (source_change (R a) e v) prefix c \<and>
      caches_ok imports dm caches'"
    by (rule extend_targets_inv[OF ready source(4,5,3)]) (rule step)
  then obtain prefix c caches' where
    targets: "extend_targets (pipeline_ops b) imports dm bs idx order (prefix0, c0, caches0) = Inr (prefix, c, caches')"
      "set prefix = set prefix0 \<union> set order" "distinct prefix" "pipeline_inv R idx bs (source_change (R a) e v) prefix c"
      "caches_ok imports dm caches'"
    by blast
  have V: "set prefix = ?V" using targets(2) source(2) order(2) all_variables_mem[OF idx] by (auto simp: src')
  have len: "\<forall>u \<in> set c. length (fst u) = length prefix" using targets(4) by (simp add: pipeline_inv_def)
  define out where "out = coll_map (\<lambda>tup. map (value_of prefix tup) vs) c"
  have "coll_map_run (project_tuple prefix vs) c = Inr out"
    unfolding out_def using len vs V by (intro coll_map_run_total project_tuple_total) auto
  moreover have "out = c" if "vs = prefix"
    unfolding out_def that coll_map_def using len value_of_self[OF targets(3)] by (intro map_idI) auto
  ultimately have run: "delta_pipeline (total_ops b) imports dm vs bs idx ab caches = Some (Inr (out, caches'))"
    using order(1) source(1) targets(1) by (auto simp: delta_pipeline_def)
  have all: "others_hold R idx bs (set prefix) (AltNeu (s, 0) False) \<rho> \<longleftrightarrow>
      (\<forall>j < length bs. j \<noteq> idx \<longrightarrow> binding_holds R (j \<ge> idx) s (bs ! j) \<rho>)" for s \<rho>
    using all_variables_mem[of _ bs] V by (simp add: others_hold_def)
  have inv: "acc c (map \<rho> prefix) T = (if others_hold R idx bs (set prefix) T \<rho> then source_change (R a) e v \<rho> T else 0)" for \<rho> T
    using targets(4) unfolding pipeline_inv_def by blast
  then have acc: "acc c (map \<rho> prefix) (AltNeu (s, 0) False) = delta_change R bs idx \<rho> s" for \<rho> s
    by (auto simp: all delta_change_def src' source_change_def acc_enter_alt)
  have total: "total_at (nested_ops (total_ops b)) (leave_alt c) (map \<rho> prefix) (t, r) =
      (\<Sum>s \<in> {s \<in> S. s \<le> t}. delta_change R bs idx \<rho> s)" for \<rho> t r
    unfolding acc[symmetric]
  proof (rule total_leave[OF S(1)])
    fix T assume "acc c (map \<rho> prefix) T \<noteq> 0"
    then have "acc (enter_alt (R a)) (\<rho> e, \<rho> v) T \<noteq> 0" by (simp add: inv source_change_def split: if_splits)
    then obtain s where "T = AltNeu (s, 0) False" "acc (R a) (\<rho> e, \<rho> v) s \<noteq> 0"
      by (cases T) (auto simp: acc_enter_alt split: prod.splits if_splits)
    moreover from this(2) acc_absent[of "(\<rho> e, \<rho> v)" s "R a"] have "s \<in> S" using S(2) by (force simp: ab)
    ultimately show "\<exists>s \<in> S. T = AltNeu (s, 0) False" by blast
  qed
  have wf: "wf_tuples prefix (leave_alt c)" using len by (simp add: wf_tuples_leave)
  have "total_at (nested_ops (total_ops b)) (leave_alt out) (map \<sigma> vs) (t, r) =
      project_sum ?V vs (\<lambda>\<rho>. \<Sum>s \<in> {s \<in> S. s \<le> t}. delta_change R bs idx \<rho> s) \<sigma>" for \<sigma> t r
    unfolding out_def leave_alt_map total_projected[OF wf targets(3) vs[folded V]] total V ..
  moreover have "finite {\<rho> \<in> valuations ?V. (\<Sum>s \<in> {s \<in> S. s \<le> t}. delta_change R bs idx \<rho> s) \<noteq> 0}" for t
    unfolding V[symmetric] by (rule finite_support) (rule total[symmetric])
  moreover have "\<forall>u \<in> set out. length (fst u) = length vs" by (auto simp: out_def coll_map_def)
  ultimately show ?thesis using run targets(5) by blast
qed

section \<open>Telescoping\<close>

text \<open>The product of the new values minus that of the old ones, factor by factor.\<close>

lemma telescope_product:
  fixes A B :: "nat \<Rightarrow> int"
  shows "(\<Sum>i < n. (A i - B i) * (\<Prod>j < i. A j) * (\<Prod>j \<in> {i<..<n}. B j)) = (\<Prod>j < n. A j) - (\<Prod>j < n. B j)"
proof (induction n)
  case 0
  then show ?case by simp
next
  case (Suc n)
  have split: "(\<Prod>j \<in> {i<..<Suc n}. B j) = (\<Prod>j \<in> {i<..<n}. B j) * B n" if "i < n" for i
  proof -
    have "{i<..<Suc n} = insert n {i<..<n}" using that by auto
    then show ?thesis by simp
  qed
  have "(\<Sum>i < Suc n. (A i - B i) * (\<Prod>j < i. A j) * (\<Prod>j \<in> {i<..<Suc n}. B j)) =
      (\<Sum>i < n. (A i - B i) * (\<Prod>j < i. A j) * (\<Prod>j \<in> {i<..<n}. B j)) * B n +
      (A n - B n) * (\<Prod>j < n. A j)"
  proof -
    have "{n<..<Suc n} = {}" by auto
    then show ?thesis by (simp add: sum_distrib_right split mult.assoc)
  qed
  also have "\<dots> = (\<Prod>j < Suc n. A j) - (\<Prod>j < Suc n. B j)" unfolding Suc by (simp add: algebra_simps)
  finally show ?case .
qed

text \<open>The changes of a quantity up to a time add up to the quantity.\<close>

lemma telescope_time:
  fixes f g :: "'t::linorder \<Rightarrow> int"
  assumes "finite S"
    and before: "\<And>t. g t = (if \<exists>s \<in> S. s < t then f (Max {s \<in> S. s < t}) else 0)"
    and until: "\<And>t. f t = (if \<exists>s \<in> S. s \<le> t then f (Max {s \<in> S. s \<le> t}) else 0)"
  shows "(\<Sum>s \<in> {s \<in> S. s \<le> t}. f s - g s) = f t"
proof (induction "card {s \<in> S. s \<le> t}" arbitrary: t rule: less_induct)
  case less
  let ?B = "{s \<in> S. s \<le> t}"
  show ?case
  proof (cases "?B = {}")
    case True
    then have "\<not> (\<exists>s \<in> S. s \<le> t)" by blast
    with until[of t] have "f t = 0" by simp
    then show ?thesis by (simp only: True sum.empty)
  next
    case False
    define m where "m = Max ?B"
    have fin: "finite ?B" using assms(1) by simp
    have m: "m \<in> ?B" "\<And>s. s \<in> ?B \<Longrightarrow> s \<le> m" using Max_in[OF fin False] Max_ge[OF fin] by (simp_all add: m_def)
    have ft: "f t = f m" using until[of t] m(1) by (auto simp: m_def)
    let ?C = "{s \<in> S. s < m}"
    have B: "?B = insert m ?C" "m \<notin> ?C" "finite ?C" using m assms(1) by (auto simp: less_le)
    have "(\<Sum>s \<in> ?C. f s - g s) = g m"
    proof (cases "?C = {}")
      case True
      then have "\<not> (\<exists>s \<in> S. s < m)" by blast
      with before[of m] have "g m = 0" by simp
      then show ?thesis by (simp only: True sum.empty)
    next
      case False
      let ?k = "Max ?C"
      have k: "?k \<in> ?C" "\<And>s. s \<in> ?C \<Longrightarrow> s \<le> ?k" using Max_in[OF B(3) False] Max_ge[OF B(3)] by simp_all
      have C: "?C = {s \<in> S. s \<le> ?k}" using k by fastforce
      have "card {s \<in> S. s \<le> ?k} < card ?B" unfolding C[symmetric] B(1) using B(2,3) by simp
      from less.hyps[OF this] have "(\<Sum>s \<in> ?C. f s - g s) = f ?k" unfolding C[symmetric] .
      moreover have "g m = f ?k" using before[of m] k(1) by auto
      ultimately show ?thesis by simp
    qed
    with B show ?thesis by (simp add: ft)
  qed
qed

section \<open>The join of all bindings\<close>

definition query_times ::
  "(aid \<Rightarrow> (df_value \<times> df_value, 't::linorder) collection) \<Rightarrow> aid binding list \<Rightarrow> 't set" where
  "query_times R bs = (\<Union>ab \<in> {ab. Attribute ab \<in> set bs}. upd_times (R (source_attribute ab)))"

definition all_hold ::
  "(aid \<Rightarrow> (df_value \<times> df_value, 't::linorder) collection) \<Rightarrow> bool \<Rightarrow> 't \<Rightarrow> aid binding list \<Rightarrow> valuation \<Rightarrow> bool" where
  "all_hold R m t bs \<rho> \<longleftrightarrow> (\<forall>bd \<in> set bs. binding_holds R m t bd \<rho>)"

lemma finite_query_times: "finite (query_times R bs)"
proof -
  have "finite (Attribute -` set bs)" by (rule finite_vimageI) (auto simp: inj_def)
  then show ?thesis by (simp add: query_times_def vimage_def)
qed

lemma seen_until:
  assumes "finite S" and "upd_times c \<subseteq> S"
  shows "seen False c x t = (if \<exists>s \<in> S. s \<le> t then seen False c x (Max {s \<in> S. s \<le> t}) else 0)"
proof (cases "\<exists>s \<in> S. s \<le> t")
  case True
  let ?B = "{s \<in> S. s \<le> t}"
  have fin: "finite ?B" "?B \<noteq> {}" using assms(1) True by auto
  then have "Max ?B \<in> ?B" by (rule Max_in)
  then have max: "Max ?B \<le> t" by simp
  have "{s \<in> S. visible False s t} = {s \<in> S. visible False s (Max ?B)}"
    using max Max_ge[OF fin(1)] by (auto simp: visible_def)
  with True show ?thesis by (simp add: seen_acc[OF assms])
next
  case False
  then have "{s \<in> S. visible False s t} = {}" by (auto simp: visible_def)
  with False show ?thesis by (simp only: seen_acc[OF assms] sum.empty if_False)
qed

lemma wf_binding_cases:
  fixes R :: "aid \<Rightarrow> (df_value \<times> df_value, 't::linorder) collection"
  assumes "wf_binding bd"
  obtains ab where "bd = Attribute ab" | "\<And>m t m' t' \<sigma>. binding_holds R m t bd \<sigma> = binding_holds R m' t' bd \<sigma>"
    "\<And>ab. bd \<noteq> Attribute ab"
proof (cases bd)
  case (Attribute ab)
  then show ?thesis by (rule that(1))
next
  case (Not b')
  then have "timeless b'" using assms by simp
  from binding_holds_timeless[OF this] show ?thesis by (intro that(2)) (simp_all add: Not)
qed (rule that(2); simp)+

lemma holds_at_last:
  assumes "wf_binding bd" and "finite S" and "\<And>ab. bd = Attribute ab \<Longrightarrow> upd_times (R (source_attribute ab)) \<subseteq> S"
  shows "s0 \<in> S \<Longrightarrow> s0 < t \<Longrightarrow> binding_holds R True t bd \<rho> = binding_holds R False (Max {s \<in> S. s < t}) bd \<rho>"
    and "s0 \<in> S \<Longrightarrow> s0 \<le> t \<Longrightarrow> binding_holds R False t bd \<rho> = binding_holds R False (Max {s \<in> S. s \<le> t}) bd \<rho>"
proof -
  show "binding_holds R True t bd \<rho> = binding_holds R False (Max {s \<in> S. s < t}) bd \<rho>" if "s0 \<in> S" "s0 < t"
    using assms(1)
  proof (rule wf_binding_cases[where R = R])
    fix ab assume ab: "bd = Attribute ab"
    have ex: "\<exists>s \<in> S. s < t" using that by blast
    show ?thesis unfolding ab binding_holds.simps seen_strict[OF assms(2) assms(3)[OF ab], of _ t] if_P[OF ex] ..
  next
    assume "\<And>m t m' t' \<sigma>. binding_holds R m t bd \<sigma> = binding_holds R m' t' bd \<sigma>"
    then show ?thesis by blast
  qed
  show "binding_holds R False t bd \<rho> = binding_holds R False (Max {s \<in> S. s \<le> t}) bd \<rho>" if "s0 \<in> S" "s0 \<le> t"
    using assms(1)
  proof (rule wf_binding_cases[where R = R])
    fix ab assume ab: "bd = Attribute ab"
    have ex: "\<exists>s \<in> S. s \<le> t" using that by blast
    show ?thesis unfolding ab binding_holds.simps seen_until[OF assms(2) assms(3)[OF ab], of _ t] if_P[OF ex] ..
  next
    assume "\<And>m t m' t' \<sigma>. binding_holds R m t bd \<sigma> = binding_holds R m' t' bd \<sigma>"
    then show ?thesis by blast
  qed
qed

lemma none_before:
  assumes "Attribute ab \<in> set bs" and "finite S" and "upd_times (R (source_attribute ab)) \<subseteq> S"
  shows "\<not> (\<exists>s \<in> S. s < t) \<Longrightarrow> \<not> all_hold R True t bs \<rho>" and "\<not> (\<exists>s \<in> S. s \<le> t) \<Longrightarrow> \<not> all_hold R False t bs \<rho>"
proof -
  let ?x = "(\<rho> (fst (ab_variables ab)), \<rho> (snd (ab_variables ab)))"
  have pos: "all_hold R m t bs \<rho> \<Longrightarrow> 0 < seen m (R (source_attribute ab)) ?x t" for m
    using assms(1) unfolding all_hold_def by fastforce
  show "\<not> all_hold R True t bs \<rho>" if "\<not> (\<exists>s \<in> S. s < t)"
    using pos[of True] unfolding seen_strict[OF assms(2,3)] if_not_P[OF that] by auto
  show "\<not> all_hold R False t bs \<rho>" if "\<not> (\<exists>s \<in> S. s \<le> t)"
    using pos[of False] unfolding seen_until[OF assms(2,3), of ?x t] if_not_P[OF that] by auto
qed

lemma of_bool_all_prod: "of_bool (\<forall>j < n :: nat. P j) = (\<Prod>j < n. of_bool (P j) :: int)"
  by (induction n) (auto simp: less_Suc_eq)

lemma of_bool_ball_prod:
  assumes "finite A"
  shows "of_bool (\<forall>j \<in> A. P j) = (\<Prod>j \<in> A. of_bool (P j) :: int)"
  using assms by (induction A rule: finite_induct) auto

lemma delta_change_product:
  assumes ready: "query_ready imports dm R bs" and idx: "idx < length bs"
  defines "A \<equiv> \<lambda>s \<rho> j. of_bool (binding_holds R False s (bs ! j) \<rho>) :: int"
    and "B \<equiv> \<lambda>s \<rho> j. of_bool (binding_holds R True s (bs ! j) \<rho>) :: int"
  shows "delta_change R bs idx \<rho> s = (A s \<rho> idx - B s \<rho> idx) * (\<Prod>j < idx. A s \<rho> j) * (\<Prod>j \<in> {idx<..<length bs}. B s \<rho> j)"
proof -
  have split: "(\<forall>j < length bs. j \<noteq> idx \<longrightarrow> binding_holds R (j \<ge> idx) s (bs ! j) \<rho>) \<longleftrightarrow>
      (\<forall>j \<in> {..<idx}. binding_holds R False s (bs ! j) \<rho>) \<and> (\<forall>j \<in> {idx<..<length bs}. binding_holds R True s (bs ! j) \<rho>)"
  proof (intro iffI conjI ballI allI impI)
    assume *: "(\<forall>j \<in> {..<idx}. binding_holds R False s (bs ! j) \<rho>) \<and>
      (\<forall>j \<in> {idx<..<length bs}. binding_holds R True s (bs ! j) \<rho>)"
    fix j assume "j < length bs" "j \<noteq> idx"
    with * show "binding_holds R (j \<ge> idx) s (bs ! j) \<rho>" by (cases "j < idx") auto
  next
    assume *: "\<forall>j < length bs. j \<noteq> idx \<longrightarrow> binding_holds R (j \<ge> idx) s (bs ! j) \<rho>"
    fix j
    show "binding_holds R False s (bs ! j) \<rho>" if "j \<in> {..<idx}" using *[rule_format, of j] that idx by (simp add: not_le)
    show "binding_holds R True s (bs ! j) \<rho>" if "j \<in> {idx<..<length bs}" using *[rule_format, of j] that by simp
  qed
  have prods: "(\<Prod>j < idx. A s \<rho> j) * (\<Prod>j \<in> {idx<..<length bs}. B s \<rho> j) =
      of_bool (\<forall>j < length bs. j \<noteq> idx \<longrightarrow> binding_holds R (j \<ge> idx) s (bs ! j) \<rho>)"
    unfolding split of_bool_conj of_bool_ball_prod[OF finite_lessThan] of_bool_ball_prod[OF finite_greaterThanLessThan] A_def B_def ..
  from query_readyD(3)[OF ready idx] show ?thesis
  proof (rule wf_binding_cases[where R = R])
    fix ab assume ab: "bs ! idx = Attribute ab"
    let ?x = "(\<rho> (fst (ab_variables ab)), \<rho> (snd (ab_variables ab)))"
    have "set_valued (R (source_attribute ab))"
      using ready nth_mem[OF idx] unfolding query_ready_def ab by blast
    then have "seen m (R (source_attribute ab)) ?x s = of_bool (0 < seen m (R (source_attribute ab)) ?x s)" for m
      using set_valued_seen[of "R (source_attribute ab)" m ?x s] by auto
    then have "A s \<rho> idx - B s \<rho> idx = acc (R (source_attribute ab)) ?x s"
      using seen_step[of "R (source_attribute ab)" ?x s] by (simp add: A_def B_def ab)
    then show ?thesis unfolding mult.assoc prods by (auto simp: delta_change_def ab of_bool_def)
  next
    assume same: "\<And>m t m' t' \<sigma>. binding_holds R m t (bs ! idx) \<sigma> = binding_holds R m' t' (bs ! idx) \<sigma>"
      and "\<And>ab. bs ! idx \<noteq> Attribute ab"
    then have "delta_change R bs idx \<rho> s = 0" by (simp add: delta_change_def split: binding.split)
    moreover have "A s \<rho> idx = B s \<rho> idx" using same[of False s \<rho> True s] by (simp add: A_def B_def)
    ultimately show ?thesis by simp
  qed
qed

lemma changes_telescope:
  assumes ready: "query_ready imports dm R bs" and attr: "Attribute ab \<in> set bs"
    and S: "finite S" "query_times R bs \<subseteq> S"
  shows "(\<Sum>idx < length bs. \<Sum>s \<in> {s \<in> S. s \<le> t}. delta_change R bs idx \<rho> s) = of_bool (all_hold R False t bs \<rho>)"
proof -
  have wf: "\<forall>bd \<in> set bs. wf_binding bd" using ready by (simp add: query_ready_def)
  have sub: "upd_times (R (source_attribute ab)) \<subseteq> S" if "Attribute ab \<in> set bs" for ab
    using S(2) that by (auto simp: query_times_def)
  let ?f = "\<lambda>m s. of_bool (all_hold R m s bs \<rho>) :: int"
  have all: "all_hold R m s bs \<rho> \<longleftrightarrow> (\<forall>j < length bs. binding_holds R m s (bs ! j) \<rho>)" for m s
    by (simp add: all_hold_def all_set_conv_all_nth)
  have "(\<Sum>idx < length bs. \<Sum>s \<in> {s \<in> S. s \<le> t}. delta_change R bs idx \<rho> s) =
      (\<Sum>s \<in> {s \<in> S. s \<le> t}. \<Sum>idx < length bs. delta_change R bs idx \<rho> s)"
    by (rule sum.swap)
  also have "\<dots> = (\<Sum>s \<in> {s \<in> S. s \<le> t}. ?f False s - ?f True s)"
    unfolding all of_bool_all_prod telescope_product[symmetric]
    by (intro sum.cong refl delta_change_product[OF ready]) simp
  also have "\<dots> = ?f False t"
  proof (rule telescope_time[OF S(1)])
    fix t
    show "?f True t = (if \<exists>s \<in> S. s < t then ?f False (Max {s \<in> S. s < t}) else 0)"
    proof (cases "\<exists>s \<in> S. s < t")
      case True
      then obtain s0 where "s0 \<in> S" "s0 < t" by blast
      from holds_at_last(1)[OF _ S(1) _ this] wf sub have "all_hold R True t bs \<rho> = all_hold R False (Max {s \<in> S. s < t}) bs \<rho>"
        unfolding all_hold_def by blast
      with True show ?thesis by simp
    next
      case False
      with none_before(1)[where R = R, OF attr S(1) sub[OF attr], of t] show ?thesis by simp
    qed
    show "?f False t = (if \<exists>s \<in> S. s \<le> t then ?f False (Max {s \<in> S. s \<le> t}) else 0)"
    proof (cases "\<exists>s \<in> S. s \<le> t")
      case True
      then obtain s0 where "s0 \<in> S" "s0 \<le> t" by blast
      from holds_at_last(2)[OF _ S(1) _ this] wf sub have "all_hold R False t bs \<rho> = all_hold R False (Max {s \<in> S. s \<le> t}) bs \<rho>"
        unfolding all_hold_def by blast
      with True show ?thesis by simp
    next
      case False
      with none_before(2)[where R = R, OF attr S(1) sub[OF attr], of t] show ?thesis by simp
    qed
  qed
  finally show ?thesis .
qed

section \<open>All pipelines\<close>

lemma project_sum_superset:
  assumes "finite F" and "{\<rho> \<in> valuations V. m \<rho> \<noteq> 0} \<subseteq> F" and "F \<subseteq> valuations V"
  shows "project_sum V vs m \<sigma> = (\<Sum>\<rho> \<in> {\<rho> \<in> F. \<forall>x \<in> set vs. \<rho> x = \<sigma> x}. m \<rho>)"
  unfolding project_sum_def using assms by (intro sum.mono_neutral_left) auto

lemma project_sum_add:
  assumes "finite {\<rho> \<in> valuations V. m \<rho> \<noteq> 0}" and "finite {\<rho> \<in> valuations V. m' \<rho> \<noteq> 0}"
  shows "project_sum V vs m \<sigma> + project_sum V vs m' \<sigma> = project_sum V vs (\<lambda>\<rho>. m \<rho> + m' \<rho>) \<sigma>"
    and "finite {\<rho> \<in> valuations V. m \<rho> + m' \<rho> \<noteq> 0}"
proof -
  let ?F = "{\<rho> \<in> valuations V. m \<rho> \<noteq> 0} \<union> {\<rho> \<in> valuations V. m' \<rho> \<noteq> 0}"
  have F: "finite ?F" "?F \<subseteq> valuations V" using assms by auto
  show "project_sum V vs m \<sigma> + project_sum V vs m' \<sigma> = project_sum V vs (\<lambda>\<rho>. m \<rho> + m' \<rho>) \<sigma>"
  proof -
    have "{\<rho> \<in> valuations V. m \<rho> \<noteq> 0} \<subseteq> ?F" "{\<rho> \<in> valuations V. m' \<rho> \<noteq> 0} \<subseteq> ?F"
      "{\<rho> \<in> valuations V. m \<rho> + m' \<rho> \<noteq> 0} \<subseteq> ?F" by auto
    then show ?thesis using project_sum_superset[OF F(1) _ F(2)] by (simp only: sum.distrib)
  qed
  show "finite {\<rho> \<in> valuations V. m \<rho> + m' \<rho> \<noteq> 0}" by (rule finite_subset[OF _ F(1)]) auto
qed

lemma project_sum_zero [simp]: "project_sum V vs (\<lambda>\<rho>. 0) \<sigma> = 0"
  by (simp add: project_sum_def)

text \<open>A query that can run: its indices are in place and every attribute can drive its pipeline.\<close>

definition runnable ::
  "'t::linorder index_imports \<Rightarrow> ('t, 'r, 'pr) dom \<Rightarrow> (aid \<Rightarrow> (df_value \<times> df_value, 't) collection) \<Rightarrow>
   aid binding list \<Rightarrow> bool" where
  "runnable imports dm R bs \<longleftrightarrow> query_ready imports dm R bs \<and> (\<exists>ab. Attribute ab \<in> set bs) \<and>
     (\<forall>idx < length bs. \<forall>ab. bs ! idx = Attribute ab \<longrightarrow> resolvable idx bs \<and> well_planned idx bs)"

lemma delta_pipelines_exact:
  assumes run: "runnable imports dm R bs" and vs: "set vs \<subseteq> set (all_variables bs)" and ok: "caches_ok imports dm caches"
    and sub: "set jbs \<subseteq> set (enumerated bs)" and S: "finite S" "query_times R bs \<subseteq> S"
  shows "\<exists>cs caches'. delta_pipelines (total_ops b) imports dm vs bs jbs caches = Some (Inr (cs, caches')) \<and>
    caches_ok imports dm caches' \<and> wf_tuples vs (leave_alt (concat cs)) \<and>
    (\<forall>t. finite {\<rho> \<in> valuations (set (all_variables bs)).
       (\<Sum>(idx, _) \<leftarrow> jbs. \<Sum>s \<in> {s \<in> S. s \<le> t}. delta_change R bs idx \<rho> s) \<noteq> 0}) \<and>
    (\<forall>\<sigma> t r. total_at (nested_ops (total_ops b)) (leave_alt (concat cs)) (map \<sigma> vs) (t, r) =
       project_sum (set (all_variables bs)) vs
         (\<lambda>\<rho>. \<Sum>(idx, _) \<leftarrow> jbs. \<Sum>s \<in> {s \<in> S. s \<le> t}. delta_change R bs idx \<rho> s) \<sigma>)"
  using sub ok
proof (induction jbs arbitrary: caches)
  case Nil
  then show ?case by (simp add: leave_alt_def coll_map_times_def wf_tuples_def)
next
  case (Cons jb jbs)
  obtain idx bd where jb: "jb = (idx, bd)" by fastforce
  have idx: "idx < length bs" "bs ! idx = bd" using Cons.prems(1) by (auto simp: jb enumerated_def in_set_enumerate_eq)
  let ?d = "\<lambda>t \<rho>. \<Sum>s \<in> {s \<in> S. s \<le> t}. delta_change R bs idx \<rho> s" and ?V = "set (all_variables bs)"
  let ?rest = "\<lambda>t \<rho>. \<Sum>(idx, _) \<leftarrow> jbs. \<Sum>s \<in> {s \<in> S. s \<le> t}. delta_change R bs idx \<rho> s"
  note IH = Cons.IH[OF order.trans[OF set_subset_Cons Cons.prems(1)]]
  show ?case
  proof (cases "\<exists>ab. bd = Attribute ab")
    case True
    then obtain ab where ab: "bd = Attribute ab" by blast
    then have "Attribute ab \<in> set bs" using idx nth_mem by metis
    then have times: "upd_times (R (source_attribute ab)) \<subseteq> S" using S(2) by (auto simp: query_times_def)
    have "query_ready imports dm R bs" "resolvable idx bs" "well_planned idx bs" using run idx ab by (auto simp: runnable_def)
    from delta_pipeline_exact[OF this(1) Cons.prems(2) idx(1) idx(2)[unfolded ab] this(2,3) vs S(1) times, of b]
    obtain c caches1 where c: "delta_pipeline (total_ops b) imports dm vs bs idx ab caches = Some (Inr (c, caches1))"
      "caches_ok imports dm caches1" "\<forall>u \<in> set c. length (fst u) = length vs"
      "\<And>t. finite {\<rho> \<in> valuations ?V. ?d t \<rho> \<noteq> 0}"
      "\<And>\<sigma> t r. total_at (nested_ops (total_ops b)) (leave_alt c) (map \<sigma> vs) (t, r) = project_sum ?V vs (?d t) \<sigma>" by blast
    from IH[OF c(2)] obtain cs caches' where
      cs: "delta_pipelines (total_ops b) imports dm vs bs jbs caches1 = Some (Inr (cs, caches'))" "caches_ok imports dm caches'"
      "wf_tuples vs (leave_alt (concat cs))" "\<And>t. finite {\<rho> \<in> valuations ?V. ?rest t \<rho> \<noteq> 0}"
      "\<And>\<sigma> t r. total_at (nested_ops (total_ops b)) (leave_alt (concat cs)) (map \<sigma> vs) (t, r) = project_sum ?V vs (?rest t) \<sigma>"
      by blast
    have "wf_tuples vs (leave_alt (concat (c # cs)))"
      using c(3) cs(3) unfolding wf_tuples_leave by auto
    moreover have "total_at (nested_ops (total_ops b)) (leave_alt (concat (c # cs))) (map \<sigma> vs) (t, r) =
        project_sum ?V vs (\<lambda>\<rho>. ?d t \<rho> + ?rest t \<rho>) \<sigma>" for \<sigma> t r
    proof -
      have "leave_alt (concat (c # cs)) = leave_alt c @ leave_alt (concat cs)" by (simp add: leave_alt_def coll_map_times_def)
      then show ?thesis unfolding project_sum_add(1)[OF c(4) cs(4), symmetric] by (simp only: total_append c(5) cs(5))
    qed
    moreover note project_sum_add(2)[OF c(4) cs(4)]
    ultimately show ?thesis using c(1) cs(1,2) by (simp add: jb ab)
  next
    case False
    then have "?d t \<rho> = 0" for t \<rho> using idx(2) by (cases bd) (simp_all add: delta_change_def)
    moreover from False have "delta_pipelines (total_ops b) imports dm vs bs (jb # jbs) caches =
        delta_pipelines (total_ops b) imports dm vs bs jbs caches" by (cases bd) (auto simp: jb)
    ultimately show ?thesis using IH[OF Cons.prems(2)] by (simp add: jb)
  qed
qed

lemma sum_enumerated: "(\<Sum>(idx, _) \<leftarrow> enumerated bs. F idx) = (\<Sum>idx < length bs. F idx)"
proof -
  have "map (\<lambda>(idx, _). F idx) (enumerated bs) = map F [0..<length bs]"
    unfolding enumerated_def by (rule nth_equalityI) (simp_all add: nth_enumerate_eq)
  then show ?thesis by (simp add: interv_sum_list_conv_sum_set_nat atLeast0LessThan)
qed

lemma hector_denotes:
  assumes run: "runnable imports dm R bs" and len: "2 \<le> length bs" and vs: "vs \<noteq> []" "distinct vs" "set vs \<subseteq> set (all_variables bs)"
  shows "\<exists>c h. hector_implement (total_ops b) imports dm vs bs = Some (Inr (collection_of vs c, h)) \<and>
    denotes (total_ops b) imp dm (collection_of vs c)
      (\<lambda>t. project_sum (set (all_variables bs)) vs (\<lambda>\<rho>. of_bool (all_hold R False (fst t) bs \<rho>)))"
proof -
  let ?V = "set (all_variables bs)" and ?S = "query_times R bs"
  from run obtain ab where ready: "query_ready imports dm R bs" and attr: "Attribute ab \<in> set bs" by (auto simp: runnable_def)
  from delta_pipelines_exact[OF run vs(3) no_caches_ok order_refl finite_query_times order_refl, of b] obtain cs caches where
    cs: "delta_pipelines (total_ops b) imports dm vs bs (enumerated bs) no_caches = Some (Inr (cs, caches))"
    "wf_tuples vs (leave_alt (concat cs))"
    "\<And>\<sigma> t r. total_at (nested_ops (total_ops b)) (leave_alt (concat cs)) (map \<sigma> vs) (t, r) =
       project_sum ?V vs (\<lambda>\<rho>. \<Sum>(idx, _) \<leftarrow> enumerated bs. \<Sum>s \<in> {s \<in> ?S. s \<le> t}. delta_change R bs idx \<rho> s) \<sigma>" by blast
  have "total_at (nested_ops (total_ops b)) (leave_alt (concat cs)) (map \<sigma> vs) t =
      project_sum ?V vs (\<lambda>\<rho>. of_bool (all_hold R False (fst t) bs \<rho>)) \<sigma>" for \<sigma> t
    using cs(3)[of \<sigma> "fst t" "snd t"] unfolding sum_enumerated changes_telescope[OF ready attr finite_query_times order_refl] by simp
  with cs(1,2) vs(1,2) len show ?thesis by (auto simp: hector_implement_def denotes_collection)
qed

lemma project_sum_count:
  "project_sum V vs (\<lambda>\<rho>. of_bool (P \<rho>)) \<sigma> = int (card {\<rho> \<in> valuations V. (\<forall>x \<in> set vs. \<rho> x = \<sigma> x) \<and> P \<rho>})"
proof -
  have "{\<rho> \<in> valuations V. (\<forall>x \<in> set vs. \<rho> x = \<sigma> x) \<and> of_bool (P \<rho>) \<noteq> (0 :: int)} =
      {\<rho> \<in> valuations V. (\<forall>x \<in> set vs. \<rho> x = \<sigma> x) \<and> P \<rho>}" by auto
  then show ?thesis unfolding project_sum_def by (simp add: sum.If_cases)
qed

end
