(* ===== verification/Hector_Join.thy ===== *)
theory Hector_Join
  imports Hector_Semantics
begin

text \<open>
  The properties of \<^verbatim>\<open>Hector::implement\<close>: the theorem that it computes the join of its bindings, which queries
  over attributes and constants it can run, and the queries on which it loses tuples or panics.
\<close>

section \<open>Queries that can run\<close>

text \<open>When every binding that connects variables is an attribute, connected queries have a good order.\<close>

lemma connected_well_planned:
  assumes "idx < length bs" and "bs ! idx = Attribute (AttributeBinding (e, v) a)" and "e \<noteq> v"
    and "connected idx bs [e, v]" and "\<forall>bd \<in> set bs. proposing bd \<and> wf_binding bd"
  shows "well_planned idx bs"
proof -
  obtain order ord where loop: "plan_loop idx bs [e, v] (concat (map (candidates_for idx bs) [e, v])) [] = Some (order, ord)"
    and complete: "complete_order idx bs [e, v] order ord"
    using plan_loop_returns[OF assms(4) plan_inv_init[OF assms(1-3)]] by blast
  then have plan: "plan_order idx bs = Some (Inr (order, ord))" using assms(1,2) by (simp add: plan_order_def vec_index_def)
  have start: "take 2 order = [e, v]" using complete by (simp add: complete_order_def numeral_2_eq_2)
  have "proposable idx bs ({e, v} \<union> set (take k order)) (order ! k)"
    if k: "k < length order" "order ! k \<notin> {e, v}" for k
  proof -
    have "2 \<le> k"
    proof (rule ccontr)
      assume "\<not> 2 \<le> k"
      then have "order ! k = [e, v] ! k" using k(1) start by (metis nth_take not_le)
      moreover from \<open>\<not> 2 \<le> k\<close> have "k = 0 \<or> k = 1" by linarith
      ultimately show False using k(2) by auto
    qed
    with complete k(1) obtain bd where bd: "bd \<in> others idx bs" "ready_to_extend bd (vec_binds (take k order)) = Some (order ! k)"
      by (auto simp: complete_order_def numeral_2_eq_2)
    from bd(1) obtain j where j: "j < length bs" "j \<noteq> idx" "bs ! j = bd" by (auto simp: others_def)
    then have "wf_binding bd" "proposing bd" using assms(5) by auto
    moreover have "can_extend bd (vec_binds (take k order)) (order ! k)" using bd(2) by (simp add: can_extend_def)
    ultimately show ?thesis using j can_extend_iff[of bd "take k order" "order ! k"]
      unfolding proposable_def by blast
  qed
  moreover have "set order = set (all_variables bs)" using complete by (simp add: complete_order_def)
  ultimately show ?thesis using assms(2) by (simp add: well_planned_def plan)
qed

section \<open>A single binding\<close>

lemma pair_index_value:
  assumes "e \<noteq> v" and "x \<in> {e, v}"
  shows "run_bind (expect m (vec_binds [e, v] x)) (pair_index (p, q)) = Inr (value_of [e, v] [p, q] x)"
  using assms by (auto simp: vec_binds_def expect_def value_of_def)

lemma single_binding_denotes:
  assumes "forward_propose_of a dm = Some tr" and "indexes (import_proposes imports tr) c"
    and ev: "e \<noteq> v" and vs: "vs \<noteq> []" "distinct vs" "set vs \<subseteq> {e, v}"
  shows "\<exists>rel h. hector_implement (total_ops b) imports dm vs [Attribute (AttributeBinding (e, v) a)] =
      Some (Inr (collection_of vs rel, h)) \<and>
    denotes (total_ops b) imp dm (collection_of vs rel) (\<lambda>t. project_sum {e, v} vs (\<lambda>\<rho>. seen False c (\<rho> e, \<rho> v) (fst t)))"
proof -
  let ?st = "import_proposes imports tr"
  let ?rows = "coll_map (\<lambda>(x, y). [x, y]) (enter (as_collection ?st))"
  let ?out = "coll_map (\<lambda>tup. map (value_of [e, v] tup) vs) ?rows"
  have "coll_map_run (\<lambda>tup. run_map (\<lambda>x. run_bind (expect ''called `Option::unwrap()` on a `None` value'' (vec_binds [e, v] x))
      (pair_index tup)) vs) (enter (as_collection ?st)) =
      Inr (coll_map (\<lambda>(x, y). map (value_of [e, v] [x, y]) vs) (enter (as_collection ?st)))"
    using vs(3) pair_index_value[OF ev] by (intro coll_map_run_total) (auto intro!: run_map_total)
  moreover have "coll_map (\<lambda>(x, y). map (value_of [e, v] [x, y]) vs) (enter (as_collection ?st)) = ?out"
    by (simp add: coll_map_coll_map comp_def case_prod_unfold)
  ultimately have run: "hector_implement (total_ops b) imports dm vs [Attribute (AttributeBinding (e, v) a)] =
      Some (Inr (collection_of vs ?out, from_button (Propose a)))"
    using vs(1) assms(1) by (simp add: hector_implement_def implement_single_binding_def)
  have inj: "inj (\<lambda>(x, y). [x, y :: df_value])" by (auto simp: inj_def)
  have "total_at (nested_ops (total_ops b)) ?rows (map \<rho> [e, v]) (t, r) = seen False c (\<rho> e, \<rho> v) t" for \<rho> t r
  proof -
    have "total_at (nested_ops (total_ops b)) ?rows [\<rho> e, \<rho> v] (t, r) = total_at (total_ops b) (as_collection ?st) (\<rho> e, \<rho> v) t"
      using total_map_inj[OF inj_on_subset[OF inj subset_UNIV], of "nested_ops (total_ops b)" "enter (as_collection ?st)" "(\<rho> e, \<rho> v)" "(t, r)"]
      by simp
    also have "\<dots> = seen False (as_collection ?st) (\<rho> e, \<rho> v) t" by (rule seen_total[symmetric])
    also have "\<dots> = seen False c (\<rho> e, \<rho> v) t" using assms(2) unfolding indexes_def by (intro seen_cong) blast
    finally show ?thesis by simp
  qed
  moreover have "wf_tuples [e, v] ?rows" by (auto simp: wf_tuples_records)
  ultimately have "total_at (nested_ops (total_ops b)) ?out (map \<sigma> vs) t =
      project_sum {e, v} vs (\<lambda>\<rho>. seen False c (\<rho> e, \<rho> v) (fst t)) \<sigma>" for \<sigma> t
    using total_projected[of "[e, v]" ?rows vs "nested_ops (total_ops b)" \<sigma> t] ev vs(3) by (cases t) simp
  then have "denotes (total_ops b) imp dm (collection_of vs ?out) (\<lambda>t. project_sum {e, v} vs (\<lambda>\<rho>. seen False c (\<rho> e, \<rho> v) (fst t)))"
    unfolding denotes_collection using vs(2) wf_tuples_projected by blast
  with run show ?thesis by blast
qed

section \<open>Indices that satisfy the laws\<close>

text \<open>A concrete import, which groups the updates of a trace by key and value.\<close>

definition ref_storage :: "('k \<times> 'v, 't) collection \<Rightarrow> ('k, 'v, 't) storage" where
  "ref_storage c =
     map (\<lambda>k. (k, map (\<lambda>v. (v, map snd (filter (\<lambda>u. fst u = (k, v)) c)))
       (remdups (map (snd \<circ> fst) (filter (\<lambda>u. fst (fst u) = k) c))))) (remdups (map (fst \<circ> fst) c))"

definition ref_imports :: "'t index_imports" where
  "ref_imports = \<lparr> import_counts = (\<lambda>tr. ref_storage (contents tr)), import_proposes = (\<lambda>tr. ref_storage (contents tr)),
     import_validates = (\<lambda>tr. ref_storage (contents tr)) \<rparr>"

lemma acc_times: "acc c x t = (\<Sum>(s, d) \<leftarrow> map snd (filter (\<lambda>u. fst u = x) c). if s = t then d else 0)"
  by (induction c) auto

lemma acc_group:
  "acc (concat (map (\<lambda>(v, ts). map (\<lambda>(t, d). ((k, v), t, d)) ts) vs)) (k', v) t =
     (if k' = k then (\<Sum>(w, ts) \<leftarrow> vs. if w = v then (\<Sum>(s, d) \<leftarrow> ts. if s = t then d else 0) else 0) else 0)"
proof (induction vs)
  case Nil
  then show ?case by simp
next
  case (Cons e vs)
  obtain w ts where e: "e = (w, ts)" by fastforce
  have "acc (map (\<lambda>(t, d). ((k, w), t, d)) ts) (k', v) t =
      (if k' = k \<and> w = v then (\<Sum>(s, d) \<leftarrow> ts. if s = t then d else 0) else 0)"
    by (induction ts) auto
  with Cons show ?case by (auto simp: e)
qed

lemma sum_list_delta: "distinct xs \<Longrightarrow> (\<Sum>x \<leftarrow> xs. if x = y then f x else (0 :: int)) = (if y \<in> set xs then f y else 0)"
  by (induction xs) auto

lemma acc_ref_storage: "acc (as_collection (ref_storage c)) (k, v) t = acc c (k, v) t"
proof -
  define vals where "vals k = remdups (map (snd \<circ> fst) (filter (\<lambda>u. fst (fst u) = k) c))" for k
  define entry where "entry k = map (\<lambda>v. (v, map snd (filter (\<lambda>u. fst u = (k, v)) c))) (vals k)" for k
  let ?n = "\<lambda>k v. \<Sum>(s, d) \<leftarrow> map snd (filter (\<lambda>u. fst u = (k, v)) c). if s = t then d else 0"
  let ?flat = "\<lambda>k. concat (map (\<lambda>(v, ts). map (\<lambda>(t, d). ((k, v), t, d)) ts) (entry k))"
  have "(\<Sum>(w, ts) \<leftarrow> entry k. if w = v then (\<Sum>(s, d) \<leftarrow> ts. if s = t then d else 0) else 0) =
      (if v \<in> set (vals k) then ?n k v else 0)" for k
    using sum_list_delta[OF distinct_remdups, where f = "?n k" and y = v] by (simp add: entry_def vals_def comp_def)
  then have flat: "acc (?flat k') (k, v) t = (if k' = k then (if v \<in> set (vals k) then ?n k v else 0) else 0)" for k'
    unfolding acc_group by auto
  have "as_collection (ref_storage c) = concat (map ?flat (remdups (map (fst \<circ> fst) c)))"
    by (simp only: as_collection_def ref_storage_def entry_def vals_def map_map comp_def prod.case)
  then have "acc (as_collection (ref_storage c)) (k, v) t =
      (\<Sum>k' \<leftarrow> remdups (map (fst \<circ> fst) c). if k' = k then (if v \<in> set (vals k) then ?n k v else 0) else 0)"
    by (simp only: acc_concat[of "map ?flat _"] map_map comp_def flat)
  also have "\<dots> = (if k \<in> (fst \<circ> fst) ` set c \<and> v \<in> set (vals k) then ?n k v else 0)"
    using sum_list_delta[OF distinct_remdups, where f = "\<lambda>_. if v \<in> set (vals k) then ?n k v else 0" and y = k] by simp
  also have "\<dots> = acc c (k, v) t"
  proof (cases "(k, v) \<in> fst ` set c")
    case True
    then have "k \<in> (fst \<circ> fst) ` set c" "v \<in> set (vals k)" by (force simp: vals_def)+
    then show ?thesis by (simp add: acc_times)
  next
    case False
    then have "filter (\<lambda>u. fst u = (k, v)) c = []" by (force simp: filter_empty_conv)
    then show ?thesis by (simp add: acc_times)
  qed
  finally show ?thesis .
qed

lemma ref_storage_indexes: "indexes (ref_storage c) c"
proof -
  have "vs \<noteq> [] \<and> distinct (map fst vs)" if "(k, vs) \<in> set (ref_storage c)" for k vs
  proof -
    from that obtain u where "u \<in> set c" "fst (fst u) = k" by (force simp: ref_storage_def)
    with that show ?thesis by (auto simp: ref_storage_def comp_def filter_empty_conv)
  qed
  moreover have "distinct (map fst (ref_storage c))" by (simp add: ref_storage_def comp_def)
  moreover have "acc (as_collection (ref_storage c)) x t = acc c x t" for x t using acc_ref_storage by (cases x) simp
  ultimately show ?thesis unfolding indexes_def by blast
qed

definition full_domain ::
  "'t time_ops \<Rightarrow> (aid, (df_value \<times> df_value, 't) collection) hash_map \<Rightarrow> ('t, unit, unit) dom" where
  "full_domain T cs = (domain_new T () (tminimum (lat T))) \<lparr>
     forward_count := map (\<lambda>(a, c). (a, arrange T (coll_map (\<lambda>(e, v). (e, ())) c))) cs,
     forward_propose := map (\<lambda>(a, c). (a, arrange T c)) cs,
     forward_validate := map (\<lambda>(a, c). (a, arrange T (coll_map (\<lambda>p. (p, ())) c))) cs,
     reverse_count := map (\<lambda>(a, c). (a, arrange T (coll_map (\<lambda>(e, v). (v, ())) c))) cs,
     reverse_propose := map (\<lambda>(a, c). (a, arrange T (coll_map (\<lambda>(e, v). (v, e)) c))) cs,
     reverse_validate := map (\<lambda>(a, c). (a, arrange T (coll_map (\<lambda>(e, v). ((v, e), ())) c))) cs \<rparr>"

lemma full_domain_indexed: "map_of cs a = Some c \<Longrightarrow> attribute_indexed ref_imports (full_domain T cs) a c"
  by (simp add: attribute_indexed_def full_domain_def forward_count_of_def forward_propose_of_def forward_validate_of_def
      reverse_count_of_def reverse_propose_of_def reverse_validate_of_def map_of_map arrange_def ref_imports_def
      ref_storage_indexes)

section \<open>Properties\<close>

text \<open>The number of solutions of a query that agree with a valuation on the requested variables.\<close>

definition solutions ::
  "(aid \<Rightarrow> (df_value \<times> df_value, 't::linorder) collection) \<Rightarrow> 't \<Rightarrow> aid binding list \<Rightarrow> var list \<Rightarrow> valuation \<Rightarrow> valuation set" where
  "solutions R t bs vs \<sigma> = {\<rho> \<in> valuations (set (all_variables bs)). (\<forall>x \<in> set vs. \<rho> x = \<sigma> x) \<and> all_hold R False t bs \<rho>}"


lemma solutions_full:
  assumes "set vs = set (all_variables bs)"
  shows "int (card (solutions R t bs vs \<sigma>)) = of_bool (all_hold R False t bs \<sigma>)"
proof -
  have "all_hold R False t bs \<rho> = all_hold R False t bs \<sigma>" if "\<forall>x \<in> set (all_variables bs). \<rho> x = \<sigma> x" for \<rho>
  proof -
    have "binding_holds R False t bd \<rho> = binding_holds R False t bd \<sigma>" if "bd \<in> set bs" for bd
      using \<open>\<forall>x \<in> set (all_variables bs). \<rho> x = \<sigma> x\<close> that by (intro binding_holds_local) (auto simp: set_all_variables)
    then show ?thesis by (simp add: all_hold_def)
  qed
  then have "project_sum (set (all_variables bs)) vs (\<lambda>\<rho>. of_bool (all_hold R False t bs \<rho>)) \<sigma> = of_bool (all_hold R False t bs \<sigma>)"
    by (intro project_sum_all[OF assms]) (simp only:)
  then show ?thesis unfolding project_sum_count solutions_def .
qed

definition triangle_data :: "(aid, (df_value \<times> df_value, u64) collection) hash_map" where
  "triangle_data = [(''x'', [((Eid 1, Eid 2), 0, 1)]), (''y'', [((Eid 2, Eid 3), 1, 1)]), (''z'', [((Eid 1, Eid 3), 2, 1)])]"

definition triangle_relation :: "aid \<Rightarrow> (df_value \<times> df_value, u64) collection" where
  "triangle_relation a = (case map_of triangle_data a of None \<Rightarrow> [] | Some c \<Rightarrow> c)"

lemma triangle_orders:
  "map_option (map_sum id fst) (plan_order 0 triangle) = Some (Inr [0, 1, 2])"
  "map_option (map_sum id fst) (plan_order 1 triangle) = Some (Inr [1, 2, 0])"
  "map_option (map_sum id fst) (plan_order 2 triangle) = Some (Inr [0, 2, 1])"
  by code_simp+

lemma triangle_variables: "set (all_variables triangle) = {0, 1, 2}"
  by (auto simp: set_all_variables triangle_def binding_attribute_def)

lemma triangle_proposable: "proposable 0 triangle {0, 1} 2" "proposable 1 triangle {1, 2} 0" "proposable 2 triangle {0, 2} 1"
  unfolding proposable_def by (rule exI[of _ 1] exI[of _ 0], simp add: triangle_def binding_attribute_def)+

lemma well_planned_triple:
  assumes "map_option (map_sum id fst) (plan_order idx bs) = Some (Inr [x, y, z])" and "set (all_variables bs) = {x, y, z}"
    and "set (variables (bs ! idx)) = {x, y}" and "proposable idx bs {x, y} z"
  shows "well_planned idx bs"
proof -
  from assms(1) obtain ord where ord: "plan_order idx bs = Some (Inr ([x, y, z], ord))"
    by (cases "plan_order idx bs"; cases "projr (the (plan_order idx bs))"; cases "the (plan_order idx bs)") auto
  have "proposable idx bs ({x, y} \<union> set (take k [x, y, z])) ([x, y, z] ! k)"
    if "k < 3" "[x, y, z] ! k \<notin> {x, y} \<union> set (take k [x, y, z])" for k
  proof -
    from that(1) have "k = 0 \<or> k = 1 \<or> k = 2" by linarith
    with that(2) have k: "k = 2" by auto
    have "{x, y} \<union> set (take 2 [x, y, z]) = {x, y}" by auto
    with assms(4) show ?thesis by (simp only: k) simp
  qed
  with assms(2,3) show ?thesis by (simp add: well_planned_def ord)
qed

lemma triangle_planned: "well_planned 0 triangle" "well_planned 1 triangle" "well_planned 2 triangle"
proof -
  have "set (variables (triangle ! 0)) = {0, 1}" "set (variables (triangle ! 1)) = {1, 2}" "set (variables (triangle ! 2)) = {0, 2}"
    by (simp_all add: triangle_def binding_attribute_def)
  note vars = this
  show "well_planned 0 triangle" by (rule well_planned_triple[OF triangle_orders(1) _ vars(1) triangle_proposable(1)]) (simp add: triangle_variables)
  show "well_planned 1 triangle" by (rule well_planned_triple[OF triangle_orders(2) _ vars(2) triangle_proposable(2)]) (auto simp: triangle_variables)
  show "well_planned 2 triangle" by (rule well_planned_triple[OF triangle_orders(3) _ vars(3) triangle_proposable(3)]) (auto simp: triangle_variables)
qed

lemma triangle_conflicts: "source_conflicts 0 triangle = Inr []" "source_conflicts 1 triangle = Inr []" "source_conflicts 2 triangle = Inr []"
  by code_simp+

lemma triangle_runnable: "runnable ref_imports (full_domain u64_time triangle_data) triangle_relation triangle"
proof -
  have attr: "source_attribute ab \<in> {''x'', ''y'', ''z''}" if "Attribute ab \<in> set triangle" for ab
    using that by (auto simp: triangle_def binding_attribute_def)
  have "attribute_indexed ref_imports (full_domain u64_time triangle_data) a (triangle_relation a) \<and> set_valued (triangle_relation a)"
    if "a \<in> {''x'', ''y'', ''z''}" for a
    using that full_domain_indexed[of triangle_data a _ u64_time]
    by (auto simp: triangle_relation_def triangle_data_def set_valued_def visible_def)
  then have "query_ready ref_imports (full_domain u64_time triangle_data) triangle_relation triangle"
    using attr unfolding query_ready_def by (auto simp: triangle_def binding_attribute_def)
  moreover have "resolvable idx triangle \<and> well_planned idx triangle" if "idx < length triangle" for idx
  proof -
    from that have "idx = 0 \<or> idx = 1 \<or> idx = 2" by (auto simp: triangle_def)
    then show ?thesis using triangle_planned triangle_conflicts by (auto simp: resolvable_def)
  qed
  moreover have "Attribute (AttributeBinding (0, 1) ''x'') \<in> set triangle" by (simp add: triangle_def binding_attribute_def)
  ultimately show ?thesis unfolding runnable_def by blast
qed


section \<open>Queries that go wrong\<close>

definition path :: "aid binding list" where
  "path = [binding_attribute 0 ''r'' 1, binding_attribute 1 ''s'' 2]"

definition path_data :: "(aid, (df_value \<times> df_value, (duration, u64) pair) collection) hash_map" where
  "path_data = [(''r'', [((Eid 1, Eid 2), Pair (Duration 0 0) 1, 1)]), (''s'', [((Eid 2, Eid 3), Pair (Duration 1 0) 0, 1)])]"


definition bridge :: "aid binding list" where
  "bridge = [binding_attribute 0 ''r'' 1, binding_binary_predicate LT 1 2, binding_attribute 0 ''s'' 3,
     binding_attribute 3 ''t'' 4, binding_attribute 4 ''u'' 2]"

definition bridge_data :: "(aid, (df_value \<times> df_value, u64) collection) hash_map" where
  "bridge_data = [(''r'', [((Eid 1, Eid 2), 1, 1)]), (''s'', [((Eid 1, Eid 3), 0, 1)]), (''t'', [((Eid 3, Eid 4), 0, 1)]),
     (''u'', [((Eid 4, Eid 1), 0, 1)])]"

lemma extend_targets_panic:
  "extend_targets N imports dm bs idx xs st = Inl msg \<Longrightarrow> extend_targets N imports dm bs idx (xs @ ys) st = Inl msg"
proof (induction xs arbitrary: st)
  case (Cons x xs)
  then show ?case by (cases st) (auto simp: run_simps split: if_splits)
qed simp

lemma pipeline_panic:
  assumes "map_option (map_sum id fst) (plan_order idx bs) = Some (Inr (xs @ ys))"
    and "run_bind (delta_source imports dm bs idx ab caches) (extend_targets (altneu_ops (nested_ops L)) imports dm bs idx xs) = Inl msg"
  shows "delta_pipeline L imports dm vs bs idx ab caches = Some (Inl msg)"
proof -
  from assms(1) obtain ord where "plan_order idx bs = Some (Inr (xs @ ys, ord))"
    by (cases "plan_order idx bs"; cases "projr (the (plan_order idx bs))"; cases "the (plan_order idx bs)") auto
  with assms(2) show ?thesis
    by (cases "delta_source imports dm bs idx ab caches") (auto simp: delta_pipeline_def extend_targets_panic)
qed

lemma bridge_order: "map_option (map_sum id fst) (plan_order 0 bridge) = Some (Inr ([0, 1, 3, 2] @ [4]))"
  by code_simp

lemma bridge_extension:
  "run_bind (delta_source ref_imports (full_domain u64_time bridge_data) bridge 0 (AttributeBinding (0, 1) ''r'') no_caches)
     (extend_targets (altneu_ops (nested_ops u64_ops)) ref_imports (full_domain u64_time bridge_data) bridge 0 [0, 1, 3, 2]) =
   Inl ''BinaryPredicateExtender should never be asked to propose.''"
  by code_simp

lemmas bridge_pipeline = pipeline_panic[OF bridge_order bridge_extension]

lemma hector_first_pipeline:
  assumes "bs = Attribute ab # bd # rest" and "vs \<noteq> []" and "delta_pipeline L imports dm vs bs 0 ab no_caches = Some (Inl msg)"
  shows "hector_implement L imports dm vs bs = Some (Inl msg)"
  using assms(2,3) by (simp add: hector_implement_def assms(1) enumerated_def)

lemma double_negation_panics:
  "hector_implement u64_ops ref_imports (full_domain u64_time bridge_data) [0, 1, 3]
     [binding_not (binding_not (binding_constant 3 (Eid 3))), binding_attribute 0 ''r'' 1, binding_attribute 0 ''s'' 3] =
     Some (Inl ''No internal extender available on stack.'')"
  by code_simp

text \<open>Two queries on which \<^verbatim>\<open>Hector\<close> panics although their attributes connect all variables. In the first the
  variable order reaches \<^verbatim>\<open>c\<close> through the predicate \<^verbatim>\<open>(LT b c)\<close> before any attribute can propose it; in the second
  a double negation looks for the extender of its inner negation on an empty stack.\<close>

theorem hector_extension_panics:
  "hector_implement u64_ops ref_imports (full_domain u64_time bridge_data) [0, 1, 2] bridge =
     Some (Inl ''BinaryPredicateExtender should never be asked to propose.'') \<and>
   hector_implement u64_ops ref_imports (full_domain u64_time bridge_data) [0, 1, 3]
     [binding_not (binding_not (binding_constant 3 (Eid 3))), binding_attribute 0 ''r'' 1, binding_attribute 0 ''s'' 3] =
     Some (Inl ''No internal extender available on stack.'')"
  by (intro conjI double_negation_panics hector_first_pipeline[OF _ _ bridge_pipeline])
     (simp_all add: bridge_def binding_attribute_def)

end
