(* ===== verification/Pulls.thy ===== *)
theory Pulls
  imports Plan_Semantics
begin

text \<open>
  Pull expressions, from \<^verbatim>\<open>src/src/plan/pull.rs\<close>: paths of entities are extended by the attributes of their
  last entity. Advancing a time by a compaction frontier (\<^verbatim>\<open>advance_by\<close>) belongs to differential dataflow
  and is a parameter.
\<close>

section \<open>Interleaving\<close>

fun interleave_loop ::
  "df_value list \<Rightarrow> aid list \<Rightarrow> nat list \<Rightarrow> usize \<Rightarrow> usize \<Rightarrow> df_value list \<Rightarrow> df_value list run" where
  "interleave_loop values constants [] next_value next_const result = Inr result"
| "interleave_loop values constants (i # is) next_value next_const result =
     (if i mod 2 = 0 then
        run_bind (vec_index values next_value)
          (\<lambda>v. interleave_loop values constants is (next_value + 1) next_const (result @ [v]))
      else
        run_bind (vec_index constants next_const)
          (\<lambda>a. interleave_loop values constants is next_value (next_const + 1) (result @ [into_value a])))"

definition interleave :: "df_value list \<Rightarrow> aid list \<Rightarrow> df_value list run" where
  "interleave values constants =
     (if values = [] \<or> constants = [] then Inr values
      else interleave_loop values constants [0..<length values + length constants] 0 0 [])"

section \<open>Pulling one level\<close>

definition pull_index ::
  "'t dataflow_ops \<Rightarrow> ('t \<Rightarrow> 't list \<Rightarrow> 't) \<Rightarrow> ('t, 'r, 'pr) dom \<Rightarrow> aid \<Rightarrow>
   ((df_value \<times> df_value, 't nested) collection \<times> button) run" where
  "pull_index ops advance_by dm a =
     (case forward_propose_of a dm of
        None \<Rightarrow> Inl ''attribute does not exist''
      | Some propose_trace \<Rightarrow>
          (let frontier = advanced propose_trace in
           Inr (map (\<lambda>(ev, time, d). (ev, (advance_by time frontier, 0), d)) (import_trace ops propose_trace),
                Propose a)))"

definition pull_path :: "aid list \<Rightarrow> bool \<Rightarrow> aid \<Rightarrow> tuple \<Rightarrow> df_value \<Rightarrow> tuple run" where
  "pull_path path_attributes cardinality_many attribute path v =
     run_bind (interleave path path_attributes) (\<lambda>result.
       if path_attributes = [] \<or> cardinality_many then Inr (result @ [into_value attribute, v])
       else if result = [] then Inl ''malformed path''
       else Inr (butlast result @ [into_value attribute, v]))"

definition db_id_path :: "aid list \<Rightarrow> tuple \<Rightarrow> tuple run" where
  "db_id_path path_attributes path =
     run_bind (interleave path path_attributes) (\<lambda>result.
       if result = [] then Inl ''malformed path''
       else Inr (butlast result @ [Aid ''db__id'', last result]))"

fun pull_streams ::
  "'t dataflow_ops \<Rightarrow> ('t \<Rightarrow> 't list \<Rightarrow> 't) \<Rightarrow> ('t, 'r, 'pr) dom \<Rightarrow> (df_value \<times> tuple, 't nested) collection \<Rightarrow>
   aid list \<Rightarrow> bool \<Rightarrow> aid list \<Rightarrow> handle \<Rightarrow> ('t tuples list \<times> handle) run" where
  "pull_streams ops advance_by dm e_path path_attributes cardinality_many [] shutdown_handle =
     Inr ([], shutdown_handle)"
| "pull_streams ops advance_by dm e_path path_attributes cardinality_many (a # attrs) shutdown_handle =
     run_bind (pull_index ops advance_by dm a) (\<lambda>(e_v, shutdown_propose).
     run_bind (coll_map_run (\<lambda>(_, path, v). pull_path path_attributes cardinality_many a path v)
         (join_paths ops e_path e_v)) (\<lambda>stream.
     run_bind (pull_streams ops advance_by dm e_path path_attributes cardinality_many attrs
         (add_button shutdown_handle shutdown_propose))
       (\<lambda>(streams, shutdown_handle'). Inr (stream # streams, shutdown_handle'))))"

definition pull_level_implement ::
  "'t dataflow_ops \<Rightarrow> ('t \<Rightarrow> 't list \<Rightarrow> 't) \<Rightarrow> ('t, 'r, 'pr) dom \<Rightarrow> var list \<Rightarrow> var \<Rightarrow> aid list \<Rightarrow> aid list \<Rightarrow> bool \<Rightarrow>
   't relation \<Rightarrow> 't relation run" where
  "pull_level_implement ops advance_by dm vs pull_variable pull_attributes path_attributes cardinality_many rel =
     (let (input, shutdown_handle) = rel in
      if pull_attributes = [] then
        if path_attributes = [] then Inr (input, shutdown_handle)
        else run_bind (impl_tuples (import_trace ops) dm input) (\<lambda>(tuples, shutdown).
             run_bind (coll_map_run (\<lambda>tup. interleave tup path_attributes) tuples) (\<lambda>tuples'.
               Inr (collection_of vs tuples', merge_with shutdown_handle shutdown)))
      else
        run_bind (expect ''input relation doesn't bind pull_variable'' (impl_binds input pull_variable)) (\<lambda>e_offset.
        run_bind (impl_tuples (import_trace ops) dm input) (\<lambda>(paths, shutdown).
        run_bind (coll_map_run (\<lambda>t. run_bind (vec_index t e_offset) (\<lambda>e. Inr (e, t))) paths) (\<lambda>e_path.
        run_bind (if path_attributes = [] \<or> cardinality_many then Inr []
                  else coll_map_run (db_id_path path_attributes) paths) (\<lambda>db_ids.
        run_bind (pull_streams ops advance_by dm e_path path_attributes cardinality_many pull_attributes
            (merge_with shutdown_handle shutdown)) (\<lambda>(streams, shutdown_handle').
          Inr (collection_of [] (concat streams @ db_ids), shutdown_handle')))))))"

section \<open>Pulling several paths\<close>

fun pull_paths ::
  "'t dataflow_ops \<Rightarrow> ('t, 'r, 'pr) dom \<Rightarrow> 't relation run list \<Rightarrow> handle \<Rightarrow> ('t tuples list \<times> handle) run" where
  "pull_paths ops dm [] shutdown_handle = Inr ([], shutdown_handle)"
| "pull_paths ops dm (path # paths) shutdown_handle =
     run_bind path (\<lambda>(relation, shutdown).
     run_bind (impl_tuples (import_trace ops) dm relation) (\<lambda>(tuples, shutdown').
     run_bind (pull_paths ops dm paths (merge_with (merge_with shutdown_handle shutdown) shutdown'))
       (\<lambda>(streams, shutdown_handle'). Inr (tuples # streams, shutdown_handle'))))"

definition pull_implement ::
  "'t dataflow_ops \<Rightarrow> ('t, 'r, 'pr) dom \<Rightarrow> var list \<Rightarrow> 't relation run list \<Rightarrow> 't relation run" where
  "pull_implement ops dm vs paths =
     run_bind (pull_paths ops dm paths handle_empty)
       (\<lambda>(streams, shutdown_handle). Inr (collection_of vs (concat streams), shutdown_handle))"

fun pull_all_streams ::
  "'t dataflow_ops \<Rightarrow> ('t \<Rightarrow> 't list \<Rightarrow> 't) \<Rightarrow> ('t, 'r, 'pr) dom \<Rightarrow> aid list \<Rightarrow> handle \<Rightarrow>
   ('t tuples list \<times> handle) run" where
  "pull_all_streams ops advance_by dm [] shutdown_handle = Inr ([], shutdown_handle)"
| "pull_all_streams ops advance_by dm (a # attrs) shutdown_handle =
     run_bind (pull_index ops advance_by dm a) (\<lambda>(e_v, shutdown_propose).
     run_bind (pull_all_streams ops advance_by dm attrs (add_button shutdown_handle shutdown_propose))
       (\<lambda>(streams, shutdown_handle').
          Inr (coll_map (\<lambda>(e, v). [e, into_value a, v]) e_v # streams, shutdown_handle')))"

definition pull_all_implement ::
  "'t dataflow_ops \<Rightarrow> ('t \<Rightarrow> 't list \<Rightarrow> 't) \<Rightarrow> ('t, 'r, 'pr) dom \<Rightarrow> aid list \<Rightarrow> 't relation run" where
  "pull_all_implement ops advance_by dm pull_attributes =
     (if pull_attributes = [] then Inl ''assertion failed''
      else run_bind (pull_all_streams ops advance_by dm pull_attributes handle_empty)
        (\<lambda>(streams, shutdown_handle). Inr (collection_of [] (concat streams), shutdown_handle)))"

section \<open>Properties\<close>

text \<open>The specification of interleaving: values and attributes alternate.\<close>

fun weave :: "df_value list \<Rightarrow> aid list \<Rightarrow> df_value list" where
  "weave (v # vs) (c # cs) = v # Aid c # weave vs cs"
| "weave vs [] = vs"
| "weave [] (c # cs) = []"

definition weavable :: "df_value list \<Rightarrow> aid list \<Rightarrow> bool" where
  "weavable values constants \<longleftrightarrow> length values = length constants \<or> length values = length constants + 1"

lemma interleave_loop_weave:
  assumes "k \<le> length values" and "k \<le> length constants"
  shows "interleave_loop values constants [2 * k..<length values + length constants] k k result =
    (if weavable values constants then Inr (result @ weave (drop k values) (drop k constants))
     else Inl ''index out of bounds'')"
  using assms
proof (induction "length constants - k" arbitrary: k result)
  case 0
  then have k: "k = length constants" by simp
  consider "length values = k" | "length values = k + 1" | "length values \<ge> k + 2" using 0 by linarith
  then show ?case
  proof cases
    case 1
    then show ?thesis by (simp add: k weavable_def)
  next
    case 2
    then have "drop k values = [values ! k]" by (metis Cons_nth_drop_Suc Suc_eq_plus1 drop_all le_refl lessI)
    with 2 show ?thesis by (simp add: k weavable_def upt_rec vec_index_def)
  next
    case 3
    then show ?thesis by (simp add: k weavable_def upt_conv_Cons vec_index_def)
  qed
next
  case (Suc d)
  then have k: "k < length constants" by simp
  show ?case
  proof (cases "k < length values")
    case True
    have "[2 * k..<length values + length constants] = 2 * k # (2 * k + 1) # [2 * Suc k..<length values + length constants]"
      using True k by (simp add: upt_conv_Cons)
    moreover have "weave (drop k values) (drop k constants) =
        values ! k # Aid (constants ! k) # weave (drop (Suc k) values) (drop (Suc k) constants)"
      by (simp only: Cons_nth_drop_Suc[OF True, symmetric] Cons_nth_drop_Suc[OF k, symmetric] weave.simps)
    ultimately show ?thesis
      using Suc.hyps(1)[of "Suc k" "result @ [values ! k, Aid (constants ! k)]"] Suc.hyps(2) True k
      by (simp add: vec_index_def into_value_def)
  next
    case False
    then have v: "length values = k" using Suc.prems by simp
    then have "\<not> weavable values constants" using k by (simp add: weavable_def)
    with v k show ?thesis by (simp add: upt_conv_Cons vec_index_def)
  qed
qed

lemma interleave_weave:
  "interleave values constants =
     (if values = [] \<or> constants = [] then Inr values
      else if weavable values constants then Inr (weave values constants)
      else Inl ''index out of bounds'')"
  using interleave_loop_weave[of 0 "values" constants "[]"] by (simp add: interleave_def)

lemma weave_Nil [simp]: "weave vs [] = vs"
  by (cases vs) auto

lemma interleave_total:
  "constants = [] \<or> weavable values constants \<Longrightarrow> interleave values constants = Inr (weave values constants)"
  by (cases constants; cases "values") (auto simp: interleave_weave weavable_def)

lemma weave_inj:
  "length vs = length ws \<Longrightarrow> constants = [] \<or> weavable vs constants \<Longrightarrow>
     weave vs constants = weave ws constants \<Longrightarrow> vs = ws"
proof (induction vs constants arbitrary: ws rule: weave.induct)
  case (1 v vs c cs)
  then obtain w ws' where "ws = w # ws'" by (cases ws) auto
  with 1 show ?case by (cases cs) (auto simp: weavable_def)
qed auto

text \<open>Interleaving a path with its attributes alternates them when there are as many values as attributes
  or one more, and panics otherwise, unless one of the two is empty.\<close>

theorem interleave_exact:
  "interleave values constants =
     (if values = [] \<or> constants = [] then Inr values
      else if weavable values constants then Inr (weave values constants)
      else Inl ''index out of bounds'')"
  by (rule interleave_weave)

subsection \<open>One level\<close>

text \<open>Compaction: a time advanced by a frontier cannot be told from the time itself beyond the frontier.\<close>

definition advance_law :: "'t lattice_ops \<Rightarrow> ('t \<Rightarrow> 't list \<Rightarrow> 't) \<Rightarrow> bool" where
  "advance_law L advance_by \<longleftrightarrow>
     (\<forall>t F s. frontier_le L F s \<longrightarrow> less_equal L (advance_by t F) s = less_equal L t s)"

definition beyond :: "'t lattice_ops \<Rightarrow> ('t, 'r, 'pr) dom \<Rightarrow> aid \<Rightarrow> 't \<Rightarrow> bool" where
  "beyond L dm a s \<longleftrightarrow> (\<forall>tr. forward_propose_of a dm = Some tr \<longrightarrow> frontier_le L (advanced tr) s)"

lemma pull_index_total:
  assumes "advance_law L advance_by" and "forward_propose_of a dm \<noteq> None"
  shows "\<exists>c. pull_index ops advance_by dm a = Inr (c, Propose a) \<and>
    (\<forall>ev t. beyond L dm a (fst t) \<longrightarrow>
       total_at (nested_ops L) c ev t = attribute_at L (import_trace ops) dm a ev (fst t))"
proof -
  obtain tr where tr: "forward_propose_of a dm = Some tr" using assms(2) by blast
  have "total_at (nested_ops L) (map (\<lambda>(ev, time, d). (ev, (advance_by time F, 0), d)) c) ev (s, r) = total_at L c ev s"
    if "frontier_le L F s" for F s r c ev
  proof (induction c)
    case (Cons u c)
    obtain y time d where u: "u = (y, time, d)" by (metis prod_cases3)
    have "less_equal L (advance_by time F) s = less_equal L time s"
      using assms(1) that by (auto simp: advance_law_def)
    with Cons show ?case by (simp add: u nested_ops_def)
  qed simp
  then show ?thesis by (auto simp: pull_index_def tr beyond_def attribute_at_def)
qed

definition pulled :: "aid list \<Rightarrow> tuple \<Rightarrow> aid \<Rightarrow> df_value \<Rightarrow> tuple" where
  "pulled path_attributes path a v = weave path path_attributes @ [Aid a, v]"

lemma pulled_inj:
  assumes "length p = length q" and "path_attributes = [] \<or> weavable p path_attributes"
    and "pulled path_attributes p a v = pulled path_attributes q b w"
  shows "p = q \<and> a = b \<and> v = w"
  using assms weave_inj[of p q path_attributes] by (auto simp: pulled_def)

lemma pull_path_total:
  "path_attributes = [] \<or> cardinality_many \<Longrightarrow> path_attributes = [] \<or> weavable path path_attributes \<Longrightarrow>
     pull_path path_attributes cardinality_many a path v = Inr (pulled path_attributes path a v)"
  by (auto simp: pull_path_def interleave_total pulled_def into_value_def)

text \<open>The stream of one attribute.\<close>

lemma pull_stream_total:
  assumes laws: "ops_laws L ops"
    and e_path: "fst ` set e_path \<subseteq> {(e, p). length p = n \<and> e = f p}"
    and many: "path_attributes = [] \<or> cardinality_many"
    and len: "\<And>p :: tuple. length p = n \<Longrightarrow> path_attributes = [] \<or> weavable p path_attributes"
  shows "\<exists>c. coll_map_run (\<lambda>(_, path, v). pull_path path_attributes cardinality_many a path v) (join_paths ops e_path e_v) = Inr c \<and>
    (\<forall>p b v t. length p = n \<longrightarrow> total_at (nested_ops L) c (pulled path_attributes p b v) t =
       (if b = a then total_at (nested_ops L) e_path (f p, p) t * total_at (nested_ops L) e_v (f p, v) t else 0))"
proof -
  note law = ops_lawsD(6)[OF laws]
  let ?j = "join_paths ops e_path e_v" and ?g = "\<lambda>(_, path, v). pulled path_attributes path a v"
  have rec: "fst ` set ?j \<subseteq> {(e, p, v). length p = n \<and> e = f p}"
    using join_lawD(2)[OF law, of e_path e_v] e_path by blast
  have "pull_path path_attributes cardinality_many a p v = Inr (?g (e, p, v))" if "((e, p, v), t, d) \<in> set ?j" for e p v t d
  proof -
    have "(e, p, v) \<in> fst ` set ?j" using that by force
    then have "length p = n" using rec by blast
    then show ?thesis by (simp add: pull_path_total[OF many len])
  qed
  then have run: "coll_map_run (\<lambda>(_, path, v). pull_path path_attributes cardinality_many a path v) ?j = Inr (coll_map ?g ?j)"
    by (intro coll_map_run_total) auto
  have "total_at (nested_ops L) (coll_map ?g ?j) (pulled path_attributes p b v) t =
      (if b = a then total_at (nested_ops L) e_path (f p, p) t * total_at (nested_ops L) e_v (f p, v) t else 0)"
    if p: "length p = n" for p b v t
  proof (cases "b = a")
    case True
    have "inj_on ?g (insert (f p, p, v) (fst ` set ?j))"
    proof (rule inj_on_subset)
      show "inj_on ?g {(e, p, v). length p = n \<and> e = f p}"
      proof (rule inj_onI)
        fix x y assume xy: "x \<in> {(e, p, v). length p = n \<and> e = f p}" "y \<in> {(e, p, v). length p = n \<and> e = f p}"
          and eq: "?g x = ?g y"
        from xy obtain q w q' w' where x: "x = (f q, q, w)" "length q = n" and y: "y = (f q', q', w')" "length q' = n"
          by auto
        have "length q = length q'" "pulled path_attributes q a w = pulled path_attributes q' a w'"
          using x y eq by simp_all
        from pulled_inj[OF this(1) len[OF x(2)] this(2)] show "x = y" by (simp add: x(1) y(1))
      qed
    qed (use rec p in auto)
    from total_map_inj[OF this, of "nested_ops L" t] True show ?thesis by (simp add: join_lawD(1)[OF law])
  next
    case False
    have "pulled path_attributes p b v \<notin> ?g ` fst ` set ?j"
    proof
      assume "pulled path_attributes p b v \<in> ?g ` fst ` set ?j"
      then obtain x where x: "x \<in> fst ` set ?j" "pulled path_attributes p b v = ?g x" by (rule imageE)
      obtain e q w where xq: "x = (e, q, w)" by (metis prod_cases3)
      then have "length p = length q" using subsetD[OF rec x(1)] p by simp
      from pulled_inj[OF this len[OF p]] x(2) False show False unfolding xq by simp
    qed
    with False show ?thesis by (simp add: total_map_notin)
  qed
  with run show ?thesis by blast
qed

lemma pull_streams_total:
  assumes laws: "ops_laws L ops" and adv: "advance_law L advance_by"
    and e_path: "fst ` set e_path \<subseteq> {(e, p). length p = n \<and> e = f p}"
    and many: "path_attributes = [] \<or> cardinality_many"
    and len: "\<And>p :: tuple. length p = n \<Longrightarrow> path_attributes = [] \<or> weavable p path_attributes"
    and attrs: "\<And>a. a \<in> set attrs \<Longrightarrow> forward_propose_of a dm \<noteq> None" and dist: "distinct attrs"
  shows "\<exists>cs h'. pull_streams ops advance_by dm e_path path_attributes cardinality_many attrs h = Inr (cs, h') \<and>
    (\<forall>p a v t. length p = n \<longrightarrow> (\<forall>b \<in> set attrs. beyond L dm b (fst t)) \<longrightarrow>
       total_at (nested_ops L) (concat cs) (pulled path_attributes p a v) t =
         (if a \<in> set attrs then total_at (nested_ops L) e_path (f p, p) t *
            attribute_at L (import_trace ops) dm a (f p, v) (fst t) else 0))"
  using attrs dist
proof (induction attrs arbitrary: h)
  case Nil
  then show ?case by simp
next
  case (Cons a attrs)
  from pull_index_total[OF adv, of a dm ops] Cons.prems(1) obtain e_v where
    ev: "pull_index ops advance_by dm a = Inr (e_v, Propose a)"
      "\<And>x t. beyond L dm a (fst t) \<Longrightarrow> total_at (nested_ops L) e_v x t = attribute_at L (import_trace ops) dm a x (fst t)"
    by auto
  from pull_stream_total[OF laws e_path many len, of a e_v] obtain c where
    c: "coll_map_run (\<lambda>(_, path, v). pull_path path_attributes cardinality_many a path v) (join_paths ops e_path e_v) = Inr c"
      "\<And>p b v t. length p = n \<Longrightarrow> total_at (nested_ops L) c (pulled path_attributes p b v) t =
         (if b = a then total_at (nested_ops L) e_path (f p, p) t * total_at (nested_ops L) e_v (f p, v) t else 0)"
    by blast
  from Cons obtain cs h' where
    cs: "pull_streams ops advance_by dm e_path path_attributes cardinality_many attrs (add_button h (Propose a)) = Inr (cs, h')"
      "\<And>p b v t. length p = n \<Longrightarrow> \<forall>b \<in> set attrs. beyond L dm b (fst t) \<Longrightarrow>
         total_at (nested_ops L) (concat cs) (pulled path_attributes p b v) t =
         (if b \<in> set attrs then total_at (nested_ops L) e_path (f p, p) t *
            attribute_at L (import_trace ops) dm b (f p, v) (fst t) else 0)"
    by (metis distinct.simps(2) list.set_intros(2))
  have "pull_streams ops advance_by dm e_path path_attributes cardinality_many (a # attrs) h = Inr (c # cs, h')"
    using ev(1) c(1) cs(1) by simp
  moreover have "total_at (nested_ops L) (concat (c # cs)) (pulled path_attributes p b v) t =
      (if b \<in> set (a # attrs) then total_at (nested_ops L) e_path (f p, p) t *
         attribute_at L (import_trace ops) dm b (f p, v) (fst t) else 0)"
    if "length p = n" "\<forall>b \<in> set (a # attrs). beyond L dm b (fst t)" for p b v t
    using that Cons.prems(2) by (auto simp: c(2) cs(2) ev(2))
  ultimately show ?case by blast
qed

text \<open>C28: Pulling a level with many children returns for every path of the input relation, every pulled
  attribute and every value of the last entity the interleaved path followed by attribute and value, with the
  multiplicity of the path times that of the value, at all times beyond the compaction of the attributes.\<close>

theorem pull_level_exact:
  assumes laws: "ops_laws L ops" and adv: "advance_law L advance_by" and ok: "impl_ok (import_trace ops) dm input"
    and var: "pull_variable \<in> set (impl_variables input)"
    and many: "path_attributes = [] \<or> cardinality_many"
    and len: "path_attributes = [] \<or> length (impl_variables input) = length path_attributes \<or>
      length (impl_variables input) = length path_attributes + 1"
    and attrs: "list_all (\<lambda>a. forward_propose_of a dm \<noteq> None) pull_attributes" "distinct pull_attributes"
      "pull_attributes \<noteq> []"
  shows "\<exists>c h'. pull_level_implement ops advance_by dm vs pull_variable pull_attributes path_attributes
      cardinality_many (input, h) = Inr (collection_of [] c, h') \<and>
    (\<forall>\<sigma> a v t. list_all (\<lambda>b. beyond L dm b (fst t)) pull_attributes \<longrightarrow>
       total_at (nested_ops L) c (pulled path_attributes (map \<sigma> (impl_variables input)) a v) t =
         (if a \<in> set pull_attributes
          then total_at (nested_ops L) (impl_rows (import_trace ops) dm input) (map \<sigma> (impl_variables input)) t *
            attribute_at L (import_trace ops) dm a (\<sigma> pull_variable, v) (fst t)
          else 0))"
proof -
  let ?vars = "impl_variables input" and ?rows = "impl_rows (import_trace ops) dm input"
  let ?f = "\<lambda>p. value_of ?vars p pull_variable"
  have wf: "wf_tuples ?vars ?rows" using ok by (simp add: impl_ok_def)
  obtain hp where tuples: "impl_tuples (import_trace ops) dm input = Inr (?rows, hp)"
    using impl_tuples_rows[OF ok] by blast
  obtain off where off: "impl_binds input pull_variable = Some off"
    "\<And>p. length p = length ?vars \<Longrightarrow> vec_index p off = Inr (?f p)"
    using vec_binds_value[OF var] var unfolding impl_binds_variables vec_index_def
    by (metis Ex_list_of_length option.inject)
  let ?e_path = "coll_map (\<lambda>p. (?f p, p)) ?rows"
  have run: "coll_map_run (\<lambda>t. run_bind (vec_index t off) (\<lambda>e. Inr (e, t))) ?rows = Inr ?e_path"
    using wf off(2) by (intro coll_map_run_total) (auto simp: wf_tuples_def list_all_iff)
  have rec: "fst ` set ?e_path \<subseteq> {(e, p). length p = length ?vars \<and> e = ?f p}"
    using wf by (auto simp: wf_tuples_records)
  have "path_attributes = [] \<or> weavable p path_attributes" if "length p = length ?vars" for p
    using len that by (simp add: weavable_def)
  from pull_streams_total[OF laws adv rec many this, of pull_attributes dm] attrs(1,2) obtain cs h' where
    cs: "pull_streams ops advance_by dm ?e_path path_attributes cardinality_many pull_attributes (merge_with h hp) = Inr (cs, h')"
      "\<And>p a v t. length p = length ?vars \<Longrightarrow> \<forall>b \<in> set pull_attributes. beyond L dm b (fst t) \<Longrightarrow>
         total_at (nested_ops L) (concat cs) (pulled path_attributes p a v) t =
         (if a \<in> set pull_attributes then total_at (nested_ops L) ?e_path (?f p, p) t *
            attribute_at L (import_trace ops) dm a (?f p, v) (fst t) else 0)"
    unfolding list_all_iff by blast
  have inj: "inj (\<lambda>p. (?f p, p))" by (auto simp: inj_def)
  have tot: "total_at (nested_ops L) ?e_path (?f p, p) t = total_at (nested_ops L) ?rows p t" for p t
    by (rule total_map_inj[OF inj_on_subset[OF inj subset_UNIV]])
  have "pull_level_implement ops advance_by dm vs pull_variable pull_attributes path_attributes
      cardinality_many (input, h) = Inr (collection_of [] (concat cs), h')"
    using attrs(3) many tuples off(1) run cs(1) by (auto simp: pull_level_implement_def expect_def)
  moreover have "total_at (nested_ops L) (concat cs) (pulled path_attributes (map \<sigma> ?vars) a v) t =
      (if a \<in> set pull_attributes then total_at (nested_ops L) ?rows (map \<sigma> ?vars) t *
         attribute_at L (import_trace ops) dm a (\<sigma> pull_variable, v) (fst t) else 0)"
    if "list_all (\<lambda>b. beyond L dm b (fst t)) pull_attributes" for \<sigma> a v t
  proof -
    have "\<forall>b \<in> set pull_attributes. beyond L dm b (fst t)" using that by (simp add: list_all_iff)
    from cs(2)[OF length_map this, of \<sigma> a v] show ?thesis unfolding tot unfolding value_of_map[OF var] .
  qed
  ultimately show ?thesis by blast
qed

definition ref_advance :: "u64 \<Rightarrow> u64 list \<Rightarrow> u64" where
  "ref_advance t F = (case F of [] \<Rightarrow> t | f # fs \<Rightarrow> max t (fold min fs f))"

lemma fold_min_le: "fold min fs f \<le> s \<longleftrightarrow> f \<le> s \<or> (\<exists>g \<in> set fs. g \<le> s)" for f s :: "'a::linorder"
  by (induction fs arbitrary: f) (auto simp: min_le_iff_disj)

lemma ref_advance_law: "advance_law u64_ops ref_advance"
  by (auto simp: advance_law_def ref_advance_def frontier_le_def total_ops_def fold_min_le list_ex_iff
      split: list.splits)

theorem pull_level_exact_witness:
  "\<exists>c h'. pull_level_implement (ref_ops u64_ops) ref_advance plan_domain [] 7 [''name''] [] False
      (collection_of [7] [([Eid 2], (1, 0), 1)], []) = Inr (collection_of [] c, h') \<and>
    total_at (nested_ops u64_ops) c [Eid 2, Aid ''name'', String ''Bob''] (4, 0) = 1"
proof -
  let ?in = "collection_of [7] [([Eid 2], (1, 0), 1)] :: u64 implemented"
  have "impl_ok (import_trace (ref_ops u64_ops)) plan_domain ?in" "7 \<in> set (impl_variables ?in)"
    "list_all (\<lambda>a. forward_propose_of a plan_domain \<noteq> None) [''name'']" "distinct [''name'']" "[''name''] \<noteq> []"
    by (simp_all add: impl_ok_def wf_tuples_def plan_domain_indices)
  from pull_level_exact[OF ref_ops_laws ref_advance_law this(1,2) disjI1[OF refl] disjI1[OF refl] this(3-5),
      where vs = "[]" and h = "[]" and cardinality_many = False] obtain c h' where
    c: "pull_level_implement (ref_ops u64_ops) ref_advance plan_domain [] 7 [''name''] [] False (?in, []) =
        Inr (collection_of [] c, h')"
      "\<And>\<sigma> a v t. list_all (\<lambda>b. beyond u64_ops plan_domain b (fst t)) [''name''] \<Longrightarrow>
         total_at (nested_ops u64_ops) c (pulled [] (map \<sigma> (impl_variables ?in)) a v) t =
         (if a \<in> set [''name''] then total_at (nested_ops u64_ops)
              (impl_rows (import_trace (ref_ops u64_ops)) plan_domain ?in) (map \<sigma> (impl_variables ?in)) t *
            attribute_at u64_ops (import_trace (ref_ops u64_ops)) plan_domain a (\<sigma> 7, v) (fst t) else 0)"
    by blast
  have "beyond u64_ops plan_domain ''name'' 4"
    by (simp add: beyond_def plan_domain_indices demo_trace_def frontier_le_def total_ops_def)
  with c(2)[of "(4, 0)" "\<lambda>_. Eid 2" "''name''" "String ''Bob''"]
  have "total_at (nested_ops u64_ops) c [Eid 2, Aid ''name'', String ''Bob''] (4, 0) = 1"
    by (simp add: pulled_def attribute_at_def plan_domain_indices ref_ops_def demo_trace_def nested_ops_def total_ops_def)
  with c(1) show ?thesis by blast
qed

end
