(* ===== verification/Queries.thy ===== *)
theory Queries
  imports Hector_Join Pulls Aggregates
begin

text \<open>
  Whole plans, from \<^verbatim>\<open>Plan::implement\<close> in \<^verbatim>\<open>src/src/plan/mod.rs\<close>: every node implements its children and combines
  their relations. The implementation of a plan with a \<^verbatim>\<open>Hector\<close> node need not return; its value is then \<open>None\<close>. Children
  are implemented in order, so that a panic of an earlier child comes before the divergence of a later one.

  The main theorem is that the implementation of a query of relational nodes denotes its first-order meaning.
\<close>

section \<open>Implementation\<close>

text \<open>What the plans use of timely and differential dataflow.\<close>

record 't plan_env =
  env_lattice :: "'t lattice_ops"
  env_ops :: "'t dataflow_ops"
  env_aggregates :: "'t aggregate_ops"
  env_imports :: "'t index_imports"
  env_advance_by :: "'t \<Rightarrow> 't list \<Rightarrow> 't"

definition and_then :: "'a run option \<Rightarrow> ('a \<Rightarrow> 'b run) \<Rightarrow> 'b run option" where
  "and_then r f = map_option (\<lambda>x. run_bind x f) r"

text \<open>A node that consumes its children one after the other, up to the first that does not return.\<close>

definition in_sequence :: "('a run list \<Rightarrow> 'b run) \<Rightarrow> 'a run option list \<Rightarrow> 'b run option" where
  "in_sequence f rs =
     (let finished = map the (takeWhile (\<lambda>r. r \<noteq> None) rs) in
      if length finished = length rs then Some (f finished)
      else (case f finished of Inl msg \<Rightarrow> Some (Inl msg) | Inr _ \<Rightarrow> None))"

definition both :: "('a \<Rightarrow> 'b \<Rightarrow> 'c run) \<Rightarrow> 'a run option \<Rightarrow> 'b run option \<Rightarrow> 'c run option" where
  "both f l r =
     (case l of
        None \<Rightarrow> None
      | Some (Inl msg) \<Rightarrow> Some (Inl msg)
      | Some (Inr left) \<Rightarrow> and_then r (f left))"

fun plan_implement ::
  "'t plan_env \<Rightarrow> ('t, 'r, 'pr) dom \<Rightarrow> 't local_arrangements \<Rightarrow> plan \<Rightarrow> 't relation run option" where
  "plan_implement E dm locals (Project vs p) = and_then (plan_implement E dm locals p) (project_implement (env_ops E) dm vs)"
| "plan_implement E dm locals (Aggregate vs p fns keys aggs withs) =
     and_then (plan_implement E dm locals p) (aggregate_implement (env_ops E) (env_aggregates E) dm vs fns keys aggs withs)"
| "plan_implement E dm locals (Union vs ps) =
     in_sequence (union_implement (env_ops E) dm vs) (map (plan_implement E dm locals) ps)"
| "plan_implement E dm locals (Join vs l r) =
     (if vs = [] then Some (Inl ''assertion failed'')
      else both (\<lambda>left right. join_implement (env_ops E) dm vs (Inr left) (Inr right))
        (plan_implement E dm locals l) (plan_implement E dm locals r))"
| "plan_implement E dm locals (Hector vs bs) = hector_implement (env_lattice E) (env_imports E) dm vs bs"
| "plan_implement E dm locals (Antijoin vs l r) =
     both (antijoin_implement (env_ops E) dm vs) (plan_implement E dm locals l) (plan_implement E dm locals r)"
| "plan_implement E dm locals (Negate p) = and_then (plan_implement E dm locals p) (negate_implement (env_ops E) dm)"
| "plan_implement E dm locals (Filter vs predicate p constants) =
     and_then (plan_implement E dm locals p) (filter_implement (env_ops E) dm vs predicate constants)"
| "plan_implement E dm locals (Transform vs result p f constants) =
     and_then (plan_implement E dm locals p) (transform_implement (env_ops E) dm vs result f constants)"
| "plan_implement E dm locals (MatchA e a v) = Some (Inr (match_a_implement e a v))"
| "plan_implement E dm locals (MatchEA e a v) = Some (match_ea_implement (env_ops E) dm e a v)"
| "plan_implement E dm locals (MatchAV e a v) = Some (match_av_implement (env_ops E) dm e a v)"
| "plan_implement E dm locals (NameExpr syms name) = Some (name_expr_implement locals syms name)"
| "plan_implement E dm locals (Pull vs paths) =
     in_sequence (pull_implement (env_ops E) dm vs) (map (plan_implement E dm locals) paths)"
| "plan_implement E dm locals (PullLevel vs p pull_variable pull_attributes path_attributes many) =
     and_then (plan_implement E dm locals p)
       (pull_level_implement (env_ops E) (env_advance_by E) dm vs pull_variable pull_attributes path_attributes many)"
| "plan_implement E dm locals (PullAll vs pull_attributes) =
     Some (pull_all_implement (env_ops E) (env_advance_by E) dm pull_attributes)"

section \<open>Meaning\<close>

text \<open>The variables of a relation in the order of its tuples.\<close>

fun is_pattern :: "plan \<Rightarrow> bool" where
  "is_pattern (MatchA e a v) \<longleftrightarrow> True"
| "is_pattern p \<longleftrightarrow> False"

definition other_variable :: "var \<Rightarrow> var list \<Rightarrow> var" where
  "other_variable target vars = (if target = vars ! 0 then vars ! 1 else vars ! 0)"

definition join_layout :: "var list \<Rightarrow> bool \<Rightarrow> bool \<Rightarrow> var list \<Rightarrow> var list \<Rightarrow> var list" where
  "join_layout vs left_pattern right_pattern left right =
     (if left_pattern \<and> right_pattern then [hd vs, other_variable (hd vs) left, other_variable (hd vs) right]
      else if left_pattern then vs @ rest_of vs right @ rest_of vs left
      else vs @ rest_of vs left @ rest_of vs right)"

fun layout :: "plan \<Rightarrow> var list" where
  "layout (Project vs p) = vs"
| "layout (Union vs ps) = vs"
| "layout (Join vs l r) = join_layout vs (is_pattern l) (is_pattern r) (layout l) (layout r)"
| "layout (Hector vs bs) = vs"
| "layout (Antijoin vs l r) = vs @ rest_of vs (layout l)"
| "layout (Negate p) = layout p"
| "layout (Filter vs predicate p constants) = layout p"
| "layout (MatchA e a v) = [e, v]"
| "layout (MatchEA e a v) = [v]"
| "layout (MatchAV e a v) = [e]"
| "layout (NameExpr syms name) = syms"
| "layout p = []"

abbreviation query_vars :: "plan \<Rightarrow> var set" where
  "query_vars p \<equiv> set (layout p)"

text \<open>The first-order meaning: how often a valuation satisfies the query at a time, given how often a tuple is in each named
  relation at that time.\<close>

fun meaning ::
  "'t::linorder plan_env \<Rightarrow> ('t, 'r, 'pr) dom \<Rightarrow> (aid \<Rightarrow> (df_value \<times> df_value, 't) collection) \<Rightarrow>
   (aid \<Rightarrow> tuple \<Rightarrow> int) \<Rightarrow> plan \<Rightarrow> 't \<Rightarrow> valuation \<Rightarrow> int" where
  "meaning E dm R I (Project vs p) = (\<lambda>t \<sigma>. project_sum (query_vars p) vs (meaning E dm R I p t) \<sigma>)"
| "meaning E dm R I (Union vs ps) =
     (\<lambda>t \<sigma>. of_bool ((\<Sum>p \<leftarrow> ps. project_sum (query_vars p) vs (meaning E dm R I p t) \<sigma>) > 0))"
| "meaning E dm R I (Join vs l r) = (\<lambda>t \<sigma>. meaning E dm R I l t \<sigma> * meaning E dm R I r t \<sigma>)"
| "meaning E dm R I (Hector vs bs) = (\<lambda>t \<sigma>. int (card (solutions R t bs vs \<sigma>)))"
| "meaning E dm R I (Antijoin vs l r) =
     (\<lambda>t \<sigma>. of_bool (meaning E dm R I l t \<sigma> > 0 \<and> \<not> project_sum (query_vars r) vs (meaning E dm R I r t) \<sigma> > 0))"
| "meaning E dm R I (Negate p) = (\<lambda>t \<sigma>. - meaning E dm R I p t \<sigma>)"
| "meaning E dm R I (Filter vs predicate p constants) =
     (\<lambda>t \<sigma>. (if filter_holds predicate vs constants \<sigma> then meaning E dm R I p t \<sigma> else 0))"
| "meaning E dm R I (MatchA e a v) = (\<lambda>t \<sigma>. attribute_at (env_lattice E) (import_trace (env_ops E)) dm a (\<sigma> e, \<sigma> v) t)"
| "meaning E dm R I (MatchEA e a v) = (\<lambda>t \<sigma>. attribute_at (env_lattice E) (import_trace (env_ops E)) dm a (Eid e, \<sigma> v) t)"
| "meaning E dm R I (MatchAV e a v) = (\<lambda>t \<sigma>. attribute_at (env_lattice E) (import_trace (env_ops E)) dm a (\<sigma> e, v) t)"
| "meaning E dm R I (NameExpr syms name) = (\<lambda>t \<sigma>. I name (map \<sigma> syms))"
| "meaning E dm R I p = (\<lambda>t \<sigma>. 0)"

section \<open>Well-formed queries\<close>

text \<open>A bare attribute pattern can be projected to any of its variables, but not to none.\<close>

fun selects :: "plan \<Rightarrow> var list \<Rightarrow> bool" where
  "selects (MatchA e a v) vs \<longleftrightarrow> vs \<noteq> [] \<and> distinct vs \<and> set vs \<subseteq> {e, v}"
| "selects p vs \<longleftrightarrow> distinct vs \<and> set vs \<subseteq> query_vars p"

fun pattern_reversible :: "'t plan_env \<Rightarrow> ('t, 'r, 'pr) dom \<Rightarrow> var list \<Rightarrow> plan \<Rightarrow> bool" where
  "pattern_reversible E dm vs (MatchA e a v) \<longleftrightarrow>
     length vs = 1 \<and> (vs ! 0 = v \<longrightarrow> reverse_agrees (env_lattice E) (import_trace (env_ops E)) dm a)"
| "pattern_reversible E dm vs p \<longleftrightarrow> True"

definition patterns_join :: "'t plan_env \<Rightarrow> ('t, 'r, 'pr) dom \<Rightarrow> var list \<Rightarrow> plan \<Rightarrow> plan \<Rightarrow> bool" where
  "patterns_join E dm vs l r \<longleftrightarrow>
     (is_pattern l \<and> is_pattern r \<longrightarrow> pattern_reversible E dm vs l \<and> pattern_reversible E dm vs r)"

text \<open>\<open>ar\<close> is the number of columns of each named relation.\<close>

fun wf_query ::
  "'t::linorder plan_env \<Rightarrow> ('t, 'r, 'pr) dom \<Rightarrow> (aid \<Rightarrow> (df_value \<times> df_value, 't) collection) \<Rightarrow>
   (aid \<Rightarrow> nat option) \<Rightarrow> plan \<Rightarrow> bool" where
  "wf_query E dm R ar (Project vs p) \<longleftrightarrow> wf_query E dm R ar p \<and> selects p vs"
| "wf_query E dm R ar (Union vs ps) \<longleftrightarrow> distinct vs \<and> (\<forall>p \<in> set ps. wf_query E dm R ar p \<and> selects p vs)"
| "wf_query E dm R ar (Join vs l r) \<longleftrightarrow> wf_query E dm R ar l \<and> wf_query E dm R ar r \<and>
     vs \<noteq> [] \<and> distinct vs \<and> set vs = query_vars l \<inter> query_vars r \<and> patterns_join E dm vs l r"
| "wf_query E dm R ar (Hector vs bs) \<longleftrightarrow> runnable (env_imports E) dm R bs \<and> 2 \<le> length bs \<and>
     vs \<noteq> [] \<and> distinct vs \<and> set vs \<subseteq> set (all_variables bs)"
| "wf_query E dm R ar (Antijoin vs l r) \<longleftrightarrow> wf_query E dm R ar l \<and> wf_query E dm R ar r \<and>
     selects l vs \<and> selects r vs"
| "wf_query E dm R ar (Negate p) \<longleftrightarrow> wf_query E dm R ar p"
| "wf_query E dm R ar (Filter vs predicate p constants) \<longleftrightarrow> wf_query E dm R ar p \<and>
     filter_wf vs constants \<and> set vs \<subseteq> query_vars p"
| "wf_query E dm R ar (MatchA e a v) \<longleftrightarrow> e \<noteq> v \<and> forward_propose_of a dm \<noteq> None"
| "wf_query E dm R ar (MatchEA e a v) \<longleftrightarrow> forward_propose_of a dm \<noteq> None"
| "wf_query E dm R ar (MatchAV e a v) \<longleftrightarrow> forward_propose_of a dm \<noteq> None"
| "wf_query E dm R ar (NameExpr syms name) \<longleftrightarrow> distinct syms \<and> ar name = Some (length syms)"
| "wf_query E dm R ar p \<longleftrightarrow> False"

definition local_totals :: "'t plan_env \<Rightarrow> 't local_arrangements \<Rightarrow> 't nested \<Rightarrow> aid \<Rightarrow> tuple \<Rightarrow> int" where
  "local_totals E locals t name tup =
     (case map_of locals name of None \<Rightarrow> 0 | Some c \<Rightarrow> total_at (nested_ops (env_lattice E)) c tup t)"

definition locals_ok :: "(aid \<Rightarrow> nat option) \<Rightarrow> 't local_arrangements \<Rightarrow> bool" where
  "locals_ok ar locals \<longleftrightarrow> (\<forall>name n. ar name = Some n \<longrightarrow>
     (\<exists>c. map_of locals name = Some c \<and> (\<forall>tup \<in> fst ` set c. length tup = n)))"

section \<open>Every node implements its meaning\<close>

text \<open>Only a bare attribute pattern is implemented as an attribute; every other node yields a collection.\<close>

fun shaped :: "plan \<Rightarrow> 't implemented \<Rightarrow> bool" where
  "shaped (MatchA e a v) rel \<longleftrightarrow> rel = ImplAttribute (AttributeBinding (e, v) a)"
| "shaped p rel \<longleftrightarrow> (\<exists>c. rel = ImplCollection c)"

definition implemented_as ::
  "'t plan_env \<Rightarrow> ('t, 'r, 'pr) dom \<Rightarrow> 't relation run option \<Rightarrow> plan \<Rightarrow> 't meaning \<Rightarrow> bool" where
  "implemented_as E dm result p m \<longleftrightarrow>
     (\<exists>rel h. result = Some (Inr (rel, h)) \<and> shaped p rel \<and> impl_variables rel = layout p \<and>
        denotes (env_lattice E) (import_trace (env_ops E)) dm rel m)"

lemma implemented_asI:
  "result = Some (Inr (rel, h)) \<Longrightarrow> shaped p rel \<Longrightarrow> impl_variables rel = layout p \<Longrightarrow>
     denotes (env_lattice E) (import_trace (env_ops E)) dm rel m \<Longrightarrow> implemented_as E dm result p m"
  unfolding implemented_as_def by blast

lemma shaped_pattern:
  "shaped p rel \<Longrightarrow> if is_pattern p then \<exists>e a v. p = MatchA e a v \<and> rel = ImplAttribute (AttributeBinding (e, v) a)
     else \<exists>c. rel = ImplCollection c"
  by (cases p) auto

lemma two_variables:
  "distinct vs \<Longrightarrow> vs \<noteq> [] \<Longrightarrow> set vs \<subseteq> {e, v} \<Longrightarrow> vs = [e, v] \<or> vs = [v, e] \<or> vs = [e] \<or> vs = [v]"
proof (cases vs rule: remdups_adj.cases)
  case (3 x y ys)
  assume "distinct vs" "set vs \<subseteq> {e, v}"
  with 3 show ?thesis by (cases ys) auto
qed auto

lemma selects_supported:
  assumes "shaped p rel" and "impl_variables rel = layout p" and "selects p vs"
  shows "impl_supports rel vs" "set vs \<subseteq> set (impl_variables rel)" "distinct vs"
proof -
  show "impl_supports rel vs"
  proof (cases p)
    case (MatchA e a v)
    with assms(1,3) two_variables[of vs e v] show ?thesis by (auto simp: attribute_supports_def)
  qed (use assms(1) in auto)
  show "set vs \<subseteq> set (impl_variables rel)" "distinct vs" using assms(2,3) by (cases p; simp)+
qed

lemma project_shape: "project_implement ops dm vs rel = Inr (rel', h') \<Longrightarrow> \<exists>c. rel' = ImplCollection c"
  by (auto simp: project_implement_def run_simps split: prod.splits sum.splits)

lemma negate_shape: "negate_implement ops dm rel = Inr (rel', h') \<Longrightarrow> \<exists>c. rel' = ImplCollection c"
  by (auto simp: negate_implement_def run_simps Let_def split: prod.splits sum.splits)

lemma filter_shape: "filter_implement ops dm vs p cs rel = Inr (rel', h') \<Longrightarrow> \<exists>c. rel' = ImplCollection c"
  by (auto simp: filter_implement_def run_simps Let_def split: prod.splits sum.splits)

lemma union_shape: "union_implement ops dm vs children = Inr (rel', h') \<Longrightarrow> \<exists>c. rel' = ImplCollection c"
  by (auto simp: union_implement_def run_simps split: prod.splits sum.splits)

lemma antijoin_shape: "antijoin_implement ops dm vs l r = Inr (rel', h') \<Longrightarrow> \<exists>c. rel' = ImplCollection c"
  by (auto simp: antijoin_implement_def run_simps Let_def split: prod.splits sum.splits)

lemma join_shape: "join_implement ops dm vs (Inr l) (Inr r) = Inr (rel', h') \<Longrightarrow> \<exists>c. rel' = ImplCollection c"
proof -
  have "join_relations ops dm vs left right = Inr (rel', h) \<Longrightarrow> \<exists>c. rel' = ImplCollection c" for left right h
    by (cases "(ops, dm, vs, left, right)" rule: join_relations.cases)
      (auto simp: attribute_attribute_def collection_attribute_def collection_collection_def run_simps Let_def
        split: list.splits prod.splits sum.splits option.splits)
  then show "join_implement ops dm vs (Inr l) (Inr r) = Inr (rel', h') \<Longrightarrow> ?thesis"
    by (auto simp: join_implement_def run_simps split: prod.splits sum.splits if_splits)
qed

lemma join_vars:
  assumes "join_implement ops dm vs (Inr (left, hl)) (Inr (right, hr)) = Inr (rel', h')"
    and "shaped l left" and "shaped r right" and "impl_variables left = layout l" and "impl_variables right = layout r"
  shows "impl_variables rel' = layout (Join vs l r)"
proof -
  from assms(1) obtain h where run: "join_relations ops dm vs left right = Inr (rel', h)"
    by (auto simp: join_implement_def run_simps split: if_splits)
  have cc: "collection_collection ops vs c c' = Inr (rel', h) \<Longrightarrow>
      impl_variables rel' = vs @ rest_of vs (rel_variables c) @ rest_of vs (rel_variables c')" for c c' h
    by (auto simp: collection_collection_def run_simps)
  have ca: "collection_attribute ops dm vs c b = Inr (rel', h) \<Longrightarrow> impl_variables rel' =
      vs @ rest_of vs (rel_variables c) @ rest_of vs [fst (ab_variables b), snd (ab_variables b)]" for c b
    by (auto simp: collection_attribute_def run_simps Let_def dest!: cc split: option.splits)
  show ?thesis using shaped_pattern[OF assms(2)] shaped_pattern[OF assms(3)] assms(4,5) run
    by (auto simp: join_layout_def other_variable_def attribute_attribute_def attribute_arranged_def run_simps
        dest!: cc ca split: if_splits list.splits)
qed

lemma match_shape:
  "match_ea_implement ops dm e a v = Inr (rel', h') \<Longrightarrow> \<exists>c. rel' = ImplCollection c"
  "match_av_implement ops dm e' a w = Inr (rel', h') \<Longrightarrow> \<exists>c. rel' = ImplCollection c"
  by (auto simp: match_ea_implement_def match_av_implement_def split: option.splits)

lemma project_query:
  assumes "implemented_as E dm r p m" and "selects p vs"
  shows "implemented_as E dm (and_then r (project_implement (env_ops E) dm vs)) (Project vs p)
    (\<lambda>t. project_sum (query_vars p) vs (m t))"
proof -
  from assms(1) obtain rel h where rel: "r = Some (Inr (rel, h))" "shaped p rel" "impl_variables rel = layout p"
    and den: "denotes (env_lattice E) (import_trace (env_ops E)) dm rel m" unfolding implemented_as_def by blast
  from project_implement_denotes[OF den selects_supported[OF rel(2,3) assms(2)], of h] obtain rel' h' where
    out: "project_implement (env_ops E) dm vs (rel, h) = Inr (rel', h')" "impl_variables rel' = vs"
      "denotes (env_lattice E) (import_trace (env_ops E)) dm rel' (\<lambda>t. project_sum (query_vars p) vs (m t))"
    unfolding rel(3) by blast
  show ?thesis
    by (rule implemented_asI[OF _ _ _ out(3)]) (use out(1,2) project_shape[OF out(1)] rel(1) in \<open>simp_all add: and_then_def\<close>)
qed

lemma negate_query:
  assumes "implemented_as E dm r p m"
  shows "implemented_as E dm (and_then r (negate_implement (env_ops E) dm)) (Negate p) (\<lambda>t \<sigma>. - m t \<sigma>)"
proof -
  from assms obtain rel h where rel: "r = Some (Inr (rel, h))" "impl_variables rel = layout p"
    and den: "denotes (env_lattice E) (import_trace (env_ops E)) dm rel m" unfolding implemented_as_def by blast
  from negate_implement_denotes[OF den, of h] obtain rel' h' where
    out: "negate_implement (env_ops E) dm (rel, h) = Inr (rel', h')" "impl_variables rel' = impl_variables rel"
      "denotes (env_lattice E) (import_trace (env_ops E)) dm rel' (\<lambda>t \<sigma>. - m t \<sigma>)" by blast
  show ?thesis
    by (rule implemented_asI[OF _ _ _ out(3)]) (use out(1,2) negate_shape[OF out(1)] rel in \<open>simp_all add: and_then_def\<close>)
qed

lemma filter_query:
  assumes "implemented_as E dm r p m" and "filter_wf vs cs" and "set vs \<subseteq> query_vars p"
  shows "implemented_as E dm (and_then r (filter_implement (env_ops E) dm vs predicate cs)) (Filter vs predicate p cs)
    (\<lambda>t \<sigma>. if filter_holds predicate vs cs \<sigma> then m t \<sigma> else 0)"
proof -
  from assms(1) obtain rel h where rel: "r = Some (Inr (rel, h))" "impl_variables rel = layout p"
    and den: "denotes (env_lattice E) (import_trace (env_ops E)) dm rel m" unfolding implemented_as_def by blast
  have "set vs \<subseteq> set (impl_variables rel)" using assms(3) rel(2) by simp
  from filter_implement_denotes[OF den assms(2) this, of predicate h] obtain rel' h' where
    out: "filter_implement (env_ops E) dm vs predicate cs (rel, h) = Inr (rel', h')" "impl_variables rel' = impl_variables rel"
      "denotes (env_lattice E) (import_trace (env_ops E)) dm rel' (\<lambda>t \<sigma>. if filter_holds predicate vs cs \<sigma> then m t \<sigma> else 0)"
    by blast
  show ?thesis
    by (rule implemented_asI[OF _ _ _ out(3)]) (use out(1,2) filter_shape[OF out(1)] rel in \<open>simp_all add: and_then_def\<close>)
qed

lemma antijoin_query:
  assumes laws: "ops_laws (env_lattice E) (env_ops E)" and "implemented_as E dm rl l ml" and "implemented_as E dm rr r mr"
    and "selects l vs" and "selects r vs"
  shows "implemented_as E dm (both (antijoin_implement (env_ops E) dm vs) rl rr) (Antijoin vs l r)
    (\<lambda>t \<sigma>. of_bool (ml t \<sigma> > 0 \<and> \<not> project_sum (query_vars r) vs (mr t) \<sigma> > 0))"
proof -
  from assms(2) obtain left hl where left: "rl = Some (Inr (left, hl))" "shaped l left" "impl_variables left = layout l"
    and denl: "denotes (env_lattice E) (import_trace (env_ops E)) dm left ml" unfolding implemented_as_def by blast
  from assms(3) obtain right hr where right: "rr = Some (Inr (right, hr))" "shaped r right" "impl_variables right = layout r"
    and denr: "denotes (env_lattice E) (import_trace (env_ops E)) dm right mr" unfolding implemented_as_def by blast
  note sl = selects_supported[OF left(2,3) assms(4)] and sr = selects_supported[OF right(2,3) assms(5)]
  from antijoin_implement_denotes[OF laws denl denr sl(1) sr(1) sl(2) sr(2) sl(3), of hl hr] obtain rel' h' where
    out: "antijoin_implement (env_ops E) dm vs (left, hl) (right, hr) = Inr (rel', h')"
      "impl_variables rel' = vs @ rest_of vs (impl_variables left)"
      "denotes (env_lattice E) (import_trace (env_ops E)) dm rel'
        (\<lambda>t \<sigma>. if ml t \<sigma> > 0 \<and> \<not> project_sum (query_vars r) vs (mr t) \<sigma> > 0 then 1 else 0)"
    unfolding right(3) by blast
  show ?thesis unfolding of_bool_def
    by (rule implemented_asI[OF _ _ _ out(3)])
      (use out(1,2) antijoin_shape[OF out(1)] left(1,3) right(1) in \<open>auto simp: both_def and_then_def\<close>)
qed

lemma join_query:
  assumes laws: "ops_laws (env_lattice E) (env_ops E)" and "implemented_as E dm rl l ml" and "implemented_as E dm rr r mr"
    and "vs \<noteq> []" and "distinct vs" and vs: "set vs = query_vars l \<inter> query_vars r" and "patterns_join E dm vs l r"
  shows "implemented_as E dm
    (both (\<lambda>left right. join_implement (env_ops E) dm vs (Inr left) (Inr right)) rl rr) (Join vs l r)
    (\<lambda>t \<sigma>. ml t \<sigma> * mr t \<sigma>)"
proof -
  from assms(2) obtain left hl where left: "rl = Some (Inr (left, hl))" "shaped l left" "impl_variables left = layout l"
    and denl: "denotes (env_lattice E) (import_trace (env_ops E)) dm left ml" unfolding implemented_as_def by blast
  from assms(3) obtain right hr where right: "rr = Some (Inr (right, hr))" "shaped r right" "impl_variables right = layout r"
    and denr: "denotes (env_lattice E) (import_trace (env_ops E)) dm right mr" unfolding implemented_as_def by blast
  have "set vs \<subseteq> set (impl_variables left)" "set vs \<subseteq> set (impl_variables right)"
    "set (impl_variables left) \<inter> set (impl_variables right) \<subseteq> set vs" using vs left(3) right(3) by auto
  moreover have "joinable (env_lattice E) (import_trace (env_ops E)) dm vs left right"
    using shaped_pattern[OF left(2)] shaped_pattern[OF right(2)] assms(7) by (auto simp: patterns_join_def split: if_splits)
  ultimately obtain rel' h' where
    out: "join_implement (env_ops E) dm vs (Inr (left, hl)) (Inr (right, hr)) = Inr (rel', h')"
      "denotes (env_lattice E) (import_trace (env_ops E)) dm rel' (\<lambda>t \<sigma>. ml t \<sigma> * mr t \<sigma>)"
    using join_implement_denotes[OF laws denl denr _ _ assms(5) _ _ assms(4), of hl hr] unfolding left(3) right(3) by blast
  show ?thesis
    by (rule implemented_asI[OF _ _ join_vars[OF out(1) left(2) right(2) left(3) right(3)] out(2)])
      (use out(1) join_shape[OF out(1)] left(1) right(1) in \<open>simp_all add: both_def and_then_def\<close>)
qed

lemma in_sequence_all: "(\<And>r. r \<in> set rs \<Longrightarrow> r \<noteq> None) \<Longrightarrow> in_sequence f rs = Some (f (map the rs))"
  by (simp add: in_sequence_def takeWhile_eq_all_conv[THEN iffD2])

lemma union_query:
  assumes laws: "ops_laws (env_lattice E) (env_ops E)" and "distinct vs"
    and "\<And>p. p \<in> set ps \<Longrightarrow> implemented_as E dm (f p) p (m p)" and "\<And>p. p \<in> set ps \<Longrightarrow> selects p vs"
  shows "implemented_as E dm (in_sequence (union_implement (env_ops E) dm vs) (map f ps)) (Union vs ps)
    (\<lambda>t \<sigma>. of_bool ((\<Sum>p \<leftarrow> ps. project_sum (query_vars p) vs (m p t) \<sigma>) > 0))"
proof -
  have "list_all2 (\<lambda>child (V, m). \<exists>rel h. child = Inr (rel, h) \<and>
      denotes (env_lattice E) (import_trace (env_ops E)) dm rel m \<and>
      set (impl_variables rel) = V \<and> impl_supports rel vs \<and> set vs \<subseteq> V) (map (\<lambda>p. the (f p)) ps)
      (map (\<lambda>p. (query_vars p, m p)) ps)"
    unfolding list_all2_map1 list_all2_map2
  proof (rule list.rel_refl_strong)
    fix p assume p: "p \<in> set ps"
    from assms(3)[OF this] obtain rel h where rel: "f p = Some (Inr (rel, h))" "shaped p rel" "impl_variables rel = layout p"
      and den: "denotes (env_lattice E) (import_trace (env_ops E)) dm rel (m p)" unfolding implemented_as_def by blast
    with selects_supported[OF rel(2,3) assms(4)[OF p]]
    show "case (query_vars p, m p) of (V, m) \<Rightarrow> \<exists>rel h. the (f p) = Inr (rel, h) \<and>
      denotes (env_lattice E) (import_trace (env_ops E)) dm rel m \<and>
      set (impl_variables rel) = V \<and> impl_supports rel vs \<and> set vs \<subseteq> V" by auto
  qed
  from union_implement_denotes[OF laws assms(2) this] obtain rel' h' where
    out: "union_implement (env_ops E) dm vs (map (\<lambda>p. the (f p)) ps) = Inr (rel', h')" "impl_variables rel' = vs"
      "denotes (env_lattice E) (import_trace (env_ops E)) dm rel'
        (\<lambda>t \<sigma>. if (\<Sum>p \<leftarrow> ps. project_sum (query_vars p) vs (m p t) \<sigma>) > 0 then 1 else 0)"
    by (auto simp: o_def)
  have "r \<noteq> None" if "r \<in> set (map f ps)" for r using that assms(3) by (auto simp: implemented_as_def)
  then have run: "in_sequence (union_implement (env_ops E) dm vs) (map f ps) = Some (Inr (rel', h'))"
    using out(1) by (subst in_sequence_all) (blast, simp add: o_def)
  show ?thesis unfolding of_bool_def
    by (rule implemented_asI[OF run _ _ out(3)]) (use out(2) union_shape[OF out(1)] in auto)
qed

lemma hector_query:
  assumes "env_lattice E = total_ops b" and "runnable (env_imports E) dm R bs" and "2 \<le> length bs"
    and "vs \<noteq> []" and "distinct vs" and "set vs \<subseteq> set (all_variables bs)"
  shows "implemented_as E dm (hector_implement (env_lattice E) (env_imports E) dm vs bs) (Hector vs bs)
    (\<lambda>t \<sigma>. int (card (solutions R (fst t) bs vs \<sigma>)))"
proof -
  from hector_denotes[OF assms(2-6), of b "import_trace (env_ops E)"] obtain c h where
    run: "hector_implement (total_ops b) (env_imports E) dm vs bs = Some (Inr (collection_of vs c, h))"
    and den: "denotes (total_ops b) (import_trace (env_ops E)) dm (collection_of vs c)
      (\<lambda>t. project_sum (set (all_variables bs)) vs (\<lambda>\<rho>. of_bool (all_hold R False (fst t) bs \<rho>)))" by blast
  have meaning: "(\<lambda>t. project_sum (set (all_variables bs)) vs (\<lambda>\<rho>. of_bool (all_hold R False (fst t) bs \<rho>))) =
      (\<lambda>t \<sigma>. int (card (solutions R (fst t) bs vs \<sigma>)))"
    unfolding project_sum_count solutions_def by (rule refl)
  show ?thesis using run den unfolding assms(1)[symmetric] meaning by (intro implemented_asI) auto
qed

lemma pattern_query:
  assumes "forward_propose_of a dm \<noteq> None"
  shows "implemented_as E dm (Some (match_ea_implement (env_ops E) dm x a v)) (MatchEA x a v)
      (\<lambda>t \<sigma>. attribute_at (env_lattice E) (import_trace (env_ops E)) dm a (Eid x, \<sigma> v) (fst t))"
    and "implemented_as E dm (Some (match_av_implement (env_ops E) dm e a w)) (MatchAV e a w)
      (\<lambda>t \<sigma>. attribute_at (env_lattice E) (import_trace (env_ops E)) dm a (\<sigma> e, w) (fst t))"
  using match_ea_denotes[OF assms, of "env_ops E" x v "env_lattice E"] match_av_denotes[OF assms, of "env_ops E" e w "env_lattice E"]
  by (auto simp: implemented_as_def dest: match_shape)

lemma query_implemented:
  assumes total: "env_lattice E = total_ops b" and laws: "ops_laws (env_lattice E) (env_ops E)" and ok: "locals_ok ar locals"
  shows "wf_query E dm R ar p \<Longrightarrow> implemented_as E dm (plan_implement E dm locals p) p
    (\<lambda>t. meaning E dm R (local_totals E locals t) p (fst t))"
proof (induction p)
  case (MatchA e a v)
  then show ?case using match_a_denotes[of e v a dm "env_lattice E" "import_trace (env_ops E)"]
    by (auto simp: implemented_as_def match_a_implement_def)
next
  case (NameExpr syms name)
  then have "ar name = Some (length syms)" and syms: "distinct syms" by auto
  with ok obtain c where c: "map_of locals name = Some c" "wf_tuples syms c" unfolding locals_ok_def wf_tuples_records by blast
  note c = c(1) syms c(2)
  show ?case using name_expr_denotes[OF c] c(1) by (auto simp: implemented_as_def local_totals_def)
qed (simp_all add: project_query union_query[OF laws] join_query[OF laws] hector_query[OF total] antijoin_query[OF laws]
  negate_query filter_query pattern_query)

section \<open>Queries\<close>

text \<open>C2: \<^verbatim>\<open>Plan::implement\<close> computes the first-order meaning of a query. Take any nesting of projections, unions, joins,
  antijoins, negations, filters, data patterns, rule references and multi-way joins that is well formed: variables are
  bound where they are used, each join is on exactly the shared variables, and the multi-way joins are runnable.
  Over a totally ordered time, and for operators of differential dataflow that satisfy their laws, the implementation
  returns without panicking a relation over the query's variables. In it the tuple of a valuation has, at every time,
  the multiplicity with which the valuation satisfies the query: joins multiply, projections sum over the hidden
  variables, unions and antijoins are sets, and attributes and named relations are read at that time.\<close>

theorem query_denotes_meaning:
  assumes "env_lattice E = total_ops b" and "ops_laws (env_lattice E) (env_ops E)" and "locals_ok ar locals"
    and "wf_query E dm R ar p"
  shows "\<exists>rel h. plan_implement E dm locals p = Some (Inr (rel, h)) \<and> impl_variables rel = layout p \<and>
    wf_tuples (layout p) (impl_rows (import_trace (env_ops E)) dm rel) \<and>
    (\<forall>t r \<sigma>. total_at (nested_ops (env_lattice E)) (impl_rows (import_trace (env_ops E)) dm rel) (map \<sigma> (layout p)) (t, r) =
       meaning E dm R (local_totals E locals (t, r)) p t \<sigma>)"
proof -
  from query_implemented[OF assms] obtain rel h where
    rel: "plan_implement E dm locals p = Some (Inr (rel, h))" "impl_variables rel = layout p"
    and den: "denotes (env_lattice E) (import_trace (env_ops E)) dm rel (\<lambda>t. meaning E dm R (local_totals E locals t) p (fst t))"
    unfolding implemented_as_def by blast
  from rel denotes_wf[OF den] denotes_total[OF den] show ?thesis by (intro exI[of _ rel] exI[of _ h]) simp
qed

definition ref_env :: "u64 plan_env" where
  "ref_env = \<lparr> env_lattice = u64_ops, env_ops = ref_ops u64_ops, env_aggregates = ref_agg, env_imports = ref_imports,
     env_advance_by = (\<lambda>t frontier. fold max frontier t) \<rparr>"

lemma ref_env_simps:
  "env_lattice ref_env = u64_ops" "import_trace (env_ops ref_env) = contents" "ops_laws (env_lattice ref_env) (env_ops ref_env)"
  by (simp_all add: ref_env_def ref_ops_laws) (simp add: ref_ops_def)

definition triangle_query :: plan where
  "triangle_query = Filter [1] NEQ (Join [0, 1] (Hector [0, 1, 2] triangle) (MatchA 0 ''x'' 1)) [Some (Eid 7)]"

lemma triangle_x:
  "forward_propose_of ''x'' (full_domain u64_time triangle_data) = Some (arrange u64_time [((Eid 1, Eid 2), 0, 1)])"
  by (simp add: full_domain_def forward_propose_of_def triangle_data_def)

lemma triangle_query_wf: "wf_query ref_env (full_domain u64_time triangle_data) triangle_relation Map.empty triangle_query"
  using triangle_runnable triangle_variables
  by (auto simp: triangle_query_def ref_env_def triangle_x triangle_def join_layout_def patterns_join_def)

theorem query_denotes_meaning_witness:
  "\<exists>rel h. plan_implement ref_env (full_domain u64_time triangle_data) [] triangle_query = Some (Inr (rel, h)) \<and>
     (let total = total_at (nested_ops u64_ops) (impl_rows contents (full_domain u64_time triangle_data) rel)
        [Eid 1, Eid 2, Eid 3] in
      total (1, 0) = 0 \<and> total (2, 0) = 1)"
proof -
  let ?\<sigma> = "(\<lambda>_. Eid 0)(0 := Eid 1, 1 := Eid 2, 2 := Eid 3)" and ?dm = "full_domain u64_time triangle_data"
  have vars: "set [0, 1, 2] = set (all_variables triangle)" using triangle_variables by simp
  have "locals_ok Map.empty []" by (simp add: locals_ok_def)
  from query_denotes_meaning[OF ref_env_simps(1,3) this triangle_query_wf] obtain rel h where
    run: "plan_implement ref_env ?dm [] triangle_query = Some (Inr (rel, h))"
    and total: "\<And>t r \<sigma>. total_at (nested_ops u64_ops) (impl_rows contents ?dm rel) (map \<sigma> (layout triangle_query)) (t, r) =
      meaning ref_env ?dm triangle_relation (local_totals ref_env [] (t, r)) triangle_query t \<sigma>"
    unfolding ref_env_simps by blast
  have "all_hold triangle_relation False 2 triangle ?\<sigma>" "\<not> all_hold triangle_relation False 1 triangle ?\<sigma>"
    by (simp_all add: all_hold_def triangle_def binding_attribute_def triangle_relation_def triangle_data_def visible_def
        word_le_nat_alt)
  then have "meaning ref_env ?dm triangle_relation I triangle_query 1 ?\<sigma> = 0"
    "meaning ref_env ?dm triangle_relation I triangle_query 2 ?\<sigma> = 1" for I
    by (simp_all add: triangle_query_def solutions_full[OF vars] attribute_at_def triangle_x ref_env_simps arrange_def total_ops_def)
  moreover have "map ?\<sigma> (layout triangle_query) = [Eid 1, Eid 2, Eid 3]" by (simp add: triangle_query_def join_layout_def)
  ultimately show ?thesis using run total[of ?\<sigma> 1 0] total[of ?\<sigma> 2 0] by (simp add: Let_def)
qed

end
