(* ===== verification/Rules.thy ===== *)
theory Rules
  imports Queries
begin

text \<open>
  Rules, from \<^verbatim>\<open>src/src/lib.rs\<close>: \<^verbatim>\<open>collect_dependencies\<close> finds the rules that a query needs. The order in which a
  \<^verbatim>\<open>HashSet\<close> is iterated is a parameter, \<open>hash_order\<close>, that may reorder its elements. Identifiers that appear in error
  messages through \<^verbatim>\<open>Debug\<close> are quoted, without the escaping of special characters.
\<close>

section \<open>Rules and their dependencies\<close>

datatype rule = Rule (rule_name: aid) (rule_plan: plan)

definition rule_named :: "aid \<Rightarrow> plan \<Rightarrow> rule" where
  "rule_named name p = Rule name p"

definition q :: "var list \<Rightarrow> aid binding list \<Rightarrow> plan" where
  "q target_variables bs = Hector target_variables bs"

definition debug_aid :: "aid \<Rightarrow> string" where
  "debug_aid a = ''\"'' @ a @ ''\"''"

type_synonym ('t, 'pr) rule_domain = "('t, rule, 'pr) dom"

text \<open>The three loops of \<^verbatim>\<open>collect_dependencies\<close>: over the requested names, over the names a rule depends on, and over the
  attributes it depends on.\<close>

fun queue_names :: "('t, 'pr) rule_domain \<Rightarrow> aid list \<Rightarrow> aid list \<Rightarrow> rule list \<Rightarrow> error + aid list \<times> rule list" where
  "queue_names dm [] known queue = Inr (known, queue)"
| "queue_names dm (name # names) known queue =
     (case rule_of name dm of
        None \<Rightarrow> Inl (not_found (''Unknown rule '' @ name @ ''.''))
      | Some rule \<Rightarrow> queue_names dm names (List.insert name known) (queue @ [rule]))"

fun queue_dependencies :: "('t, 'pr) rule_domain \<Rightarrow> aid list \<Rightarrow> aid list \<Rightarrow> rule list \<Rightarrow> error + aid list \<times> rule list" where
  "queue_dependencies dm [] known queue = Inr (known, queue)"
| "queue_dependencies dm (dep_name # names) known queue =
     (if dep_name \<in> set known then queue_dependencies dm names known queue
      else (case rule_of dep_name dm of
        None \<Rightarrow> Inl (not_found (''Unknown rule '' @ dep_name))
      | Some rule \<Rightarrow> queue_dependencies dm names (List.insert dep_name known) (queue @ [rule])))"

fun check_attributes :: "('t, 'pr) rule_domain \<Rightarrow> aid list \<Rightarrow> error + unit" where
  "check_attributes dm [] = Inr ()"
| "check_attributes dm (aid # aids) =
     (if has_attribute aid dm then check_attributes dm aids
      else Inl (not_found (''Rule '' @ debug_aid aid @ '' depends on unknown attribute'')))"

lemma queue_dependencies_grows:
  "queue_dependencies dm names known queue = Inr (known', queue') \<Longrightarrow>
     known' = known \<and> queue' = queue \<or>
     card (set (keys_of (rules dm)) - set known') < card (set (keys_of (rules dm)) - set known)"
proof (induction dm names known queue rule: queue_dependencies.induct)
  case (2 dm dep_name names known queue)
  show ?case
  proof (cases "dep_name \<in> set known")
    case False
    with "2.prems" obtain rl where rl: "rule_of dep_name dm = Some rl" by (auto split: option.splits)
    let ?K = "set (keys_of (rules dm))"
    have "dep_name \<in> ?K" using rl by (auto simp: rule_of_def dest!: map_of_SomeD intro: rev_image_eqI)
    then have less: "card (?K - set (List.insert dep_name known)) < card (?K - set known)"
      using False by (intro psubset_card_mono) auto
    from "2.IH"(2)[OF False rl] "2.prems" False rl less show ?thesis by auto
  qed (use 2 in auto)
qed auto

function process_queue ::
  "(aid list \<Rightarrow> aid list) \<Rightarrow> ('t, 'pr) rule_domain \<Rightarrow> aid list \<Rightarrow> rule list \<Rightarrow> rule list \<Rightarrow> error + rule list" where
  "process_queue hash_order dm known [] collected = Inr collected"
| "process_queue hash_order dm known (next # queue) collected =
     (let dependencies = plan_dependencies (rule_plan next) in
      case queue_dependencies dm (hash_order (dep_names dependencies)) known queue of
        Inl e \<Rightarrow> Inl e
      | Inr (known', queue') \<Rightarrow>
          (case check_attributes dm (hash_order (dep_attributes dependencies)) of
             Inl e \<Rightarrow> Inl e
           | Inr _ \<Rightarrow> process_queue hash_order dm known' queue' (collected @ [next])))"
  by pat_completeness auto

termination
proof (relation "measures [\<lambda>(_, dm, known, _, _). card (set (keys_of (rules dm)) - set known), \<lambda>(_, _, _, queue, _). length queue]")
qed (auto dest!: queue_dependencies_grows)

definition collect_dependencies ::
  "(aid list \<Rightarrow> aid list) \<Rightarrow> ('t, 'pr) rule_domain \<Rightarrow> aid list \<Rightarrow> error + rule list" where
  "collect_dependencies hash_order dm names =
     (case queue_names dm names [] [] of
        Inl e \<Rightarrow> Inl e
      | Inr (known, queue) \<Rightarrow> process_queue hash_order dm known queue [])"

section \<open>The rules a query needs\<close>

inductive_set needed :: "('t, 'pr) rule_domain \<Rightarrow> aid list \<Rightarrow> aid set" for dm names where
  requested: "name \<in> set names \<Longrightarrow> name \<in> needed dm names"
| used: "name \<in> needed dm names \<Longrightarrow> rule_of name dm = Some rl \<Longrightarrow> dep \<in> mentioned_names (rule_plan rl) \<Longrightarrow>
    dep \<in> needed dm names"

definition rules_keyed :: "('t, 'pr) rule_domain \<Rightarrow> bool" where
  "rules_keyed dm \<longleftrightarrow> (\<forall>name rl. rule_of name dm = Some rl \<longrightarrow> rule_name rl = name)"

definition missing :: "('t, 'pr) rule_domain \<Rightarrow> aid \<Rightarrow> bool" where
  "missing dm name \<longleftrightarrow>
     (case rule_of name dm of
        None \<Rightarrow> True
      | Some rl \<Rightarrow> \<exists>a \<in> mentioned_attributes (rule_plan rl). \<not> has_attribute a dm)"

abbreviation is_not_found :: "error \<Rightarrow> bool" where
  "is_not_found e \<equiv> category e = ''df.error.category/not-found''"

text \<open>The loop state: every name seen is queued or done, both lists hold the domain's rules, and what the done rules use
  has been seen.\<close>

definition collecting :: "('t, 'pr) rule_domain \<Rightarrow> aid list \<Rightarrow> aid list \<Rightarrow> rule list \<Rightarrow> rule list \<Rightarrow> bool" where
  "collecting dm names known queue rs \<longleftrightarrow>
     set names \<subseteq> set known \<and> set known \<subseteq> needed dm names \<and> set (map rule_name (rs @ queue)) = set known \<and>
     (\<forall>rl \<in> set (rs @ queue). rule_of (rule_name rl) dm = Some rl) \<and>
     (\<forall>rl \<in> set rs. mentioned_names (rule_plan rl) \<subseteq> set known \<and> \<not> missing dm (rule_name rl)) \<and>
     (distinct names \<longrightarrow> distinct (map rule_name (rs @ queue)))"

lemma queue_names_spec:
  assumes "rules_keyed dm"
  shows "case queue_names dm names known queue of
      Inl e \<Rightarrow> is_not_found e \<and> (\<exists>name \<in> set names. rule_of name dm = None)
    | Inr (known', queue') \<Rightarrow> set known' = set known \<union> set names \<and>
        (\<exists>new. queue' = queue @ new \<and> map rule_name new = names \<and> (\<forall>rl \<in> set new. rule_of (rule_name rl) dm = Some rl))"
proof (induction names arbitrary: known queue)
  case (Cons name names)
  show ?case
  proof (cases "rule_of name dm")
    case (Some rl)
    with assms have "rule_name rl = name" by (simp add: rules_keyed_def)
    with Cons[of "List.insert name known" "queue @ [rl]"] Some show ?thesis by (fastforce split: sum.splits)
  qed (simp add: not_found_def)
qed simp

lemma queue_dependencies_spec:
  assumes keyed: "rules_keyed dm"
  shows "case queue_dependencies dm deps known queue of
      Inl e \<Rightarrow> is_not_found e \<and> (\<exists>name \<in> set deps. rule_of name dm = None)
    | Inr (known', queue') \<Rightarrow> set known' = set known \<union> set deps \<and>
        (\<exists>new. queue' = queue @ new \<and> set (map rule_name new) = set deps - set known \<and> distinct (map rule_name new) \<and>
           (\<forall>rl \<in> set new. rule_of (rule_name rl) dm = Some rl))"
proof (induction deps arbitrary: known queue)
  case (Cons dep deps)
  show ?case
  proof (cases "dep \<in> set known")
    case True
    with Cons[of known queue] show ?thesis by (auto split: sum.splits prod.splits)
  next
    case unseen: False
    show ?thesis
    proof (cases "rule_of dep dm")
      case (Some rl)
      with keyed have name: "rule_name rl = dep" by (simp add: rules_keyed_def)
      show ?thesis
      proof (cases "queue_dependencies dm deps (List.insert dep known) (queue @ [rl])")
        case (Inl e)
        with Cons[of "List.insert dep known" "queue @ [rl]"] Some unseen show ?thesis by auto
      next
        case (Inr sq)
        with Cons[of "List.insert dep known" "queue @ [rl]"] obtain known' new where
          sq: "sq = (known', (queue @ [rl]) @ new)" "set known' = set (List.insert dep known) \<union> set deps"
          "set (map rule_name new) = set deps - set (List.insert dep known)" "distinct (map rule_name new)"
          "\<forall>rl \<in> set new. rule_of (rule_name rl) dm = Some rl" by auto
        have "dep \<notin> set (map rule_name new)" unfolding sq(3) by simp
        then show ?thesis using Inr sq Some unseen name by (auto intro!: exI[of _ "rl # new"])
      qed
    qed (use unseen in \<open>simp add: not_found_def\<close>)
  qed
qed simp

lemma check_attributes_spec:
  "case check_attributes dm aids of
     Inl e \<Rightarrow> is_not_found e \<and> (\<exists>a \<in> set aids. \<not> has_attribute a dm)
   | Inr _ \<Rightarrow> \<forall>a \<in> set aids. has_attribute a dm"
  by (induction dm aids rule: check_attributes.induct) (auto simp: not_found_def split: sum.splits)

lemma collecting_step:
  assumes keyed: "rules_keyed dm" and inv: "collecting dm names known (rl # queue) rs"
    and deps: "set ds = mentioned_names (rule_plan rl)" and run: "queue_dependencies dm ds known queue = Inr (known', queue')"
    and attrs: "\<forall>a \<in> mentioned_attributes (rule_plan rl). has_attribute a dm"
  shows "collecting dm names known' queue' (rs @ [rl])"
proof -
  from queue_dependencies_spec[OF keyed, of ds known queue] run obtain new where
    new: "set known' = set known \<union> set ds" "queue' = queue @ new" "set (map rule_name new) = set ds - set known"
    "distinct (map rule_name new)" "\<forall>r \<in> set new. rule_of (rule_name r) dm = Some r" by auto
  from inv have rl: "rule_of (rule_name rl) dm = Some rl" "rule_name rl \<in> needed dm names"
    and known: "set (map rule_name (rs @ rl # queue)) = set known" by (auto simp: collecting_def)
  have "set ds \<subseteq> needed dm names" using needed.used[OF rl(2,1)] deps by blast
  moreover have "\<not> missing dm (rule_name rl)" using attrs rl(1) by (simp add: missing_def)
  moreover have "set (map rule_name new) \<inter> set (map rule_name (rs @ rl # queue)) = {}" unfolding new(3) known by blast
  ultimately show ?thesis using inv new deps unfolding collecting_def by auto
qed

lemma process_queue_spec:
  assumes "rules_keyed dm" and "\<And>xs. set (hash_order xs) = set xs"
  shows "collecting dm names known queue rs \<Longrightarrow>
    (case process_queue hash_order dm known queue rs of
       Inl e \<Rightarrow> is_not_found e \<and> (\<exists>name \<in> needed dm names. missing dm name)
     | Inr out \<Rightarrow> \<exists>known. collecting dm names known [] out)"
  using assms
proof (induction hash_order dm known queue rs rule: process_queue.induct)
  case (2 hash_order dm known rl queue rs)
  let ?ds = "hash_order (dep_names (plan_dependencies (rule_plan rl)))"
    and ?as = "hash_order (dep_attributes (plan_dependencies (rule_plan rl)))"
  have sets: "set ?ds = mentioned_names (rule_plan rl)" "set ?as = mentioned_attributes (rule_plan rl)"
    using "2.prems"(3) plan_dependencies_mentioned by auto
  from "2.prems"(1) have rl: "rule_of (rule_name rl) dm = Some rl" "rule_name rl \<in> needed dm names"
    by (auto simp: collecting_def)
  show ?case
  proof (cases "queue_dependencies dm ?ds known queue")
    case (Inl e)
    with queue_dependencies_spec[OF "2.prems"(2), of ?ds known queue] obtain dep where
      "is_not_found e" "dep \<in> mentioned_names (rule_plan rl)" "rule_of dep dm = None" using sets by auto
    moreover from this have "dep \<in> needed dm names" "missing dm dep" using needed.used[OF rl(2,1)] by (auto simp: missing_def)
    ultimately show ?thesis using Inl by auto
  next
    case (Inr kq)
    obtain known' queue' where kq: "kq = (known', queue')" by fastforce
    show ?thesis
    proof (cases "check_attributes dm ?as")
      case (Inl e)
      with check_attributes_spec[where dm = dm and aids = ?as] sets rl(1) have "is_not_found e" "missing dm (rule_name rl)"
        by (auto simp: missing_def)
      then show ?thesis using Inl Inr kq rl(2) by auto
    next
      case ok: (Inr u)
      with check_attributes_spec[where dm = dm and aids = ?as] sets have "\<forall>a \<in> mentioned_attributes (rule_plan rl). has_attribute a dm" by auto
      from collecting_step[OF "2.prems"(2,1) sets(1) Inr[unfolded kq] this]
      show ?thesis using "2.IH"[OF refl Inr kq[symmetric] ok _ "2.prems"(2,3)] Inr kq ok by (simp add: Let_def)
    qed
  qed
qed auto

lemma collect_dependencies_spec:
  assumes "rules_keyed dm" and "\<And>xs. set (hash_order xs) = set xs"
  shows "case collect_dependencies hash_order dm names of
      Inl e \<Rightarrow> is_not_found e \<and> (\<exists>name \<in> needed dm names. missing dm name)
    | Inr out \<Rightarrow> set (map rule_name out) = needed dm names \<and> (\<forall>rl \<in> set out. rule_of (rule_name rl) dm = Some rl) \<and>
        (\<forall>name \<in> needed dm names. \<not> missing dm name) \<and> (distinct names \<longrightarrow> distinct (map rule_name out))"
proof (cases "queue_names dm names [] []")
  case (Inl e)
  with queue_names_spec[OF assms(1), of names "[]" "[]"] obtain name where
    "is_not_found e" "name \<in> set names" "rule_of name dm = None" by auto
  then show ?thesis using Inl needed.requested[of name names dm]
    by (auto simp: collect_dependencies_def missing_def intro!: bexI[of _ name])
next
  case (Inr kq)
  with queue_names_spec[OF assms(1), of names "[]" "[]"] obtain known queue where
    kq: "kq = (known, queue)" "set known = set names" "map rule_name queue = names"
    "\<forall>rl \<in> set queue. rule_of (rule_name rl) dm = Some rl" by auto
  have "collecting dm names known queue []"
    using kq needed.requested[of _ names dm] by (auto simp: collecting_def simp flip: set_map)
  note spec = process_queue_spec[OF assms this]
  have run: "collect_dependencies hash_order dm names = process_queue hash_order dm known queue []"
    by (simp add: collect_dependencies_def Inr kq(1))
  show ?thesis
  proof (cases "process_queue hash_order dm known queue []")
    case (Inr out)
    with spec obtain known' where inv: "collecting dm names known' [] out" by auto
    have "name \<in> set known'" if "name \<in> needed dm names" for name
      using that
    proof induction
      case (used name rl dep)
      have "set known' = rule_name ` set out" using inv unfolding collecting_def by simp
      then have "name \<in> rule_name ` set out" using used.IH by simp
      then obtain rl' where rl': "rl' \<in> set out" "rule_name rl' = name" by (rule imageE) simp
      with inv used.hyps(2) have "rl' = rl" unfolding collecting_def by (metis append_Nil2 option.inject)
      with rl'(1) inv used.hyps(3) show ?case unfolding collecting_def by blast
    qed (use inv in \<open>auto simp: collecting_def\<close>)
    then have known: "set known' = needed dm names" using inv by (auto simp: collecting_def)
    then have names: "set (map rule_name out) = needed dm names" using inv unfolding collecting_def by simp
    then have "\<not> missing dm name" if "name \<in> needed dm names" for name
      using inv that unfolding collecting_def by (metis (no_types) imageE set_map)
    with names inv show ?thesis using Inr run unfolding collecting_def by simp
  qed (use spec run in simp)
qed

text \<open>C6: \<^verbatim>\<open>collect_dependencies\<close> returns exactly the rules that the requested names need, directly or through other rules,
  each as registered in the domain, and each once if the names are distinct. It always terminates, also for recursive
  rules, and whatever the order in which hash sets are iterated. It fails, with a not-found error, exactly when some
  needed rule is not registered or depends on an attribute that does not exist.\<close>

theorem collect_dependencies_exact:
  assumes "rules_keyed dm" and "\<And>xs. set (hash_order xs) = set xs"
  shows "(case collect_dependencies hash_order dm names of
      Inl e \<Rightarrow> category e = ''df.error.category/not-found''
    | Inr out \<Rightarrow> set (map rule_name out) = needed dm names \<and> (\<forall>rl \<in> set out. rule_of (rule_name rl) dm = Some rl) \<and>
        (distinct names \<longrightarrow> distinct (map rule_name out))) \<and>
    ((\<exists>e. collect_dependencies hash_order dm names = Inl e) \<longleftrightarrow> (\<exists>name \<in> needed dm names. missing dm name))"
  using collect_dependencies_spec[OF assms, of names] by (cases "collect_dependencies hash_order dm names") auto

definition ancestor_plan :: plan where
  "ancestor_plan = Union [0, 2] [MatchA 0 ''parent'' 2,
     Project [0, 2] (Join [1] (MatchA 0 ''parent'' 1) (NameExpr [1, 2] ''ancestor''))]"

definition family_domain :: "(u64, unit) rule_domain" where
  "family_domain = (domain_new u64_time () 0) \<lparr> attributes := [(''parent'', tx_time Raw)],
     rules := [(''ancestor'', Rule ''ancestor'' ancestor_plan),
       (''cousin'', Rule ''cousin'' (Join [0] (NameExpr [0, 1] ''ancestor'') (NameExpr [0, 2] ''ancestor''))),
       (''broken'', Rule ''broken'' (NameExpr [0] ''unknown''))] \<rparr>"

lemma family_keyed: "rules_keyed family_domain"
  by (simp add: rules_keyed_def family_domain_def rule_of_def)

lemma family_collected:
  "collect_dependencies rev family_domain [''cousin''] =
     Inr [Rule ''cousin'' (Join [0] (NameExpr [0, 1] ''ancestor'') (NameExpr [0, 2] ''ancestor'')), Rule ''ancestor'' ancestor_plan]"
  "collect_dependencies rev family_domain [''broken''] = Inl (not_found ''Unknown rule unknown'')"
  by code_simp+

theorem collect_dependencies_exact_witness:
  "needed family_domain [''cousin''] = {''ancestor'', ''cousin''} \<and>
   (\<exists>name \<in> needed family_domain [''broken'']. missing family_domain name)"
  using collect_dependencies_exact[OF family_keyed, of rev "[''cousin'']"]
    collect_dependencies_exact[OF family_keyed, of rev "[''broken'']"] by (auto simp: family_collected)

end
