(* ===== verification/Implementation.thy ===== *)
theory Implementation
  imports Rules
begin

text \<open>
  Implementing a query with the rules it needs, from \<^verbatim>\<open>implement\<close> and \<^verbatim>\<open>implement_neu\<close> in \<^verbatim>\<open>src/src/lib.rs\<close>. Every rule is a
  recursive \<^verbatim>\<open>Variable\<close> of differential dataflow. What the variables hold is a parameter of the construction, \<open>held\<close>; the
  construction returns what each variable is set to. Differential dataflow ties the knot: a variable holds at iteration
  \<open>r + 1\<close> what it was set to at iteration \<open>r\<close>, and nothing at iteration 0.

  The main theorem is that the published relation is the one that naive evaluation of the rules reaches.
\<close>

section \<open>Construction\<close>

record 't implementation =
  result_map :: "(aid, (tuple, 't) collection) hash_map"
  query_handle :: handle
  definitions :: "(aid \<times> 't tuples) list"
  next_sym :: u64

type_synonym ('a) built = "(error + 'a) run option"

definition leave :: "('d, 't nested) collection \<Rightarrow> ('d, 't) collection" where
  "leave c = coll_map_times fst c"

text \<open>Step 0: two neighbours of the sorted rules with the same name. The last pair is not compared.\<close>

definition duplicate_rule :: "rule list \<Rightarrow> error option" where
  "duplicate_rule rs =
     map_option (\<lambda>index. conflict (''Duplicate rule definitions for rule '' @ rule_name (rs ! index)))
       (List.find (\<lambda>index. rule_name (rs ! index) = rule_name (rs ! (index - 1))) [1..<length rs - 1])"

text \<open>Step 1 and 2: a variable per name, and the published relations.\<close>

definition create_variables :: "(aid \<Rightarrow> 't tuples) \<Rightarrow> aid list \<Rightarrow> 't local_arrangements" where
  "create_variables held names = fold (\<lambda>name locals. hm_insert name (held name) locals) names []"

fun publish_names ::
  "'t local_arrangements \<Rightarrow> aid list \<Rightarrow> (aid, (tuple, 't) collection) hash_map \<Rightarrow>
   error + (aid, (tuple, 't) collection) hash_map" where
  "publish_names locals [] results = Inr results"
| "publish_names locals (name # names) results =
     (case map_of locals name of
        Some relation \<Rightarrow> publish_names locals names (hm_insert name (leave relation) results)
      | None \<Rightarrow> Inl (not_found (''Attempted to publish undefined name '' @ name @ ''.'')))"

text \<open>Step 3: the rules are planned one after the other; the counter behind \<^verbatim>\<open>gensym\<close> is threaded through.\<close>

fun execute_rules ::
  "(rule \<Rightarrow> u64 \<Rightarrow> 't relation run option \<times> u64) \<Rightarrow> rule list \<Rightarrow> u64 \<Rightarrow> handle \<Rightarrow>
   ('t implemented list \<times> handle \<times> u64) run option" where
  "execute_rules plan_rule [] ctr shutdown_handle = Some (Inr ([], shutdown_handle, ctr))"
| "execute_rules plan_rule (rl # rs) ctr shutdown_handle =
     (case plan_rule rl ctr of
        (None, _) \<Rightarrow> None
      | (Some (Inl msg), _) \<Rightarrow> Some (Inl msg)
      | (Some (Inr (relation, shutdown)), ctr') \<Rightarrow>
          and_then (execute_rules plan_rule rs ctr' (merge_with shutdown_handle shutdown))
            (\<lambda>(executions, rest). Inr (relation # executions, rest)))"

text \<open>Step 4: every variable is set to the consolidated tuples of its rule. \<open>consolidate\<close> belongs to differential dataflow.\<close>

fun complete_rules ::
  "('t tuples \<Rightarrow> 't tuples) \<Rightarrow> 't import \<Rightarrow> ('t, 'pr) rule_domain \<Rightarrow> (rule \<times> 't implemented) list \<Rightarrow>
   't local_arrangements \<Rightarrow> handle \<Rightarrow> (error + (aid \<times> 't tuples) list \<times> handle) run" where
  "complete_rules consolidate imp dm [] locals shutdown_handle = Inr (Inr ([], shutdown_handle))"
| "complete_rules consolidate imp dm ((rl, execution) # rest) locals shutdown_handle =
     (case map_of locals (rule_name rl) of
        None \<Rightarrow> Inr (Inl (not_found (''Rule '' @ debug_aid (rule_name rl) @ '' should be in local arrangements, but isn't.'')))
      | Some variable \<Rightarrow>
          run_bind (impl_tuples imp dm execution) (\<lambda>(tuples, shutdown).
          run_bind (complete_rules consolidate imp dm rest (hm_remove (rule_name rl) locals)
              (merge_with shutdown_handle shutdown)) (\<lambda>result.
            Inr (map_sum id (\<lambda>(sets, shutdown_handle'). ((rule_name rl, consolidate tuples) # sets, shutdown_handle')) result))))"

text \<open>The steps of both functions; they differ in the names that get a variable and in the plan of a rule.\<close>

definition implement_with ::
  "('t tuples \<Rightarrow> 't tuples) \<Rightarrow> 't import \<Rightarrow> (aid list \<Rightarrow> aid list) \<Rightarrow> (aid \<Rightarrow> 't tuples) \<Rightarrow> (rule list \<Rightarrow> aid list) \<Rightarrow>
   ('t local_arrangements \<Rightarrow> rule \<Rightarrow> u64 \<Rightarrow> 't relation run option \<times> u64) \<Rightarrow> ('t, 'pr) rule_domain \<Rightarrow> aid \<Rightarrow> u64 \<Rightarrow>
   't implementation built" where
  "implement_with consolidate imp hash_order held variable_names plan_rule dm name ctr =
     (case collect_dependencies hash_order dm [name] of
        Inl e \<Rightarrow> Some (Inr (Inl e))
      | Inr collected \<Rightarrow>
          if collected = [] then Some (Inr (Inl (not_found (''Couldn't find any rules for name '' @ name @ ''.''))))
          else (let rs = sort_key rule_name collected in
            case duplicate_rule rs of
              Some e \<Rightarrow> Some (Inr (Inl e))
            | None \<Rightarrow> (let locals = create_variables held (variable_names rs) in
                case publish_names locals [name] [] of
                  Inl e \<Rightarrow> Some (Inr (Inl e))
                | Inr results \<Rightarrow>
                    and_then (execute_rules (plan_rule locals) rs ctr handle_empty) (\<lambda>(executions, shutdown_handle, ctr').
                    run_bind (complete_rules consolidate imp dm (zip rs executions) locals shutdown_handle)
                      (\<lambda>result. Inr (map_sum id (\<lambda>(sets, shutdown_handle').
                         \<lparr> result_map = results, query_handle = shutdown_handle', definitions = sets, next_sym = ctr' \<rparr>)
                         result))))))"

definition implement ::
  "'t plan_env \<Rightarrow> ('t tuples \<Rightarrow> 't tuples) \<Rightarrow> (aid list \<Rightarrow> aid list) \<Rightarrow> (aid \<Rightarrow> 't tuples) \<Rightarrow> ('t, 'pr) rule_domain \<Rightarrow>
   aid \<Rightarrow> u64 \<Rightarrow> 't implementation built" where
  "implement E consolidate hash_order held dm name ctr =
     implement_with consolidate (import_trace (env_ops E)) hash_order held (map rule_name)
       (\<lambda>locals rl ctr. (plan_implement E dm locals (rule_plan rl), ctr)) dm name ctr"

definition implement_neu ::
  "'t plan_env \<Rightarrow> ('t tuples \<Rightarrow> 't tuples) \<Rightarrow> (aid list \<Rightarrow> aid list) \<Rightarrow> (aid \<Rightarrow> 't tuples) \<Rightarrow> ('t, 'pr) rule_domain \<Rightarrow>
   aid \<Rightarrow> u64 \<Rightarrow> 't implementation built" where
  "implement_neu E consolidate hash_order held dm name ctr =
     implement_with consolidate (import_trace (env_ops E)) hash_order held (\<lambda>rs. [name])
       (\<lambda>locals rl ctr.
          (case into_bindings (rule_plan rl) ctr of
             (Inl msg, ctr') \<Rightarrow> (Some (Inl msg), ctr')
           | (Inr bs, ctr') \<Rightarrow> (plan_implement E dm locals (q (plan_variables (rule_plan rl)) bs), ctr'))) dm name ctr"

section \<open>Naive evaluation\<close>

text \<open>How often a tuple is in the relation of a rule after some rounds of applying all rules to what the round before
  has computed, starting with empty relations.\<close>

primrec rounds ::
  "'t::linorder plan_env \<Rightarrow> ('t, 'pr) rule_domain \<Rightarrow> (aid \<Rightarrow> (df_value \<times> df_value, 't) collection) \<Rightarrow> nat \<Rightarrow> 't \<Rightarrow>
   aid \<Rightarrow> tuple \<Rightarrow> int" where
  "rounds E dm R 0 = (\<lambda>t name tup. 0)"
| "rounds E dm R (Suc k) = (\<lambda>t name tup.
     case rule_of name dm of
       None \<Rightarrow> 0
     | Some rl \<Rightarrow> if length tup = length (layout (rule_plan rl))
         then meaning E dm R (rounds E dm R k t) (rule_plan rl) t (restrict_to (layout (rule_plan rl)) tup) else 0)"

definition arities :: "('t, 'pr) rule_domain \<Rightarrow> aid set \<Rightarrow> aid \<Rightarrow> nat option" where
  "arities dm N name = (if name \<in> N then map_option (\<lambda>rl. length (layout (rule_plan rl))) (rule_of name dm) else None)"

text \<open>Every rule that the query needs is a well-formed query over existing attributes.\<close>

definition wf_rules ::
  "'t::linorder plan_env \<Rightarrow> ('t, 'pr) rule_domain \<Rightarrow> (aid \<Rightarrow> (df_value \<times> df_value, 't) collection) \<Rightarrow> aid \<Rightarrow> bool" where
  "wf_rules E dm R name \<longleftrightarrow> rules_keyed dm \<and>
     (\<forall>n \<in> needed dm [name]. \<not> missing dm n \<and>
        (\<forall>rl. rule_of n dm = Some rl \<longrightarrow> wf_query E dm R (arities dm (needed dm [name])) (rule_plan rl)))"

definition held_ok :: "('t, 'pr) rule_domain \<Rightarrow> (aid \<Rightarrow> 't tuples) \<Rightarrow> bool" where
  "held_ok dm held \<longleftrightarrow>
     (\<forall>n rl. rule_of n dm = Some rl \<longrightarrow> (\<forall>tup \<in> fst ` set (held n). length tup = length (layout (rule_plan rl))))"

text \<open>What differential dataflow promises of consolidation and of a variable that is fed back with step 1.\<close>

definition consolidates :: "'t lattice_ops \<Rightarrow> ('t tuples \<Rightarrow> 't tuples) \<Rightarrow> bool" where
  "consolidates L consolidate \<longleftrightarrow>
     (\<forall>c tup t. total_at (nested_ops L) (consolidate c) tup t = total_at (nested_ops L) c tup t)"

definition fed_back :: "'t lattice_ops \<Rightarrow> (aid \<Rightarrow> 't tuples) \<Rightarrow> (aid \<times> 't tuples) list \<Rightarrow> bool" where
  "fed_back L held sets \<longleftrightarrow>
     (\<forall>(name, c) \<in> set sets. \<forall>tup t r. total_at (nested_ops L) (held name) tup (t, r) =
        (if r = 0 then 0 else total_at (nested_ops L) c tup (t, r - 1)))"

lemma meaning_cong:
  "(\<And>name. name \<in> mentioned_names p \<Longrightarrow> I name = I' name) \<Longrightarrow> meaning E dm R I p = meaning E dm R I' p"
proof (induction p)
  case (Union vs ps)
  then have "meaning E dm R I p = meaning E dm R I' p" if "p \<in> set ps" for p using that by auto
  then show ?case by (simp cong: map_cong)
next
  case (Filter vs predicate p constants)
  then have "meaning E dm R I p = meaning E dm R I' p" by simp
  then show ?case by (simp only: meaning.simps)
qed simp_all

lemma total_leave_iteration:
  "total_at (total_ops b) (leave c) x t = total_at (nested_ops (total_ops b)) c x (t, - 1)"
  by (induction c) (auto simp: leave_def coll_map_times_def nested_ops_def)

lemma create_variables_get: "map_of (create_variables held names) name = (if name \<in> set names then Some (held name) else None)"
proof -
  have "map_of (fold (\<lambda>name locals. hm_insert name (held name) locals) names m) name =
      (if name \<in> set names then Some (held name) else map_of m name)" for m
    by (induction names arbitrary: m) auto
  then show ?thesis by (simp add: create_variables_def)
qed

lemma duplicate_rule_None:
  assumes "distinct (map rule_name rs)"
  shows "duplicate_rule rs = None"
proof -
  have "rule_name (rs ! i) \<noteq> rule_name (rs ! (i - 1))" if "1 \<le> i" "i < length rs - 1" for i
    using nth_eq_iff_index_eq[OF assms, of i "i - 1"] that by simp
  then show ?thesis by (auto simp: duplicate_rule_def find_None_iff)
qed

section \<open>Implementation of all rules\<close>

definition row_totals ::
  "'t::linorder plan_env \<Rightarrow> ('t, 'pr) rule_domain \<Rightarrow> (aid \<Rightarrow> (df_value \<times> df_value, 't) collection) \<Rightarrow> 't local_arrangements \<Rightarrow>
   rule \<Rightarrow> 't implemented \<Rightarrow> bool" where
  "row_totals E dm R locals rl rel \<longleftrightarrow> impl_ok (import_trace (env_ops E)) dm rel \<and>
     (\<forall>t r tup. total_at (nested_ops (env_lattice E)) (impl_rows (import_trace (env_ops E)) dm rel) tup (t, r) =
        (if length tup = length (layout (rule_plan rl))
         then meaning E dm R (local_totals E locals (t, r)) (rule_plan rl) t (restrict_to (layout (rule_plan rl)) tup) else 0))"

lemma rule_row_totals:
  assumes "env_lattice E = total_ops b" and "ops_laws (env_lattice E) (env_ops E)" and "locals_ok ar locals"
    and "wf_query E dm R ar (rule_plan rl)"
  shows "\<exists>rel h. plan_implement E dm locals (rule_plan rl) = Some (Inr (rel, h)) \<and> row_totals E dm R locals rl rel"
proof -
  let ?L = "env_lattice E" and ?imp = "import_trace (env_ops E)" and ?p = "rule_plan rl"
  from query_implemented[OF assms] obtain rel h where
    rel: "plan_implement E dm locals ?p = Some (Inr (rel, h))" "impl_variables rel = layout ?p"
    and den: "denotes ?L ?imp dm rel (\<lambda>t. meaning E dm R (local_totals E locals t) ?p (fst t))"
    unfolding implemented_as_def by blast
  from denotes_wf[OF den] rel(2) have wf: "wf_tuples (layout ?p) (impl_rows ?imp dm rel)" "distinct (layout ?p)" by auto
  have "total_at (nested_ops ?L) (impl_rows ?imp dm rel) tup (t, r) = (if length tup = length (layout ?p)
      then meaning E dm R (local_totals E locals (t, r)) ?p t (restrict_to (layout ?p) tup) else 0)" for tup t r
  proof (cases "length tup = length (layout ?p)")
    case True
    with denotes_total[OF den, of "restrict_to (layout ?p) tup" "(t, r)"] rel(2) map_restrict_to[OF wf(2) True]
    show ?thesis by simp
  next
    case False
    then have "tup \<notin> fst ` set (impl_rows ?imp dm rel)" using wf_tuples_length[OF wf(1)] by blast
    with total_absent False show ?thesis by simp
  qed
  with rel(1) denotes_ok[OF den] show ?thesis unfolding row_totals_def by blast
qed

lemma execute_rules_returns:
  assumes "\<And>rl. rl \<in> set rs \<Longrightarrow> \<exists>rel h. f rl = Some (Inr (rel, h)) \<and> P rl rel"
  shows "\<exists>rels h'. execute_rules (\<lambda>rl ctr. (f rl, ctr)) rs ctr h = Some (Inr (rels, h', ctr)) \<and> list_all2 P rs rels"
  using assms
proof (induction rs arbitrary: h)
  case (Cons rl rs)
  from Cons.prems[of rl] obtain rel h1 where rel: "f rl = Some (Inr (rel, h1))" "P rl rel" by auto
  from Cons.IH[of "merge_with h h1"] Cons.prems obtain rels h' where
    "execute_rules (\<lambda>rl ctr. (f rl, ctr)) rs ctr (merge_with h h1) = Some (Inr (rels, h', ctr))" "list_all2 P rs rels"
    by auto
  with rel show ?case by (auto simp: and_then_def)
qed simp

lemma complete_rules_returns:
  assumes "list_all2 (\<lambda>rl rel. impl_ok imp dm rel) rs rels" and "distinct (map rule_name rs)"
    and "\<And>rl. rl \<in> set rs \<Longrightarrow> map_of locals (rule_name rl) \<noteq> None"
  shows "\<exists>h'. complete_rules consolidate imp dm (zip rs rels) locals h =
    Inr (Inr (map (\<lambda>(rl, rel). (rule_name rl, consolidate (impl_rows imp dm rel))) (zip rs rels), h'))"
  using assms
proof (induction rs rels arbitrary: locals h rule: list_all2_induct)
  case (Cons rl rs rel rels)
  from impl_tuples_rows[OF Cons.hyps(1)] obtain h1 where tup: "impl_tuples imp dm rel = Inr (impl_rows imp dm rel, h1)" by blast
  have "map_of (hm_remove (rule_name rl) locals) (rule_name rl') \<noteq> None" if "rl' \<in> set rs" for rl'
    using Cons.prems that by (auto simp: image_iff)
  with Cons.IH[of "hm_remove (rule_name rl) locals" "merge_with h h1"] Cons.prems(1) obtain h' where
    "complete_rules consolidate imp dm (zip rs rels) (hm_remove (rule_name rl) locals) (merge_with h h1) =
      Inr (Inr (map (\<lambda>(rl, rel). (rule_name rl, consolidate (impl_rows imp dm rel))) (zip rs rels), h'))" by auto
  with tup Cons.prems(2)[of rl] show ?case by auto
qed simp

lemma sorted_rules:
  "set (map rule_name (sort_key rule_name rs)) = set (map rule_name rs)"
  "distinct (map rule_name rs) \<Longrightarrow> distinct (map rule_name (sort_key rule_name rs))"
  by (simp_all add: distinct_map)

lemma implement_returns:
  assumes total: "env_lattice E = total_ops b" and laws: "ops_laws (env_lattice E) (env_ops E)"
    and order: "\<And>xs. set (hash_order xs) = set xs" and wf: "wf_rules E dm R name" and held: "held_ok dm held"
  shows "\<exists>rs rels h. implement E consolidate hash_order held dm name ctr = Some (Inr (Inr
      \<lparr> result_map = [(name, leave (held name))], query_handle = h,
        definitions = map (\<lambda>(rl, rel). (rule_name rl, consolidate (impl_rows (import_trace (env_ops E)) dm rel))) (zip rs rels),
        next_sym = ctr \<rparr>)) \<and>
    set (map rule_name rs) = needed dm [name] \<and> (\<forall>rl \<in> set rs. rule_of (rule_name rl) dm = Some rl) \<and>
    list_all2 (row_totals E dm R (create_variables held (map rule_name rs))) rs rels"
proof -
  let ?N = "needed dm [name]"
  from wf have keyed: "rules_keyed dm" and present: "\<forall>n \<in> ?N. \<not> missing dm n" unfolding wf_rules_def by auto
  from collect_dependencies_spec[OF keyed order, of "[name]"] present obtain collected where
    col: "collect_dependencies hash_order dm [name] = Inr collected" "set (map rule_name collected) = ?N"
      "\<forall>rl \<in> set collected. rule_of (rule_name rl) dm = Some rl" "distinct (map rule_name collected)"
    by (cases "collect_dependencies hash_order dm [name]") auto
  define rs where "rs = sort_key rule_name collected"
  have rs: "set (map rule_name rs) = ?N" "distinct (map rule_name rs)" "\<forall>rl \<in> set rs. rule_of (rule_name rl) dm = Some rl"
    using sorted_rules(1)[of collected] sorted_rules(2)[OF col(4)] col(2,3) unfolding rs_def by (simp_all del: set_map)
  let ?locals = "create_variables held (map rule_name rs)"
  have name: "name \<in> ?N" by (rule needed.requested) simp
  then have "collected \<noteq> []" using col(2) by auto
  have get: "map_of ?locals n = (if n \<in> ?N then Some (held n) else None)" for n
    unfolding create_variables_get rs(1) by (rule refl)
  have ok: "locals_ok (arities dm ?N) ?locals"
    using held unfolding locals_ok_def get held_ok_def arities_def by (auto split: if_splits)
  have "\<exists>rel h. plan_implement E dm ?locals (rule_plan rl) = Some (Inr (rel, h)) \<and> row_totals E dm R ?locals rl rel"
    if "rl \<in> set rs" for rl
  proof (rule rule_row_totals[OF total laws ok])
    have "rule_name rl \<in> ?N" using that unfolding rs(1)[symmetric] by simp
    with wf rs(3) that show "wf_query E dm R (arities dm ?N) (rule_plan rl)" unfolding wf_rules_def by blast
  qed
  from execute_rules_returns[of rs "\<lambda>rl. plan_implement E dm ?locals (rule_plan rl)", OF this, of ctr handle_empty]
  obtain rels h where ex: "execute_rules (\<lambda>rl ctr. (plan_implement E dm ?locals (rule_plan rl), ctr)) rs ctr handle_empty =
      Some (Inr (rels, h, ctr))" "list_all2 (row_totals E dm R ?locals) rs rels" by blast
  have "list_all2 (\<lambda>rl rel. impl_ok (import_trace (env_ops E)) dm rel) rs rels"
    by (rule list_all2_mono[OF ex(2)]) (simp add: row_totals_def)
  moreover have "map_of ?locals (rule_name rl) \<noteq> None" if "rl \<in> set rs" for rl
    using that unfolding get rs(1)[symmetric] by simp
  ultimately obtain h' where com: "complete_rules consolidate (import_trace (env_ops E)) dm (zip rs rels) ?locals h =
      Inr (Inr (map (\<lambda>(rl, rel). (rule_name rl, consolidate (impl_rows (import_trace (env_ops E)) dm rel))) (zip rs rels), h'))"
    using complete_rules_returns[OF _ rs(2)] by blast
  have "publish_names ?locals [name] [] = Inr [(name, leave (held name))]" using name by (simp add: get)
  then have "implement E consolidate hash_order held dm name ctr = Some (Inr (Inr
      \<lparr> result_map = [(name, leave (held name))], query_handle = h',
        definitions = map (\<lambda>(rl, rel). (rule_name rl, consolidate (impl_rows (import_trace (env_ops E)) dm rel))) (zip rs rels),
        next_sym = ctr \<rparr>))"
    using \<open>collected \<noteq> []\<close> duplicate_rule_None[OF rs(2)] ex(1) com
    by (simp add: implement_def implement_with_def col(1) and_then_def Let_def flip: rs_def)
  with rs(1,3) ex(2) show ?thesis by blast
qed

lemma zip_partner: "list_all2 P xs ys \<Longrightarrow> x \<in> set xs \<Longrightarrow> \<exists>y. (x, y) \<in> set (zip xs ys) \<and> P x y"
  by (induction xs ys rule: list_all2_induct) auto

lemma held_rounds:
  assumes cons: "consolidates (env_lattice E) consolidate"
    and names: "set (map rule_name rs) = N" "\<forall>rl \<in> set rs. rule_of (rule_name rl) dm = Some rl"
    and closed: "\<And>n rl. n \<in> N \<Longrightarrow> rule_of n dm = Some rl \<Longrightarrow> mentioned_names (rule_plan rl) \<subseteq> N"
    and rows: "list_all2 (row_totals E dm R (create_variables held (map rule_name rs))) rs rels"
    and fed: "fed_back (env_lattice E) held
      (map (\<lambda>(rl, rel). (rule_name rl, consolidate (impl_rows (import_trace (env_ops E)) dm rel))) (zip rs rels))"
  shows "n \<in> N \<Longrightarrow> total_at (nested_ops (env_lattice E)) (held n) tup (t, r) = rounds E dm R (unat r) t n tup"
proof (induction "unat r" arbitrary: r n tup)
  case 0
  then have "r = 0" by (simp add: unat_eq_0)
  from 0(2) names(1) obtain rl where "rl \<in> set rs" "rule_name rl = n" by auto
  with zip_partner[OF rows] obtain rel where "(rl, rel) \<in> set (zip rs rels)" by blast
  with fed \<open>r = 0\<close> \<open>rule_name rl = n\<close> show ?case unfolding fed_back_def by fastforce
next
  case (Suc k)
  then have "r \<noteq> 0" by auto
  moreover from this Suc(2) have "unat (r - 1) = k" by (simp add: unat_minus_one)
  ultimately have r: "r \<noteq> 0" "unat (r - 1) = k" by simp_all
  from Suc(3) names(1) obtain rl where rl: "rl \<in> set rs" "rule_name rl = n" by auto
  with zip_partner[OF rows] obtain rel where
    rel: "(rl, rel) \<in> set (zip rs rels)" "row_totals E dm R (create_variables held (map rule_name rs)) rl rel" by blast
  have get: "rule_of n dm = Some rl" using names(2) rl by auto
  let ?I = "local_totals E (create_variables held (map rule_name rs)) (t, r - 1)"
  have "?I m = rounds E dm R k t m" if "m \<in> mentioned_names (rule_plan rl)" for m
  proof
    fix tup
    have "m \<in> N" using closed[OF Suc(3) get] that by blast
    from Suc(1)[OF r(2)[symmetric] this] \<open>m \<in> N\<close> show "?I m tup = rounds E dm R k t m tup"
      unfolding local_totals_def create_variables_get names(1) r(2) by simp
  qed
  then have mean: "meaning E dm R ?I (rule_plan rl) = meaning E dm R (rounds E dm R k t) (rule_plan rl)" by (rule meaning_cong)
  have "total_at (nested_ops (env_lattice E)) (held n) tup (t, r) =
      total_at (nested_ops (env_lattice E)) (impl_rows (import_trace (env_ops E)) dm rel) tup (t, r - 1)"
    using fed rel(1) rl(2) r(1) cons unfolding fed_back_def consolidates_def by fastforce
  also have "\<dots> = rounds E dm R (Suc k) t n tup" using rel(2) mean get unfolding row_totals_def by simp
  finally show ?case unfolding Suc(2) .
qed

lemma rounds_stable:
  assumes closed: "\<And>n rl. n \<in> N \<Longrightarrow> rule_of n dm = Some rl \<Longrightarrow> mentioned_names (rule_plan rl) \<subseteq> N"
    and stable: "\<forall>n \<in> N. rounds E dm R (Suc k) t n = rounds E dm R k t n" and "k \<le> j"
  shows "\<forall>n \<in> N. rounds E dm R j t n = rounds E dm R k t n"
  using \<open>k \<le> j\<close>
proof (induction j rule: dec_induct)
  case (step j)
  show ?case
  proof
    fix n assume n: "n \<in> N"
    have "meaning E dm R (rounds E dm R j t) (rule_plan rl) = meaning E dm R (rounds E dm R k t) (rule_plan rl)"
      if "rule_of n dm = Some rl" for rl
      by (rule meaning_cong) (use closed[OF n that] step.IH in blast)
    then have "rounds E dm R (Suc j) t n = rounds E dm R (Suc k) t n" by (intro ext) (simp split: option.split)
    with stable n show "rounds E dm R (Suc j) t n = rounds E dm R k t n" by simp
  qed
qed simp

lemma implement_rounds:
  assumes "env_lattice E = total_ops b" and "ops_laws (env_lattice E) (env_ops E)" and "consolidates (env_lattice E) consolidate"
    and "\<And>xs. set (hash_order xs) = set xs" and "wf_rules E dm R name" and "held_ok dm held"
  shows "\<exists>h sets. implement E consolidate hash_order held dm name ctr = Some (Inr (Inr
      \<lparr> result_map = [(name, leave (held name))], query_handle = h, definitions = sets, next_sym = ctr \<rparr>)) \<and>
    set (map fst sets) = needed dm [name] \<and>
    (fed_back (env_lattice E) held sets \<longrightarrow>
       (\<forall>t tup. total_at (env_lattice E) (leave (held name)) tup t = rounds E dm R (2 ^ 64 - 1) t name tup) \<and>
       (\<forall>k t tup. k < 2 ^ 64 \<and> (\<forall>n \<in> needed dm [name]. rounds E dm R (Suc k) t n = rounds E dm R k t n) \<longrightarrow>
          total_at (env_lattice E) (leave (held name)) tup t = rounds E dm R k t name tup))"
proof -
  let ?N = "needed dm [name]"
  from implement_returns[OF assms(1,2,4-6), of consolidate ctr] obtain rs rels h where
    run: "implement E consolidate hash_order held dm name ctr = Some (Inr (Inr
      \<lparr> result_map = [(name, leave (held name))], query_handle = h,
        definitions = map (\<lambda>(rl, rel). (rule_name rl, consolidate (impl_rows (import_trace (env_ops E)) dm rel))) (zip rs rels),
        next_sym = ctr \<rparr>))" (is "_ = Some (Inr (Inr \<lparr> result_map = _, query_handle = _, definitions = ?sets, next_sym = _ \<rparr>))")
    and names: "set (map rule_name rs) = ?N" "\<forall>rl \<in> set rs. rule_of (rule_name rl) dm = Some rl"
    and rows: "list_all2 (row_totals E dm R (create_variables held (map rule_name rs))) rs rels" by blast
  have closed: "mentioned_names (rule_plan rl) \<subseteq> ?N" if "n \<in> ?N" "rule_of n dm = Some rl" for n rl
    using needed.used[OF that] by blast
  have "map fst ?sets = map rule_name rs" using list_all2_lengthD[OF rows] by (induction rs rels rule: list_induct2) auto
  moreover have max: "total_at (env_lattice E) (leave (held name)) tup t = rounds E dm R (2 ^ 64 - 1) t name tup"
    if "fed_back (env_lattice E) held ?sets" for t tup
    using held_rounds[OF assms(3) names closed rows that, where n = name and tup = tup and t = t and r = "- 1"] needed.requested[where dm = dm and name = name and names = "[name]"]
    by (simp add: assms(1) total_leave_iteration unsigned_minus_1_eq_mask mask_eq_exp_minus_1)
  moreover have "total_at (env_lattice E) (leave (held name)) tup t = rounds E dm R k t name tup"
    if "fed_back (env_lattice E) held ?sets" "k < 2 ^ 64" "\<forall>n \<in> ?N. rounds E dm R (Suc k) t n = rounds E dm R k t n" for k t tup
  proof -
    have "k \<le> 2 ^ 64 - 1" using that(2) by simp
    then have "\<forall>n \<in> ?N. rounds E dm R (2 ^ 64 - 1) t n = rounds E dm R k t n"
      using closed by (intro rounds_stable[OF _ that(3)]) blast
    then have "rounds E dm R (2 ^ 64 - 1) t name = rounds E dm R k t name" by (blast intro: needed.requested list.set_intros)
    with max[OF that(1)] show ?thesis by metis
  qed
  moreover have "set (map fst ?sets) = ?N" using calculation(1) names(1) by simp
  ultimately show ?thesis using run by (intro exI[of _ h] exI[of _ ?sets] conjI impI allI) (assumption | elim conjE)+
qed

text \<open>C3: \<^verbatim>\<open>implement\<close> evaluates recursive rules. When every rule a query needs is a well-formed query over existing
  attributes, \<^verbatim>\<open>implement\<close> returns without an error or a panic, publishes the variable of the requested name and sets
  the variable of every needed rule. Once the variables are fed back, the published relation holds each tuple, at
  every time, as often as naive evaluation of the rules from empty relations does; so when the rounds stop changing
  at some point, it is the fixpoint they have reached.\<close>

theorem implement_evaluates_rules:
  assumes "env_lattice E = total_ops b" and "ops_laws (env_lattice E) (env_ops E)" and "consolidates (env_lattice E) consolidate"
    and "\<And>xs. set (hash_order xs) = set xs" and "wf_rules E dm R name" and "held_ok dm held"
  shows "\<exists>h sets. implement E consolidate hash_order held dm name ctr = Some (Inr (Inr
      \<lparr> result_map = [(name, leave (held name))], query_handle = h, definitions = sets, next_sym = ctr \<rparr>)) \<and>
    set (map fst sets) = needed dm [name] \<and>
    (fed_back (env_lattice E) held sets \<longrightarrow>
       (\<forall>t tup. total_at (env_lattice E) (leave (held name)) tup t = rounds E dm R (2 ^ 64 - 1) t name tup) \<and>
       (\<forall>k t tup. k < 2 ^ 64 \<and> (\<forall>n \<in> needed dm [name]. rounds E dm R (Suc k) t n = rounds E dm R k t n) \<longrightarrow>
          total_at (env_lattice E) (leave (held name)) tup t = rounds E dm R k t name tup))"
  by (rule implement_rounds[OF assms])

section \<open>A recursive query\<close>

text \<open>The symmetric closure of an attribute, by a rule that refers to itself with its columns swapped.\<close>

definition connected_plan :: plan where
  "connected_plan = Union [0, 1] [MatchA 0 ''edge'' 1, NameExpr [1, 0] ''connected'']"

definition connected_domain :: "(u64, unit) rule_domain" where
  "connected_domain = (domain_new u64_time () 0) \<lparr> attributes := [(''edge'', tx_time Raw)],
     forward_propose := [(''edge'', demo_trace [((Eid 1, Eid 2), 0, 1)])],
     rules := [(''connected'', Rule ''connected'' connected_plan)] \<rparr>"

definition connected_held :: "aid \<Rightarrow> u64 tuples" where
  "connected_held name =
     (if name = ''connected'' then [([Eid 1, Eid 2], (0, 1), 1), ([Eid 2, Eid 1], (0, 2), 1)] else [])"

lemma connected_rule:
  "rule_of name connected_domain = (if name = ''connected'' then Some (Rule ''connected'' connected_plan) else None)"
  by (simp add: rule_of_def connected_domain_def)

lemma connected_needed: "needed connected_domain [''connected''] = {''connected''}"
proof -
  have "name = ''connected''" if "name \<in> needed connected_domain [''connected'']" for name
    using that by induction (auto simp: connected_rule connected_plan_def split: if_splits)
  moreover have "''connected'' \<in> needed connected_domain [''connected'']" by (rule needed.requested) simp
  ultimately show ?thesis by blast
qed

lemma connected_edge:
  "attribute_at u64_ops contents connected_domain ''edge'' (x, y) t = of_bool (x = Eid 1 \<and> y = Eid 2)"
  by (simp add: attribute_at_def forward_propose_of_def connected_domain_def demo_trace_def total_ops_def) metis

lemma connected_meaning:
  "meaning ref_env connected_domain R I connected_plan t \<sigma> =
     of_bool (of_bool (\<sigma> 0 = Eid 1 \<and> \<sigma> 1 = Eid 2) + I ''connected'' [\<sigma> 1, \<sigma> 0] > 0)"
proof -
  let ?m = "\<lambda>\<rho>. attribute_at u64_ops contents connected_domain ''edge'' (\<rho> 0, \<rho> 1) t"
    and ?n = "\<lambda>\<rho>. I ''connected'' [\<rho> 1, \<rho> 0]"
  have "project_sum {0, 1} [0, 1] ?m \<sigma> = ?m \<sigma>" "project_sum {1, 0} [0, 1] ?n \<sigma> = ?n \<sigma>" by (rule project_sum_all; auto)+
  then show ?thesis by (simp add: connected_plan_def ref_env_simps connected_edge del: of_bool_conj)
qed

lemma connected_wf: "wf_rules ref_env connected_domain R ''connected''"
proof -
  have "forward_propose_of ''edge'' connected_domain \<noteq> None" "has_attribute ''edge'' connected_domain"
    by (simp_all add: forward_propose_of_def has_attribute_def connected_domain_def)
  then show ?thesis
    by (simp add: wf_rules_def rules_keyed_def connected_rule connected_needed missing_def arities_def)
      (simp add: connected_plan_def connected_rule arities_def)
qed

lemma connected_held_ok: "held_ok connected_domain connected_held"
  by (auto simp: held_ok_def connected_rule connected_held_def connected_plan_def split: if_splits)

lemma connected_held_total:
  "total_at (nested_ops u64_ops) (connected_held ''connected'') tup (t, r) =
     of_bool (tup = [Eid 1, Eid 2] \<and> 1 \<le> r) + of_bool (tup = [Eid 2, Eid 1] \<and> 2 \<le> r)"
  by (auto simp: connected_held_def nested_ops_def total_ops_def)

lemma connected_rounds:
  "rounds ref_env connected_domain R (Suc k) t ''connected'' tup =
     of_bool (tup = [Eid 1, Eid 2] \<or> (length tup = 2 \<and> rounds ref_env connected_domain R k t ''connected'' (rev tup) > 0))"
proof (cases "length tup = 2")
  case True
  then obtain x y where tup: "tup = [x, y]" by (auto simp: numeral_2_eq_2 length_Suc_conv)
  have "0 \<le> rounds ref_env connected_domain R k t ''connected'' [y, x]"
    by (cases k) (simp_all add: connected_rule connected_meaning)
  moreover have "layout connected_plan = [0, 1]" by (simp add: connected_plan_def)
  ultimately show ?thesis
    by (auto simp: tup connected_rule connected_meaning restrict_to_def value_of_pair)
qed (auto simp: connected_rule connected_plan_def)

lemma connected_fed_back:
  assumes "list_all2 (row_totals ref_env connected_domain R (create_variables connected_held (map rule_name rs))) rs rels"
    and "set (map rule_name rs) = {''connected''}" and "\<forall>rl \<in> set rs. rule_of (rule_name rl) connected_domain = Some rl"
  shows "fed_back u64_ops connected_held (map (\<lambda>(rl, rel). (rule_name rl, impl_rows contents connected_domain rel)) (zip rs rels))"
proof -
  let ?locals = "create_variables connected_held (map rule_name rs)"
  have "total_at (nested_ops u64_ops) (connected_held (rule_name rl)) tup (t, r) =
      (if r = 0 then 0 else total_at (nested_ops u64_ops) (impl_rows contents connected_domain rel) tup (t, r - 1))"
    if "(rl, rel) \<in> set (zip rs rels)" for rl rel tup t and r :: u64
  proof -
    from set_zip_leftD[OF that] assms(2) have "rule_name rl = ''connected''" by auto
    with set_zip_leftD[OF that] assms(3) have rl: "rl = Rule ''connected'' connected_plan"
      using connected_rule[of "''connected''"] by fastforce
    from that assms(1) have rows: "row_totals ref_env connected_domain R ?locals rl rel" by (auto simp: list_all2_iff)
    have lay: "layout connected_plan = [0, 1]" by (simp add: connected_plan_def)
    have loc: "local_totals ref_env ?locals (t, s) ''connected'' tup' =
        total_at (nested_ops u64_ops) (connected_held ''connected'') tup' (t, s)" for s tup'
      using assms(2) by (simp add: local_totals_def create_variables_get ref_env_simps)
    have step: "1 \<le> r" "2 \<le> r \<longleftrightarrow> 1 \<le> r - 1" if "r \<noteq> 0"
    proof -
      from that have "unat (r - 1) = unat r - 1" "0 < unat r" by (simp_all add: unat_minus_one unat_gt_0)
      then show "1 \<le> r" "2 \<le> r \<longleftrightarrow> 1 \<le> r - 1" by (simp_all add: word_le_nat_alt) linarith+
    qed
    show ?thesis
    proof (cases "length tup = 2")
      case True
      then obtain x y where tup: "tup = [x, y]" by (auto simp: numeral_2_eq_2 length_Suc_conv)
      have "total_at (nested_ops u64_ops) (impl_rows contents connected_domain rel) tup (t, r - 1) =
          of_bool (of_bool (x = Eid 1 \<and> y = Eid 2) +
            total_at (nested_ops u64_ops) (connected_held ''connected'') [y, x] (t, r - 1) > (0 :: int))"
        using rows by (simp add: row_totals_def rl ref_env_simps lay tup connected_meaning loc restrict_to_def value_of_pair)
      then show ?thesis using step unfolding rl tup rule.sel connected_held_total by (cases "r = 0") auto
    next
      case False
      then show ?thesis using rows by (auto simp: row_totals_def rl ref_env_simps lay connected_held_total)
    qed
  qed
  then show ?thesis unfolding fed_back_def by auto
qed

lemma connected_runs:
  "\<exists>h sets. implement ref_env id rev connected_held connected_domain ''connected'' ctr = Some (Inr (Inr
      \<lparr> result_map = [(''connected'', leave (connected_held ''connected''))], query_handle = h, definitions = sets, next_sym = ctr \<rparr>)) \<and>
    fed_back u64_ops connected_held sets"
proof -
  let ?R = "\<lambda>_. []" and ?dm = connected_domain and ?name = "''connected''"
  have order: "set (rev xs) = set xs" for xs :: "aid list" by simp
  from implement_returns[OF ref_env_simps(1,3) order connected_wf connected_held_ok, where consolidate = id and ctr = ctr and R = ?R] obtain rs rels h where
    r: "implement ref_env id rev connected_held ?dm ?name ctr = Some (Inr (Inr
      \<lparr> result_map = [(?name, leave (connected_held ?name))], query_handle = h,
        definitions = map (\<lambda>(rl, rel). (rule_name rl, id (impl_rows (import_trace (env_ops ref_env)) ?dm rel))) (zip rs rels),
        next_sym = ctr \<rparr>))" "set (map rule_name rs) = needed ?dm [?name]" "\<forall>rl \<in> set rs. rule_of (rule_name rl) ?dm = Some rl"
      "list_all2 (row_totals ref_env ?dm ?R (create_variables connected_held (map rule_name rs))) rs rels"
    by (elim exE conjE) (rule that)
  let ?sets = "map (\<lambda>(rl, rel). (rule_name rl, impl_rows contents ?dm rel)) (zip rs rels)"
  have "implement ref_env id rev connected_held ?dm ?name ctr = Some (Inr (Inr
      \<lparr> result_map = [(?name, leave (connected_held ?name))], query_handle = h, definitions = ?sets, next_sym = ctr \<rparr>))"
    using r(1) unfolding ref_env_simps id_apply .
  moreover have "fed_back u64_ops connected_held ?sets"
    by (rule connected_fed_back[OF r(4) r(2)[unfolded connected_needed] r(3)])
  ultimately show ?thesis by blast
qed

lemma connected_two:
  "rounds ref_env connected_domain R (Suc (Suc k)) t ''connected'' tup = of_bool (tup = [Eid 1, Eid 2] \<or> tup = [Eid 2, Eid 1])"
proof (induction k arbitrary: tup)
  case 0
  show ?case by (auto simp: connected_rounds rev_swap simp del: rounds.simps(2))
next
  case (Suc k)
  show ?case unfolding connected_rounds[where k = "Suc (Suc k)"] Suc by (auto simp: rev_swap)
qed

theorem implement_evaluates_rules_witness:
  "\<exists>h sets. implement ref_env id rev connected_held connected_domain ''connected'' 7 = Some (Inr (Inr
      \<lparr> result_map = [(''connected'', leave (connected_held ''connected''))], query_handle = h, definitions = sets, next_sym = 7 \<rparr>)) \<and>
    fed_back u64_ops connected_held sets \<and>
    total_at u64_ops (leave (connected_held ''connected'')) [Eid 2, Eid 1] 9 =
      rounds ref_env connected_domain (\<lambda>_. []) 2 9 ''connected'' [Eid 2, Eid 1] \<and>
    rounds ref_env connected_domain (\<lambda>_. []) 2 9 ''connected'' [Eid 2, Eid 1] = 1"
proof -
  let ?R = "\<lambda>_. []" and ?dm = connected_domain and ?name = "''connected''"
  have cons: "consolidates (env_lattice ref_env) id" by (simp add: consolidates_def)
  have order: "set (rev xs) = set xs" for xs :: "aid list" by simp
  obtain h sets where run: "implement ref_env id rev connected_held ?dm ?name 7 = Some (Inr (Inr
      \<lparr> result_map = [(?name, leave (connected_held ?name))], query_handle = h, definitions = sets, next_sym = 7 \<rparr>))"
    and fed: "fed_back u64_ops connected_held sets" using connected_runs by blast
  have stable: "\<forall>n \<in> needed ?dm [?name]. rounds ref_env ?dm ?R (Suc 2) 9 n = rounds ref_env ?dm ?R 2 9 n"
    unfolding connected_needed numeral_2_eq_2 by (auto simp only: connected_two singletonD intro!: ext)
  from implement_evaluates_rules[OF ref_env_simps(1,3) cons order connected_wf connected_held_ok, where ctr = 7 and R = ?R] obtain h' sets' where
    run': "implement ref_env id rev connected_held ?dm ?name 7 = Some (Inr (Inr
      \<lparr> result_map = [(?name, leave (connected_held ?name))], query_handle = h', definitions = sets', next_sym = 7 \<rparr>))"
    and eval: "\<And>k t tup. fed_back u64_ops connected_held sets' \<Longrightarrow> k < 2 ^ 64 \<Longrightarrow>
      \<forall>n \<in> needed ?dm [?name]. rounds ref_env ?dm ?R (Suc k) t n = rounds ref_env ?dm ?R k t n \<Longrightarrow>
      total_at u64_ops (leave (connected_held ?name)) tup t = rounds ref_env ?dm ?R k t ?name tup"
    unfolding ref_env_simps(1) by blast
  from run run' have "sets' = sets" by (simp only: option.inject sum.inject implementation.ext_inject)
  with fed have "fed_back u64_ops connected_held sets'" by simp
  from eval[OF this _ stable] have "total_at u64_ops (leave (connected_held ?name)) [Eid 2, Eid 1] 9 =
      rounds ref_env ?dm ?R 2 9 ?name [Eid 2, Eid 1]" by simp
  moreover have "rounds ref_env ?dm ?R 2 9 ?name [Eid 2, Eid 1] = 1" unfolding numeral_2_eq_2 connected_two by simp
  ultimately show ?thesis using run fed by blast
qed

section \<open>Rules with the optimizer\<close>

lemma named_not_bindings:
  "n \<in> mentioned_names p \<Longrightarrow> \<exists>m. fst (into_bindings p ctr) = Inl m"
  "n \<in> \<Union> (mentioned_names ` set ps) \<Longrightarrow> \<exists>m. fst (into_bindings_all ps ctr) = Inl m"
proof (induction p ctr and ps ctr rule: into_bindings_into_bindings_all.induct)
qed (auto simp: not_hector_def split: prod.splits sum.splits, blast?)

lemma execute_rules_stops:
  assumes "rl \<in> set rs" and "\<And>ctr. \<exists>m. fst (plan_rule rl ctr) = Some (Inl m)"
  shows "execute_rules plan_rule rs ctr h \<noteq> Some (Inr result)"
  using assms(1)
proof (induction rs arbitrary: ctr h result)
  case (Cons rl' rs)
  show ?case
  proof (cases "rl' = rl")
    case True
    from assms(2)[of ctr] obtain m ctr' where "plan_rule rl ctr = (Some (Inl m), ctr')" by (metis prod.collapse)
    with True show ?thesis by simp
  next
    case False
    with Cons have "execute_rules plan_rule rs ctr h \<noteq> Some (Inr result)" for ctr h result by simp
    then show ?thesis by (auto simp: and_then_def run_simps split: prod.splits option.splits sum.splits)
  qed
qed simp

text \<open>C33: With the optimizer, a query that uses another rule, or itself, never yields a result: \<^verbatim>\<open>implement_neu\<close> translates every
  needed rule to bindings, and a reference to a rule has none, so that the worker panics; rules that \<^verbatim>\<open>implement\<close>
  evaluates are out of reach.\<close>

theorem implement_neu_rejects_references:
  assumes "rules_keyed dm" and "\<And>xs. set (hash_order xs) = set xs"
    and "rule_of name dm = Some rl" and "mentioned_names (rule_plan rl) \<noteq> {}"
  shows "implement_neu E consolidate hash_order held dm name ctr \<noteq> Some (Inr (Inr impl))"
proof (cases "collect_dependencies hash_order dm [name]")
  case (Inr collected)
  with collect_dependencies_spec[OF assms(1,2), of "[name]"] have
    names: "set (map rule_name collected) = needed dm [name]" and reg: "\<forall>rl \<in> set collected. rule_of (rule_name rl) dm = Some rl"
    by auto
  have "name \<in> set (map rule_name collected)" unfolding names by (rule needed.requested) simp
  then obtain rl' where "rl' \<in> set collected" "rule_name rl' = name" by auto
  with reg assms(3) have "rl \<in> set (sort_key rule_name collected)" by force
  moreover have "\<exists>m. fst (case into_bindings (rule_plan rl) ctr of
       (Inl msg, ctr') \<Rightarrow> (Some (Inl msg), ctr')
     | (Inr bs, ctr') \<Rightarrow> (plan_implement E dm locals (q (plan_variables (rule_plan rl)) bs), ctr')) = Some (Inl m)" for ctr locals
    using assms(4) named_not_bindings(1)[of _ "rule_plan rl" ctr] by (fastforce split: prod.splits)
  ultimately have "execute_rules (\<lambda>rl ctr. case into_bindings (rule_plan rl) ctr of
       (Inl msg, ctr') \<Rightarrow> (Some (Inl msg), ctr')
     | (Inr bs, ctr') \<Rightarrow> (plan_implement E dm locals (q (plan_variables (rule_plan rl)) bs), ctr'))
      (sort_key rule_name collected) ctr h \<noteq> Some (Inr result)" for locals h result
    by (rule execute_rules_stops)
  then show ?thesis
    by (auto simp: implement_neu_def implement_with_def Inr Let_def and_then_def run_simps split: option.splits sum.splits)
qed (simp add: implement_neu_def implement_with_def)

theorem implement_neu_rejects_references_witness:
  "\<nexists>impl. implement_neu ref_env id rev connected_held connected_domain ''connected'' 7 = Some (Inr (Inr impl))"
proof -
  have "rule_of ''connected'' connected_domain = Some (Rule ''connected'' connected_plan)"
    "mentioned_names (rule_plan (Rule ''connected'' connected_plan)) \<noteq> {}" "rules_keyed connected_domain"
    by (simp_all add: rules_keyed_def connected_rule) (simp add: connected_plan_def)
  from implement_neu_rejects_references[OF this(3) _ this(1,2)] show ?thesis by simp
qed

end
