(* ===== verification/Last_Write_Wins.thy ===== *)
theory Last_Write_Wins
  imports Values Operators
begin

text \<open>
  The last-write-wins operator of \<^verbatim>\<open>src/src/operators/last_write_wins.rs\<close>. It reads the batches of an arrangement,
  each of which lists its keys, their values in order and the changes of each value, and feeds the changes of each key
  in the order of their times to a state machine that keeps the current value per entity. The state machine operator
  of timely keeps a state per key, initially \<open>None\<close>, and drops it when the closure says so.
\<close>

section \<open>Operator\<close>

type_synonym 't lww_batch = "(df_value \<times> (df_value \<times> ('t \<times> int) list) list) list"
type_synonym 't pair_update = "(df_value \<times> df_value, 't) update"

definition key_updates :: "df_value \<Rightarrow> (df_value \<times> ('t::linorder \<times> int) list) list \<Rightarrow> 't pair_update list" where
  "key_updates key vals =
     sort_key (\<lambda>(_, t, _). t) (concat (map (\<lambda>(val, changes). map (\<lambda>(time, diff). ((key, val), time, diff)) changes) vals))"

definition batch_updates :: "'t::linorder lww_batch \<Rightarrow> 't pair_update list" where
  "batch_updates batch = concat (map (\<lambda>(key, vals). key_updates key vals) batch)"

text \<open>The closure: the new state, whether the state is to be dropped, and the output.\<close>

fun lww_fold ::
  "df_value \<Rightarrow> df_value \<times> 't \<times> int \<Rightarrow> df_value option \<Rightarrow> (df_value option \<times> bool \<times> 't pair_update list) run" where
  "lww_fold e (next_v, t, diff) None =
     (if diff > 0 then Inr (Some next_v, False, [((e, next_v), t, 1)])
      else Inl ''Received a retraction of a new key on a LastWriteWins attribute'')"
| "lww_fold e (next_v, t, diff) (Some old_v) =
     (if diff > 0 then Inr (Some next_v, False, [((e, old_v), t, - 1), ((e, next_v), t, 1)])
      else Inr (Some old_v, True, [((e, old_v), t, - 1)]))"

fun state_machine ::
  "('k \<Rightarrow> 'u \<Rightarrow> 's option \<Rightarrow> ('s option \<times> bool \<times> 'o list) run) \<Rightarrow> ('k \<times> 'u) list \<Rightarrow> ('k, 's option) hash_map \<Rightarrow> 'o list run" where
  "state_machine f [] states = Inr []"
| "state_machine f ((key, val) # rest) states =
     run_bind (f key val (case map_of states key of None \<Rightarrow> None | Some s \<Rightarrow> s)) (\<lambda>(s, remove, output).
     run_bind (state_machine f rest (if remove then hm_remove key states else hm_insert key s states)) (\<lambda>outputs.
       Inr (output @ outputs)))"

definition last_write_wins :: "'t::linorder lww_batch list \<Rightarrow> 't pair_update list run" where
  "last_write_wins batches =
     state_machine lww_fold (map (\<lambda>((e, next_v), t, diff). (e, (next_v, t, diff))) (concat (map batch_updates batches))) []"

section \<open>The current value\<close>

text \<open>The value of an entity at a time: what the last change up to that time has written, unless it was a retraction.\<close>

fun current :: "df_value option \<Rightarrow> (df_value \<times> df_value \<times> 't::linorder \<times> int) list \<Rightarrow> df_value \<Rightarrow> 't \<Rightarrow> df_value option" where
  "current s [] e t = s"
| "current s ((e', v, t', d) # us) e t =
     current (if e' = e \<and> t' \<le> t then (if d > 0 then Some v else None) else s) us e t"

text \<open>No change retracts an entity that has no value.\<close>

fun writes_first :: "(df_value \<Rightarrow> df_value option) \<Rightarrow> (df_value \<times> df_value \<times> 't \<times> int) list \<Rightarrow> bool" where
  "writes_first s [] \<longleftrightarrow> True"
| "writes_first s ((e, v, t, d) # us) \<longleftrightarrow> (d > 0 \<or> s e \<noteq> None) \<and> writes_first (s(e := if d > 0 then Some v else None)) us"

definition ordered :: "(df_value \<times> df_value \<times> 't::linorder \<times> int) list \<Rightarrow> bool" where
  "ordered us \<longleftrightarrow> (\<forall>e. sorted (map (\<lambda>(_, _, t, _). t) (filter (\<lambda>u. fst u = e) us)))"

lemma ordered_Cons:
  "ordered ((e, v, t, d) # us) \<Longrightarrow> ordered us \<and> (\<forall>u \<in> set us. fst u = e \<longrightarrow> t \<le> fst (snd (snd u)))"
  unfolding ordered_def by (auto split: if_splits prod.splits) (metis (mono_tags, lifting) list.simps(9) sorted_simps(2))+

lemma current_later: "(\<forall>u \<in> set us. fst u = e \<longrightarrow> t < fst (snd (snd u))) \<Longrightarrow> current s us e t = s"
  by (induction us arbitrary: s) (auto simp: not_le)

abbreviation state_of :: "('k, 's option) hash_map \<Rightarrow> 'k \<Rightarrow> 's option" where
  "state_of states k \<equiv> (case map_of states k of None \<Rightarrow> None | Some s \<Rightarrow> s)"

lemma lww_exact:
  assumes "ordered us" and "writes_first (state_of states) us"
  shows "\<exists>out. state_machine lww_fold us states = Inr out \<and>
    (\<forall>e v t. total_at (total_ops b) out (e, v) t = of_bool (current (state_of states e) us e t = Some v) - of_bool (state_of states e = Some v))"
  using assms
proof (induction us arbitrary: states)
  case (Cons u us)
  obtain e' v' t' d where u: "u = (e', v', t', d)" by (cases u) auto
  from ordered_Cons[of e' v' t' d us] Cons.prems(1) have
    ord: "ordered us" "\<forall>u \<in> set us. fst u = e' \<longrightarrow> t' \<le> fst (snd (snd u))" by (simp_all add: u)
  let ?s = "state_of states e'" and ?new = "if d > 0 then Some v' else None"
  let ?states = "if d > 0 then hm_insert e' (Some v') states else hm_remove e' states"
  have st: "state_of ?states = (state_of states)(e' := ?new)" by (auto simp: fun_eq_iff)
  from Cons.prems(2) have ok: "d > 0 \<or> ?s \<noteq> None" "writes_first (state_of ?states) us" unfolding st by (simp_all add: u)
  from Cons.IH[OF ord(1) ok(2)] obtain out where out: "state_machine lww_fold us ?states = Inr out"
    "\<And>e v t. total_at (total_ops b) out (e, v) t =
       of_bool (current (state_of ?states e) us e t = Some v) - of_bool (state_of ?states e = Some v)" by blast
  let ?o = "(case ?s of None \<Rightarrow> [] | Some old \<Rightarrow> [((e', old), t', - 1)]) @ (if d > 0 then [((e', v'), t', 1)] else [])"
  have run: "state_machine lww_fold (u # us) states = Inr (?o @ out)"
    using ok(1) out(1) by (cases ?s) (auto simp: u)
  have "total_at (total_ops b) (?o @ out) (e, v) t =
      of_bool (current (state_of states e) (u # us) e t = Some v) - of_bool (state_of states e = Some v)" for e v t
  proof (cases "e = e' \<and> \<not> t' \<le> t")
    case True
    then have "current s us e t = s" for s using ord(2) by (intro current_later) auto
    with True show ?thesis using out(2)[of e v t] by (cases ?s) (auto simp: u st total_ops_def)
  next
    case False
    then show ?thesis using out(2)[of e v t] ok(1) by (cases ?s) (auto simp: u st total_ops_def)
  qed
  with run show ?case by blast
qed simp

section \<open>Batches\<close>

definition as_change :: "'t pair_update \<Rightarrow> df_value \<times> df_value \<times> 't \<times> int" where
  "as_change u = (fst (fst u), snd (fst u), snd u)"

definition changes :: "'t::linorder lww_batch list \<Rightarrow> (df_value \<times> df_value \<times> 't \<times> int) list" where
  "changes batches = map as_change (concat (map batch_updates batches))"

lemma last_write_wins_changes: "last_write_wins batches = state_machine lww_fold (changes batches) []"
proof -
  have "(\<lambda>((e, next_v), t, diff). (e, (next_v, t, diff))) = as_change" by (auto simp: as_change_def)
  then show ?thesis unfolding last_write_wins_def changes_def by (rule arg_cong[where f = "\<lambda>f. state_machine lww_fold (map f (concat (map batch_updates batches))) []"])
qed

definition batch_times :: "'t lww_batch \<Rightarrow> 't set" where
  "batch_times batch = {t. \<exists>(key, vals) \<in> set batch. \<exists>(val, tds) \<in> set vals. \<exists>d. (t, d) \<in> set tds}"

text \<open>A batch lists each key once, and the times of a later batch are not before those of an earlier one.\<close>

definition batches_ok :: "'t::linorder lww_batch list \<Rightarrow> bool" where
  "batches_ok batches \<longleftrightarrow> (\<forall>batch \<in> set batches. distinct (map fst batch)) \<and>
     sorted_wrt (\<lambda>a b. \<forall>t \<in> batch_times a. \<forall>t' \<in> batch_times b. t \<le> t') batches"

lemma ordered_append:
  "ordered xs \<Longrightarrow> ordered ys \<Longrightarrow> (\<And>x y. x \<in> set xs \<Longrightarrow> y \<in> set ys \<Longrightarrow> fst x = fst y \<Longrightarrow> fst (snd (snd x)) \<le> fst (snd (snd y))) \<Longrightarrow>
     ordered (xs @ ys)"
  unfolding ordered_def by (auto simp: sorted_append split: prod.splits)

lemma key_updates_mem: "u \<in> set (key_updates key vals) \<Longrightarrow> fst (fst u) = key \<and> (\<exists>(val, tds) \<in> set vals. \<exists>d. (fst (snd u), d) \<in> set tds)"
  by (fastforce simp: key_updates_def)

lemma ordered_key: "ordered (map as_change (key_updates key vals))"
proof -
  let ?us = "key_updates key vals"
  have "filter (\<lambda>u. fst u = e) (map as_change ?us) = (if e = key then map as_change ?us else [])" for e
    using key_updates_mem[of _ key vals] by (auto simp: filter_id_conv filter_empty_conv as_change_def)
  moreover have "map (\<lambda>(_, _, t, _). t) (map as_change ?us) = map (\<lambda>(_, t, _). t) ?us" by (auto simp: as_change_def)
  then have "sorted (map (\<lambda>(_, _, t, _). t) (map as_change ?us))"
    by (simp only: key_updates_def sorted_sort_key)
  ultimately show ?thesis unfolding ordered_def by (simp del: map_map)
qed

lemma batch_updates_mem: "u \<in> set (batch_updates batch) \<Longrightarrow> fst (fst u) \<in> fst ` set batch \<and> fst (snd u) \<in> batch_times batch"
proof -
  assume "u \<in> set (batch_updates batch)"
  then obtain key vals where kv: "(key, vals) \<in> set batch" "u \<in> set (key_updates key vals)" by (auto simp: batch_updates_def)
  with key_updates_mem[OF this(2)] show ?thesis unfolding batch_times_def by force
qed

lemma ordered_batch: "distinct (map fst batch) \<Longrightarrow> ordered (map as_change (batch_updates batch))"
proof (induction batch)
  case (Cons kv batch)
  obtain key vals where kv: "kv = (key, vals)" by fastforce
  have split: "batch_updates (kv # batch) = key_updates key vals @ batch_updates batch" by (simp add: batch_updates_def kv)
  have "fst x \<noteq> fst y" if "x \<in> set (map as_change (key_updates key vals))" "y \<in> set (map as_change (batch_updates batch))" for x y
    using that Cons.prems key_updates_mem[of _ key vals] batch_updates_mem[of _ batch] by (fastforce simp: as_change_def kv)
  then show ?case using Cons unfolding split map_append by (intro ordered_append ordered_key) (auto simp: kv)
qed (simp add: batch_updates_def ordered_def)

lemma ordered_changes: "batches_ok batches \<Longrightarrow> ordered (changes batches)"
proof (induction batches)
  case (Cons batch batches)
  have split: "changes (batch # batches) = map as_change (batch_updates batch) @ changes batches" by (simp add: changes_def)
  have "fst (snd (snd x)) \<le> fst (snd (snd y))" if x: "x \<in> set (map as_change (batch_updates batch))" and y: "y \<in> set (changes batches)" for x y
  proof -
    from x have "fst (snd (snd x)) \<in> batch_times batch" using batch_updates_mem[of _ batch] by (auto simp: as_change_def)
    moreover from y obtain b where "b \<in> set batches" "fst (snd (snd y)) \<in> batch_times b"
      using batch_updates_mem by (fastforce simp: changes_def as_change_def)
    ultimately show ?thesis using Cons.prems by (auto simp: batches_ok_def)
  qed
  moreover have "ordered (map as_change (batch_updates batch))" using Cons.prems by (intro ordered_batch) (simp add: batches_ok_def)
  moreover have "ordered (changes batches)" using Cons by (simp add: batches_ok_def)
  ultimately show ?case unfolding split by (intro ordered_append)
qed (simp add: changes_def ordered_def)

text \<open>C11: The last-write-wins operator makes an attribute a function of the entity at every time. For batches in the order of their
  times in which no entity is retracted before it is written, it returns without panicking a collection in which, at
  every time, an entity has its current value once and no other value. The current value is what the last change up
  to that time wrote, changes at the same time being taken in the order of their values; a retraction of any value,
  current or not, leaves the entity without a value.\<close>

theorem last_write_wins_exact:
  assumes "batches_ok batches" and "writes_first (\<lambda>_. None) (changes batches)"
  shows "\<exists>out. last_write_wins batches = Inr out \<and>
    (\<forall>e v t. total_at (total_ops b) out (e, v) t = of_bool (current None (changes batches) e t = Some v))"
  using lww_exact[OF ordered_changes[OF assms(1)], of "[]" b] assms(2)
  unfolding last_write_wins_changes by simp

definition renamed_batches :: "u64 lww_batch list" where
  "renamed_batches = [[(Eid 1, [(Eid 9, [(0, 1)])])], [(Eid 1, [(Eid 8, [(5, 1)]), (Eid 9, [(5, - 1)])])]]"

theorem last_write_wins_exact_witness:
  "\<exists>out. last_write_wins renamed_batches = Inr out \<and> total_at u64_ops out (Eid 1, Eid 9) 4 = 1 \<and>
     total_at u64_ops out (Eid 1, Eid 9) 5 = 0 \<and> total_at u64_ops out (Eid 1, Eid 8) 5 = 0"
proof -
  have ch: "changes renamed_batches = [(Eid 1, Eid 9, 0, 1), (Eid 1, Eid 8, 5, 1), (Eid 1, Eid 9, 5, - 1)]"
    by (simp add: changes_def renamed_batches_def batch_updates_def key_updates_def as_change_def)
  have "batches_ok renamed_batches" by (auto simp: batches_ok_def renamed_batches_def batch_times_def)
  from last_write_wins_exact[OF this, of 0] show ?thesis unfolding ch by auto
qed

end
