(* ===== verification/Scheduling.thy ===== *)
theory Scheduling
  imports Sessions
begin

text \<open>
  The schedulers of \<^verbatim>\<open>src/src/scheduling\<close>. Both keep their activators in a \<^verbatim>\<open>BinaryHeap\<close> with the order of
  \<^verbatim>\<open>at\<close> reversed, a min-heap; it is modelled by the list of its items in the order they would be popped.
  The locale \<open>min_queue\<close> states what a min-heap promises, so that the facts about draining a scheduler do
  not depend on how ties are broken. The clock and the frontier of the probe are arguments, read at each
  call; the activator of timely is a weak reference whose upgrade is a parameter. Instants are
  nanoseconds of the monotonic clock.
\<close>

section \<open>Heaps\<close>

definition heap_push :: "('i \<Rightarrow> 'k::linorder) \<Rightarrow> 'i \<Rightarrow> 'i list \<Rightarrow> 'i list" where
  "heap_push key item heap = insort_key key item heap"

fun heap_peek :: "'i list \<Rightarrow> 'i option" where
  "heap_peek [] = None"
| "heap_peek (i # _) = Some i"

fun heap_pop :: "'i list \<Rightarrow> ('i \<times> 'i list) option" where
  "heap_pop [] = None"
| "heap_pop (i # heap) = Some (i, heap)"

locale min_queue =
  fixes key :: "'i \<Rightarrow> 'k::linorder" and wf :: "'q \<Rightarrow> bool" and items :: "'q \<Rightarrow> 'i multiset"
    and push :: "'i \<Rightarrow> 'q \<Rightarrow> 'q" and peek :: "'q \<Rightarrow> 'i option" and pop :: "'q \<Rightarrow> ('i \<times> 'q) option"
  assumes push_wf: "wf q \<Longrightarrow> wf (push i q)"
    and push_items: "items (push i q) = add_mset i (items q)"
    and peek_None: "peek q = None \<longleftrightarrow> items q = {#}"
    and peek_min: "wf q \<Longrightarrow> peek q = Some i \<Longrightarrow> i \<in># items q \<and> (\<forall>j \<in># items q. key i \<le> key j)"
    and pop_peek: "map_option fst (pop q) = peek q"
    and pop_items: "pop q = Some (i, q') \<Longrightarrow> items q = add_mset i (items q')"
    and pop_wf: "wf q \<Longrightarrow> pop q = Some (i, q') \<Longrightarrow> wf q'"
begin

text \<open>One step of an iterator that only yields ready items.\<close>

definition next_item :: "('i \<Rightarrow> bool) \<Rightarrow> 'q \<Rightarrow> ('i \<times> 'q) option" where
  "next_item ready q = (case peek q of None \<Rightarrow> None | Some i \<Rightarrow> if ready i then pop q else None)"

lemma next_item_Some:
  assumes "wf q" and "next_item ready q = Some (i, q')"
  shows "ready i \<and> items q = add_mset i (items q') \<and> wf q' \<and> (\<forall>j \<in># items q. key i \<le> key j)"
proof -
  obtain j where "peek q = Some j" "ready j" "pop q = Some (i, q')"
    using assms(2) by (auto simp: next_item_def split: option.splits if_splits)
  moreover from this pop_peek[of q] have "j = i" by simp
  ultimately show ?thesis using pop_items pop_wf[OF assms(1)] peek_min[OF assms(1)] by auto
qed

lemma next_item_None:
  assumes "wf q" and "next_item ready q = None"
    and down: "\<And>i j. i \<in># items q \<Longrightarrow> j \<in># items q \<Longrightarrow> key i \<le> key j \<Longrightarrow> ready j \<Longrightarrow> ready i"
  shows "\<forall>j \<in># items q. \<not> ready j"
proof (cases "peek q")
  case None
  then show ?thesis by (simp add: peek_None)
next
  case (Some i)
  with pop_peek[of q] have "pop q \<noteq> None" by auto
  with Some assms(2) have "\<not> ready i" by (auto simp: next_item_def split: if_splits)
  with peek_min[OF assms(1) Some] down show ?thesis by blast
qed

end

lemma heap_min_queue: "min_queue key (\<lambda>h. sorted (map key h)) mset (heap_push key) heap_peek heap_pop"
proof
  fix q :: "'a list" and i q'
  show "heap_peek q = None \<longleftrightarrow> mset q = {#}" by (cases q) auto
  show "map_option fst (heap_pop q) = heap_peek q" by (cases q) auto
  show "heap_pop q = Some (i, q') \<Longrightarrow> mset q = add_mset i (mset q')" by (cases q) auto
  show "sorted (map key q) \<Longrightarrow> heap_pop q = Some (i, q') \<Longrightarrow> sorted (map key q')" by (cases q) auto
  show "sorted (map key q) \<Longrightarrow> heap_peek q = Some i \<Longrightarrow> i \<in># mset q \<and> (\<forall>j \<in># mset q. key i \<le> key j)"
    by (cases q) auto
qed (simp_all add: heap_push_def sorted_insort_key)

interpretation heap: min_queue key "\<lambda>h. sorted (map key h)" mset "heap_push key" heap_peek heap_pop
  for key :: "'i \<Rightarrow> 'k::linorder"
  by (rule heap_min_queue)

section \<open>Frontier-triggered scheduling\<close>

datatype ('t, 'w) frontiered_activator = FrontieredActivator (fa_at: 't) (fa_activator: 'w)

definition frontiered_is_ready ::
  "'t lattice_ops \<Rightarrow> 't list \<Rightarrow> ('t, 'w) frontiered_activator \<Rightarrow> bool" where
  "frontiered_is_ready L frontier a = (\<not> list_ex (\<lambda>f. less_than L f (fa_at a)) frontier)"

text \<open>\<^verbatim>\<open>schedule\<close> activates what the weak reference still points to.\<close>

definition frontiered_schedule :: "('w \<Rightarrow> 'x option) \<Rightarrow> ('t, 'w) frontiered_activator \<Rightarrow> 'x list" where
  "frontiered_schedule upgrade a = (case upgrade (fa_activator a) of None \<Rightarrow> [] | Some x \<Rightarrow> [x])"

type_synonym ('t, 'w) frontier_scheduler = "('t, 'w) frontiered_activator list"

definition frontier_has_pending ::
  "'t lattice_ops \<Rightarrow> 't list \<Rightarrow> ('t, 'w) frontier_scheduler \<Rightarrow> bool" where
  "frontier_has_pending L frontier q =
     (case heap_peek q of None \<Rightarrow> False | Some a \<Rightarrow> frontiered_is_ready L frontier a)"

definition frontier_schedule_at ::
  "'t::linorder \<Rightarrow> 'w \<Rightarrow> ('t, 'w) frontier_scheduler \<Rightarrow> ('t, 'w) frontier_scheduler" where
  "frontier_schedule_at when activator q = heap_push fa_at (FrontieredActivator when activator) q"

definition frontier_next ::
  "'t lattice_ops \<Rightarrow> 't list \<Rightarrow> ('t, 'w) frontier_scheduler \<Rightarrow>
   (('t, 'w) frontiered_activator \<times> ('t, 'w) frontier_scheduler) option" where
  "frontier_next L frontier q = (if frontier_has_pending L frontier q then heap_pop q else None)"

section \<open>Timer-triggered scheduling\<close>

datatype event = Tick

datatype 'w timed_activator = TimedActivator (ta_at: nat) (ta_activator: "'w option") (ta_event: "event option")

definition timed_is_ready :: "nat \<Rightarrow> 'w timed_activator \<Rightarrow> bool" where
  "timed_is_ready now a = (now \<ge> ta_at a)"

definition until_ready :: "nat \<Rightarrow> 'w timed_activator \<Rightarrow> nat" where
  "until_ready now a = (if ta_at a > now then ta_at a - now else 0)"

definition timed_schedule :: "('w \<Rightarrow> 'x option) \<Rightarrow> 'w timed_activator \<Rightarrow> 'x list \<times> event option" where
  "timed_schedule upgrade a =
     (case Option.bind (ta_activator a) upgrade of None \<Rightarrow> [] | Some x \<Rightarrow> [x], ta_event a)"

type_synonym 'w realtime_scheduler = "'w timed_activator list"

definition realtime_has_pending :: "nat \<Rightarrow> 'w realtime_scheduler \<Rightarrow> bool" where
  "realtime_has_pending now q = (case heap_peek q of None \<Rightarrow> False | Some a \<Rightarrow> timed_is_ready now a)"

definition until_next :: "nat \<Rightarrow> 'w realtime_scheduler \<Rightarrow> nat option" where
  "until_next now q = map_option (until_ready now) (heap_peek q)"

definition realtime_schedule_at :: "nat \<Rightarrow> 'w \<Rightarrow> 'w realtime_scheduler \<Rightarrow> 'w realtime_scheduler" where
  "realtime_schedule_at when activator q = heap_push ta_at (TimedActivator when (Some activator) None) q"

definition schedule_now :: "nat \<Rightarrow> 'w \<Rightarrow> 'w realtime_scheduler \<Rightarrow> 'w realtime_scheduler" where
  "schedule_now now activator q = realtime_schedule_at now activator q"

definition schedule_after :: "nat \<Rightarrow> nat \<Rightarrow> 'w \<Rightarrow> 'w realtime_scheduler \<Rightarrow> 'w realtime_scheduler" where
  "schedule_after now after activator q = realtime_schedule_at (now + after) activator q"

definition event_at :: "nat \<Rightarrow> event \<Rightarrow> 'w realtime_scheduler \<Rightarrow> 'w realtime_scheduler" where
  "event_at when ev q = heap_push ta_at (TimedActivator when None (Some ev)) q"

definition event_after :: "nat \<Rightarrow> nat \<Rightarrow> event \<Rightarrow> 'w realtime_scheduler \<Rightarrow> 'w realtime_scheduler" where
  "event_after now after ev q = event_at (now + after) ev q"

definition realtime_next ::
  "nat \<Rightarrow> 'w realtime_scheduler \<Rightarrow> ('w timed_activator \<times> 'w realtime_scheduler) option" where
  "realtime_next now q = (if realtime_has_pending now q then heap_pop q else None)"

section \<open>The unified scheduler\<close>

record ('t, 'w) scheduler =
  frontier_sched :: "('t, 'w) frontier_scheduler"
  realtime_sched :: "'w realtime_scheduler"

definition scheduler_from :: "('t, 'w) scheduler" where
  "scheduler_from = \<lparr> frontier_sched = [], realtime_sched = [] \<rparr>"

definition scheduler_has_pending :: "'t lattice_ops \<Rightarrow> 't list \<Rightarrow> nat \<Rightarrow> ('t, 'w) scheduler \<Rightarrow> bool" where
  "scheduler_has_pending L frontier now s =
     (frontier_has_pending L frontier (frontier_sched s) \<or> realtime_has_pending now (realtime_sched s))"

section \<open>Draining\<close>

text \<open>\<^verbatim>\<open>while let Some(activator) = scheduler.next() { .. }\<close> for either scheduler; it ends because each
  round removes an item.\<close>

fun drain :: "('i \<Rightarrow> bool) \<Rightarrow> 'i list \<Rightarrow> 'i list \<times> 'i list" where
  "drain ready [] = ([], [])"
| "drain ready (i # q) =
     (if ready i then (case drain ready q of (out, rest) \<Rightarrow> (i # out, rest)) else ([], i # q))"

lemma frontier_next_item: "frontier_next L F = heap.next_item (frontiered_is_ready L F)"
  by (rule ext) (simp add: frontier_next_def frontier_has_pending_def heap.next_item_def split: option.splits)

lemma realtime_next_item: "realtime_next now = heap.next_item (timed_is_ready now)"
  by (rule ext) (simp add: realtime_next_def realtime_has_pending_def heap.next_item_def split: option.splits)

lemma drain_iterates:
  "drain ready q = (case heap.next_item ready q of
     None \<Rightarrow> ([], q) | Some (i, q') \<Rightarrow> (i # fst (drain ready q'), snd (drain ready q')))"
  by (cases q) (auto simp: heap.next_item_def split: prod.splits)

lemma drain_exact:
  assumes "sorted (map key q)"
    and "\<And>i j. i \<in> set q \<Longrightarrow> j \<in> set q \<Longrightarrow> key i \<le> key j \<Longrightarrow> ready j \<Longrightarrow> ready i"
  shows "sorted (map key (fst (drain ready q))) \<and>
    mset (fst (drain ready q)) = filter_mset ready (mset q) \<and>
    mset (snd (drain ready q)) = filter_mset (\<lambda>i. \<not> ready i) (mset q) \<and> sorted (map key (snd (drain ready q)))"
  using assms
proof (induction q)
  case Nil
  then show ?case by simp
next
  case (Cons i q)
  show ?case
  proof (cases "ready i")
    case True
    have IH: "sorted (map key (fst (drain ready q))) \<and>
        mset (fst (drain ready q)) = filter_mset ready (mset q) \<and>
        mset (snd (drain ready q)) = filter_mset (\<lambda>i. \<not> ready i) (mset q) \<and>
        sorted (map key (snd (drain ready q)))"
      using Cons.prems by (intro Cons.IH) auto
    moreover have "key i \<le> key x" if "x \<in> set (fst (drain ready q))" for x
    proof -
      have "x \<in># mset (fst (drain ready q))" using that by simp
      then show ?thesis using IH Cons.prems(1) by auto
    qed
    ultimately show ?thesis using True by (auto split: prod.splits)
  next
    case False
    then have "\<not> ready x" if "x \<in> set q" for x using that Cons.prems by auto
    then have "filter_mset ready (mset q) = {#}" "filter_mset (\<lambda>i. \<not> ready i) (mset q) = mset q"
      by (simp_all add: filter_mset_eq_conv)
    with False Cons.prems(1) show ?thesis by simp
  qed
qed

section \<open>Properties\<close>



text \<open>Over a total order, draining the frontier-triggered scheduler yields exactly the activators that
  no element of the frontier is strictly before, in the order of their times, and leaves the others
  queued; in particular an activator at the frontier itself is already triggered.\<close>

theorem frontier_drain_exact:
  fixes q :: "('t::linorder, 'w) frontier_scheduler"
  assumes "sorted (map fa_at q)"
  shows "sorted (map fa_at (fst (drain (frontiered_is_ready (total_ops b) F) q))) \<and>
    mset (fst (drain (frontiered_is_ready (total_ops b) F) q)) =
      {# a \<in># mset q. list_all (\<lambda>f. fa_at a \<le> f) F #} \<and>
    mset (snd (drain (frontiered_is_ready (total_ops b) F) q)) =
      {# a \<in># mset q. list_ex (\<lambda>f. f < fa_at a) F #}"
proof -
  have ready: "frontiered_is_ready (total_ops b) F = (\<lambda>a :: ('t, 'w) frontiered_activator. list_all (\<lambda>f. fa_at a \<le> f) F)"
    by (rule ext) (auto simp: frontiered_is_ready_def less_than_def total_ops_def list_ex_iff list_all_iff)
  have not_ready: "(\<lambda>a :: ('t, 'w) frontiered_activator. \<not> list_all (\<lambda>f. fa_at a \<le> f) F) =
      (\<lambda>a. list_ex (\<lambda>f. f < fa_at a) F)"
    by (rule ext) (auto simp: list_ex_iff list_all_iff not_le)
  have "sorted (map fa_at (fst (drain (frontiered_is_ready (total_ops b) F) q))) \<and>
      mset (fst (drain (frontiered_is_ready (total_ops b) F) q)) =
        filter_mset (frontiered_is_ready (total_ops b) F) (mset q) \<and>
      mset (snd (drain (frontiered_is_ready (total_ops b) F) q)) =
        filter_mset (\<lambda>i. \<not> frontiered_is_ready (total_ops b) F i) (mset q) \<and>
      sorted (map fa_at (snd (drain (frontiered_is_ready (total_ops b) F) q)))"
    by (rule drain_exact[OF assms]) (force simp: ready list_all_iff)
  then show ?thesis unfolding ready not_ready by simp
qed

theorem frontier_drain_exact_witness:
  "mset (fst (drain (frontiered_is_ready u64_ops [5])
      (frontier_schedule_at 6 ''b'' (frontier_schedule_at 5 ''a'' [])))) = {# FrontieredActivator 5 ''a'' #}"
proof -
  let ?q = "frontier_schedule_at (6 :: u64) ''b'' (frontier_schedule_at 5 ''a'' [])"
  have q: "?q = [FrontieredActivator 5 ''a'', FrontieredActivator 6 ''b'']"
    by (simp add: frontier_schedule_at_def heap_push_def)
  show ?thesis using frontier_drain_exact[of ?q 0 "[5]"] unfolding q by simp
qed

text \<open>Over bitemporal times the head of the queue can be not ready while a later item is, so that
  \<^verbatim>\<open>has_pending\<close> is false although a ready activator is queued.\<close>

theorem frontier_pending_missed:
  "let q = frontier_schedule_at (Pair (2 :: u64) (1 :: u64)) ''b'' (frontier_schedule_at (Pair 1 5) ''a'' []);
       F = [Pair 1 4] in
   \<not> frontier_has_pending (pair_ops u64_ops u64_ops) F q \<and>
   list_ex (frontiered_is_ready (pair_ops u64_ops u64_ops) F) q"
  by (simp add: frontier_schedule_at_def heap_push_def frontier_has_pending_def frontiered_is_ready_def
      less_than_def pair_ops_def pair_less_equal_def total_ops_def less_eq_pair_def Let_def word_le_nat_alt)

end
