(* ===== verification/Server_State.thy ===== *)
theory Server_State
  imports Implementation Last_Write_Wins Scheduling
begin

text \<open>
  The state of a worker's server and the operations on it, from \<^verbatim>\<open>src/src/server/mod.rs\<close>. A client token is a
  number, and the clients interested in a name are a hash set, listed once each. Removing or replacing a shutdown handle
  drops it, which presses its buttons; \<open>pressed\<close> lists the buttons pressed so far. The process-wide counter behind
  \<^verbatim>\<open>gensym\<close> is part of the state; what a failed implementation drew from it is not counted. The links to the event logs of the runtime are left out.

  What a dataflow is built with is collected in \<open>server_env\<close>: the environment of the plans, consolidation, what recursive
  variables hold, the order of hash sets, the probe of a new domain, the batches of an arrangement and the distinct
  operator on attributes.
\<close>

section \<open>State\<close>

type_synonym token = usize

record server_configuration =
  tick :: "duration option"
  manual_advance :: bool
  enable_logging :: bool
  enable_optimizer :: bool

definition default_configuration :: server_configuration where
  "default_configuration = \<lparr> tick = None, manual_advance = False, enable_logging = False, enable_optimizer = False \<rparr>"

record ('t, 'w, 'pr) server =
  config :: server_configuration
  t0 :: nat
  internal :: "('t, 'pr) rule_domain"
  interests :: "(aid, token list) hash_map"
  query_handles :: "(aid, handle) hash_map"
  server_probe :: 'pr
  server_scheduler :: "('t, 'w) scheduler"
  pressed :: "button list"
  symbols :: u64

record ('t, 'pr) server_env =
  env_time :: "'t time_ops"
  env_into_time :: "'t \<Rightarrow> time"
  env_plans :: "'t plan_env"
  env_consolidate :: "'t tuples \<Rightarrow> 't tuples"
  env_hash_order :: "aid list \<Rightarrow> aid list"
  env_held :: "aid \<Rightarrow> 't tuples"
  env_probe :: 'pr
  env_batches :: "(df_value \<times> df_value, 't) collection \<Rightarrow> 't lww_batch list"
  env_distinct :: "(df_value \<times> df_value, 't) collection \<Rightarrow> (df_value \<times> df_value, 't) collection"

definition server_new_at :: "('t, 'pr) server_env \<Rightarrow> server_configuration \<Rightarrow> nat \<Rightarrow> u64 \<Rightarrow> ('t, 'w, 'pr) server" where
  "server_new_at S cfg start symbol =
     \<lparr> config = cfg, t0 = start, internal = domain_new (env_time S) (env_probe S) (dflt (env_time S)), interests = [],
       query_handles = [], server_probe = env_probe S, server_scheduler = scheduler_from, pressed = [], symbols = symbol \<rparr>"

section \<open>Operations\<close>

definition drop_query_handle :: "aid \<Rightarrow> ('t, 'w, 'pr) server \<Rightarrow> ('t, 'w, 'pr) server" where
  "drop_query_handle name sv =
     sv \<lparr> pressed := pressed sv @ (case map_of (query_handles sv) name of None \<Rightarrow> [] | Some h \<Rightarrow> h) \<rparr>"

definition shutdown_query :: "aid \<Rightarrow> ('t, 'w, 'pr) server \<Rightarrow> ('t, 'w, 'pr) server" where
  "shutdown_query name sv = (drop_query_handle name sv) \<lparr> query_handles := hm_remove name (query_handles sv) \<rparr>"

text \<open>Only the worker that received a transaction applies it.\<close>

definition server_transact ::
  "('t, 'pr) server_env \<Rightarrow> aid datom list \<Rightarrow> usize \<Rightarrow> usize \<Rightarrow> ('t, 'w, 'pr) server \<Rightarrow> ((error + unit) \<times> ('t, 'w, 'pr) server) run" where
  "server_transact S tx_data owner worker_index sv =
     (if owner = worker_index
      then run_bind (transact (env_time S) tx_data (internal sv)) (\<lambda>(result, dm). Inr (result, sv \<lparr> internal := dm \<rparr>))
      else Inr (Inr (), sv))"

definition interest ::
  "('t, 'pr) server_env \<Rightarrow> aid \<Rightarrow> ('t, 'w, 'pr) server \<Rightarrow> ((error + (tuple, 't) collection) \<times> ('t, 'w, 'pr) server) run option" where
  "interest S name sv =
     and_then ((if enable_optimizer (config sv) then implement_neu else implement)
         (env_plans S) (env_consolidate S) (env_hash_order S) (env_held S) (internal sv) name (symbols sv))
       (\<lambda>result. case result of
          Inl e \<Rightarrow> Inr (Inl e, sv)
        | Inr impl \<Rightarrow> (let sv1 = sv \<lparr> symbols := next_sym impl \<rparr> in
            case map_of (result_map impl) name of
              None \<Rightarrow> Inr (Inl (fault (''Relation of interest ('' @ name @ '') wasn't actually implemented.'')), sv1)
            | Some relation \<Rightarrow> Inr (Inr relation,
                (drop_query_handle name sv1) \<lparr> query_handles := hm_insert name (query_handle impl) (query_handles sv1) \<rparr>)))"

fun register_rules :: "rule list \<Rightarrow> ('t, 'pr) rule_domain \<Rightarrow> ('t, 'pr) rule_domain" where
  "register_rules [] dm = dm"
| "register_rules (rl # rs) dm =
     (if map_of (rules dm) (rule_name rl) \<noteq> None then register_rules rs dm
      else register_rules rs (dm \<lparr> rules := hm_insert (rule_name rl) rl (rules dm) \<rparr>))"

definition register :: "rule list \<Rightarrow> ('t, 'w, 'pr) server \<Rightarrow> (error + unit) \<times> ('t, 'w, 'pr) server" where
  "register rs sv = (Inr (), sv \<lparr> internal := register_rules rs (internal sv) \<rparr>)"

definition enforce_semantics ::
  "('t::linorder, 'pr) server_env \<Rightarrow> input_semantics \<Rightarrow> (df_value \<times> df_value, 't) collection \<Rightarrow> (df_value \<times> df_value, 't) collection run" where
  "enforce_semantics S semantics pairs =
     (case semantics of
        Raw \<Rightarrow> Inr pairs
      | LastWriteWins \<Rightarrow> last_write_wins (env_batches S pairs)
      | Distinct \<Rightarrow> Inr (env_distinct S pairs))"

text \<open>What both ways to create an attribute do with its configuration.\<close>

definition configure_attribute ::
  "('t, 'pr) server_env \<Rightarrow> attribute_config \<Rightarrow> ('t, rule, button, 'pr) scoped_domain \<Rightarrow> ('t, 'pr) rule_domain run" where
  "configure_attribute S cfg sd =
     run_bind (case trace_slack cfg of
         None \<Rightarrow> Inr sd
       | Some slack \<Rightarrow> run_bind (from_time (env_time S) slack) (\<lambda>t. Inr (with_slack (env_into_time S) t sd))) (\<lambda>sd1.
     run_bind (if input_semantics cfg \<noteq> LastWriteWins then with_query_support (env_time S) (query_support cfg) sd1 else Inr sd1) (\<lambda>sd2.
     run_bind (if index_direction cfg = Both then with_reverse_indices (env_time S) sd2 else Inr sd2) (\<lambda>sd3.
       Inr (scoped_into sd3))))"

definition create_attribute ::
  "('t::linorder, 'pr) server_env \<Rightarrow> aid \<Rightarrow> attribute_config \<Rightarrow> (df_value \<times> df_value, 't) collection \<Rightarrow> ('t, 'w, 'pr) server \<Rightarrow>
   ((error + unit) \<times> ('t, 'w, 'pr) server) run" where
  "create_attribute S name cfg pairs sv =
     run_bind (enforce_semantics S (input_semantics cfg) pairs) (\<lambda>tuples.
     run_bind (configure_attribute S cfg
         (singleton_transactable (env_time S) (env_probe S) name (tminimum (lat (env_time S))) tuples)) (\<lambda>dm.
     run_bind (domain_add_assign (env_time S) (internal sv) dm) (\<lambda>dm'.
       Inr (Inr (), sv \<lparr> internal := dm' \<rparr>))))"

fun add_sources ::
  "('t::linorder, 'pr) server_env \<Rightarrow> (aid \<times> attribute_config \<times> (df_value \<times> df_value, 't) collection) list \<Rightarrow>
   ('t, 'pr) rule_domain \<Rightarrow> ('t, 'pr) rule_domain run" where
  "add_sources S [] dm = Inr dm"
| "add_sources S ((name, cfg, pairs) # streams) dm =
     run_bind (enforce_semantics S (input_semantics cfg) pairs) (\<lambda>tuples.
     run_bind (configure_attribute S cfg (singleton_sourced (env_time S) (env_probe S) name tuples)) (\<lambda>sourced.
     run_bind (domain_add_assign (env_time S) dm sourced) (\<lambda>dm'. add_sources S streams dm')))"

text \<open>The streams of a source are an argument.\<close>

definition register_source ::
  "('t::linorder, 'pr) server_env \<Rightarrow> (aid \<times> attribute_config \<times> (df_value \<times> df_value, 't) collection) list \<Rightarrow>
   ('t, 'w, 'pr) server \<Rightarrow> ((error + unit) \<times> ('t, 'w, 'pr) server) run" where
  "register_source S streams sv =
     run_bind (add_sources S streams (internal sv)) (\<lambda>dm. Inr (Inr (), sv \<lparr> internal := dm \<rparr>))"

definition advance_domain ::
  "('t, 'pr) server_env \<Rightarrow> string option \<Rightarrow> 't \<Rightarrow> ('t, 'w, 'pr) server \<Rightarrow> ((error + unit) \<times> ('t, 'w, 'pr) server) run" where
  "advance_domain S name next sv =
     (case name of
        None \<Rightarrow> run_bind (advance_epoch (env_time S) next (internal sv)) (\<lambda>(result, dm). Inr (result, sv \<lparr> internal := dm \<rparr>))
      | Some _ \<Rightarrow> Inr (Inl (unsupported ''Named domains are not yet supported.''), sv))"

definition uninterest :: "token \<Rightarrow> aid \<Rightarrow> ('t, 'w, 'pr) server \<Rightarrow> (error + unit) \<times> ('t, 'w, 'pr) server" where
  "uninterest client name sv =
     (case map_of (interests sv) name of
        None \<Rightarrow> (Inr (), sv)
      | Some entry \<Rightarrow>
          (let entry' = filter (\<lambda>c. c \<noteq> client) entry in
           if entry' = []
           then (Inr (), (shutdown_query name sv) \<lparr> interests := hm_remove name (interests sv) \<rparr>)
           else (Inr (), sv \<lparr> interests := hm_insert name entry' (interests sv) \<rparr>)))"

fun uninterest_all :: "token \<Rightarrow> aid list \<Rightarrow> ('t, 'w, 'pr) server \<Rightarrow> (error + unit) \<times> ('t, 'w, 'pr) server" where
  "uninterest_all client [] sv = (Inr (), sv)"
| "uninterest_all client (name # names) sv =
     (case uninterest client name sv of
        (Inl e, sv') \<Rightarrow> (Inl e, sv')
      | (Inr _, sv') \<Rightarrow> uninterest_all client names sv')"

definition disconnect_client :: "token \<Rightarrow> ('t, 'w, 'pr) server \<Rightarrow> (error + unit) \<times> ('t, 'w, 'pr) server" where
  "disconnect_client client sv = uninterest_all client (keys_of (interests sv)) sv"

definition is_any_outdated :: "('t, 'pr) server_env \<Rightarrow> ('pr \<Rightarrow> 't list) \<Rightarrow> ('t, 'w, 'pr) server \<Rightarrow> bool" where
  "is_any_outdated S probe_frontier sv =
     dominates (env_time S) probe_frontier (probe_frontier (server_probe sv)) (internal sv)"

text \<open>The helper of the tests: registers a rule and builds it, or panics with the error.\<close>

definition test_single ::
  "('t, 'pr) server_env \<Rightarrow> (error \<Rightarrow> string) \<Rightarrow> rule \<Rightarrow> ('t, 'w, 'pr) server \<Rightarrow> ((tuple, 't) collection \<times> ('t, 'w, 'pr) server) run option" where
  "test_single S debug_error rl sv =
     and_then (interest S (rule_name rl) (snd (register [rl] sv))) (\<lambda>(result, sv').
       case result of Inl e \<Rightarrow> Inl (debug_error e) | Inr relation \<Rightarrow> Inr (relation, sv'))"

end
