(* ===== verification/Requests.thy ===== *)
theory Requests
  imports Server_State
begin

text \<open>
  Requests and the event loop of a worker, from \<^verbatim>\<open>src/server/src/main.rs\<close>. All workers handle the same sequence of commands, which the sequencer of timely
  provides; a command carries the worker and the client it came from. A request yields a result and the new state;
  \<open>None\<close> is a request whose implementation does not return. What is sent to clients and what dataflows are installed is part of
  the state. Clocks are nanoseconds. The request to derive attributes belongs to the graphql feature.
\<close>

section \<open>Requests\<close>

record 'k interest_request =
  interest_name :: aid
  granularity :: "time option"
  sink :: "'k option"
  disable_logging :: "bool option"

datatype ('k, 's) request =
    Transact "aid datom list"
  | Subscribe aid
  | Interest "'k interest_request"
  | Uninterest aid
  | Register "rule list" "aid list"
  | RegisterSource 's
  | CreateAttribute aid attribute_config
  | AdvanceDomain "string option" time
  | TickRequest
  | CloseInput aid
  | Disconnect
  | Setup
  | Status
  | Shutdown

record ('k, 's) command =
  owner :: usize
  client :: token
  requests :: "('k, 's) request list"

text \<open>A dataflow that forwards results: the name it reports, the worker that reports to the clients, and the results. The
  results of a query with a sink go to the sink.\<close>

datatype 't subscription =
    Subscription (sub_name: aid) (sub_owner: usize) (sub_results: "(tuple, 't) collection run")
  | Sunk (sub_name: aid) (sub_owner: usize) (sub_results: "(tuple, 't) collection run")

record ('t, 'w, 'pr) worker =
  server :: "('t, 'w, 'pr) server"
  next_tx :: u64
  stopping :: bool
  sent :: "df_output list"
  installed :: "'t subscription list"

text \<open>What a worker uses besides its server: its index, the configured clock and epochs, coarsening of times,
  the outcome of attaching a sink, the streams of a source and the contents of a new input.\<close>

record ('t, 'pr, 'k, 's) worker_env =
  env_server :: "('t, 'pr) server_env"
  worker_index :: usize
  epoch_of :: "u64 \<Rightarrow> nat \<Rightarrow> 't"
  coarsen_by :: "'t \<Rightarrow> 't \<Rightarrow> 't run"
  attach_sink :: "'k \<Rightarrow> error + unit"
  source_streams :: "'s \<Rightarrow> (aid \<times> attribute_config \<times> (df_value \<times> df_value, 't) collection) list"
  input_pairs :: "aid \<Rightarrow> (df_value \<times> df_value, 't) collection"

type_synonym ('t, 'w, 'pr) handled = "((error + unit) \<times> ('t, 'w, 'pr) worker) run option"

definition on_server :: "((error + unit) \<times> ('t, 'w, 'pr) server) run \<Rightarrow> ('t, 'w, 'pr) worker \<Rightarrow> ('t, 'w, 'pr) handled" where
  "on_server r w = Some (run_bind r (\<lambda>(result, sv). Inr (result, w \<lparr> server := sv \<rparr>)))"

text \<open>\<^verbatim>\<open>entry(name).or_insert_with(HashSet::new)\<close> and \<^verbatim>\<open>insert\<close>.\<close>

definition interest_entry :: "aid \<Rightarrow> ('t, 'w, 'pr) worker \<Rightarrow> token list" where
  "interest_entry name w = (case map_of (interests (server w)) name of None \<Rightarrow> [] | Some entry \<Rightarrow> entry)"

definition add_interest :: "aid \<Rightarrow> token \<Rightarrow> ('t, 'w, 'pr) worker \<Rightarrow> ('t, 'w, 'pr) worker" where
  "add_interest name token w =
     w \<lparr> server := server w \<lparr> interests := hm_insert name (List.insert token (interest_entry name w)) (interests (server w)) \<rparr> \<rparr>"

definition handle_subscribe ::
  "('t, 'pr, 'k, 's) worker_env \<Rightarrow> usize \<Rightarrow> token \<Rightarrow> aid \<Rightarrow> ('t, 'w, 'pr) worker \<Rightarrow> ('t, 'w, 'pr) handled" where
  "handle_subscribe W own token a w =
     (let w1 = add_interest a token w in
      if length (interest_entry a w1) > 1 then Some (Inr (Inr (), w1))
      else (case forward_propose_of a (internal (server w1)) of
          None \<Rightarrow> Some (Inl ''called Option::unwrap() on a None value'')
        | Some propose \<Rightarrow>
            Some (Inr (Inr (), w1 \<lparr> installed := installed w1 @
              [Subscription a own (Inr (coll_map (\<lambda>(e, v). [e, v]) (import_trace (env_ops (env_plans (env_server W))) propose)))] \<rparr>))))"

definition delay_results ::
  "('t \<Rightarrow> 't \<Rightarrow> 't run) \<Rightarrow> 't option \<Rightarrow> (tuple, 't) collection \<Rightarrow> (tuple, 't) collection run" where
  "delay_results coarsen g relation =
     (case g of
        None \<Rightarrow> Inr relation
      | Some g \<Rightarrow> run_map (\<lambda>(tup, t, d). run_bind (coarsen t g) (\<lambda>t'. Inr (tup, t', d))) relation)"

text \<open>Only the first interest in a name builds its dataflow. The results are consolidated before they are sent, which does not
  change what they hold; switching the loggers off while the dataflow is built has no other effect.\<close>

definition handle_interest ::
  "('t, 'pr, 'k, 's) worker_env \<Rightarrow> usize \<Rightarrow> token \<Rightarrow> 'k interest_request \<Rightarrow> ('t, 'w, 'pr) worker \<Rightarrow> ('t, 'w, 'pr) handled" where
  "handle_interest W own token req w =
     (let name = interest_name req; was_first = interest_entry name w = []; w1 = add_interest name token w in
      if \<not> was_first then Some (Inr (Inr (), w1))
      else and_then (interest (env_server W) name (server w1)) (\<lambda>(result, sv).
        let w2 = w1 \<lparr> server := sv \<rparr> in
        case result of
          Inl e \<Rightarrow> Inr (Inl e, w2)
        | Inr relation \<Rightarrow>
            run_bind (case granularity req of
                None \<Rightarrow> Inr None
              | Some g \<Rightarrow> run_bind (from_time (env_time (env_server W)) g) (\<lambda>t. Inr (Some t))) (\<lambda>g.
            let delayed = delay_results (coarsen_by W) g relation in
            case sink req of
              Some k \<Rightarrow> (case attach_sink W k of
                  Inl e \<Rightarrow> Inr (Inl e, w2)
                | Inr _ \<Rightarrow> Inr (Inr (), w2 \<lparr> installed := installed w2 @ [Sunk name own delayed] \<rparr>))
            | None \<Rightarrow> Inr (Inr (), w2 \<lparr> installed := installed w2 @ [Subscription name own delayed] \<rparr>))))"

definition status_message :: json where
  "status_message = JObject [(''category'', JString ''df/status''), (''message'', JString ''running'')]"

text \<open>A tick only schedules the next one, on the first worker.\<close>

definition nanos_duration :: "nat \<Rightarrow> duration" where
  "nanos_duration n = Duration (of_nat (n div 1000000000)) (of_nat (n mod 1000000000))"

definition handle_tick :: "('t, 'pr, 'k, 's) worker_env \<Rightarrow> nat \<Rightarrow> ('t, 'w, 'pr) worker \<Rightarrow> ('t, 'w, 'pr) handled" where
  "handle_tick W now w =
     (if worker_index W \<noteq> 0 then Some (Inr (Inr (), w))
      else (case tick (config (server w)) of
          None \<Rightarrow> Some (Inr (Inr (), w))
        | Some interval \<Rightarrow>
            Some (run_bind (duration_coarsen (nanos_duration (now - t0 (server w))) interval) (\<lambda>interval_end.
              let when = t0 (server w) + dur_ns interval_end; sched = server_scheduler (server w) in
              Inr (Inr (), w \<lparr> server := server w \<lparr> server_scheduler :=
                sched \<lparr> realtime_sched := event_at when Tick (realtime_sched sched) \<rparr> \<rparr> \<rparr>)))))"

definition handle_close ::
  "('t, 'pr, 'k, 's) worker_env \<Rightarrow> aid \<Rightarrow> ('t, 'w, 'pr) worker \<Rightarrow> ('t, 'w, 'pr) handled" where
  "handle_close W name w =
     (let (result, dm, _) = close_input (env_time (env_server W)) name (internal (server w)) in
      Some (Inr (result, w \<lparr> server := server w \<lparr> internal := dm \<rparr> \<rparr>)))"

fun handle_request ::
  "('t::linorder, 'pr, 'k, 's) worker_env \<Rightarrow> nat \<Rightarrow> usize \<Rightarrow> token \<Rightarrow> ('k, 's) request \<Rightarrow> ('t, 'w, 'pr) worker \<Rightarrow>
   ('t, 'w, 'pr) handled" where
  "handle_request W now own token (Transact tx_data) w =
     on_server (server_transact (env_server W) tx_data own (worker_index W) (server w)) w"
| "handle_request W now own token (Subscribe a) w = handle_subscribe W own token a w"
| "handle_request W now own token (Interest req) w = handle_interest W own token req w"
| "handle_request W now own token (Uninterest name) w = on_server (Inr (uninterest token name (server w))) w"
| "handle_request W now own token (Register rs publish) w = on_server (Inr (register rs (server w))) w"
| "handle_request W now own token (RegisterSource source) w =
     on_server (register_source (env_server W) (source_streams W source) (server w)) w"
| "handle_request W now own token (CreateAttribute name cfg) w =
     on_server (create_attribute (env_server W) name cfg (input_pairs W name) (server w)) w"
| "handle_request W now own token (AdvanceDomain name next) w =
     on_server (run_bind (from_time (env_time (env_server W)) next) (\<lambda>t. advance_domain (env_server W) name t (server w))) w"
| "handle_request W now own token (CloseInput name) w = handle_close W name w"
| "handle_request W now own token Disconnect w = on_server (Inr (disconnect_client token (server w))) w"
| "handle_request W now own token Setup w = Some (Inl ''not implemented'')"
| "handle_request W now own token TickRequest w = handle_tick W now w"
| "handle_request W now own token Status w = Some (Inr (Inr (), w \<lparr> sent := sent w @ [Message token status_message] \<rparr>))"
| "handle_request W now own token Shutdown w = Some (Inr (Inr (), w \<lparr> stopping := True \<rparr>))"

section \<open>Commands and the event loop\<close>

text \<open>An error is reported to the client with the transaction before this one; the other requests of the command go on.\<close>

fun handle_requests ::
  "('t::linorder, 'pr, 'k, 's) worker_env \<Rightarrow> nat \<Rightarrow> usize \<Rightarrow> token \<Rightarrow> ('k, 's) request list \<Rightarrow> ('t, 'w, 'pr) worker \<Rightarrow>
   ('t, 'w, 'pr) worker run option" where
  "handle_requests W now own token [] w = Some (Inr w)"
| "handle_requests W now own token (req # reqs) w =
     (case handle_request W now own token req w of
        None \<Rightarrow> None
      | Some (Inl msg) \<Rightarrow> Some (Inl msg)
      | Some (Inr (Inl e, w')) \<Rightarrow>
          handle_requests W now own token reqs (w' \<lparr> sent := sent w' @ [OError token e (next_tx w' - 1)] \<rparr>)
      | Some (Inr (Inr _, w')) \<Rightarrow> handle_requests W now own token reqs w')"

definition expect_ok :: "string \<Rightarrow> ((error + unit) \<times> 'a) run \<Rightarrow> 'a run" where
  "expect_ok msg r = run_bind r (\<lambda>(result, x). case result of Inl _ \<Rightarrow> Inl msg | Inr _ \<Rightarrow> Inr x)"

definition advance_after_command ::
  "('t, 'pr, 'k, 's) worker_env \<Rightarrow> nat \<Rightarrow> ('t, 'w, 'pr) worker \<Rightarrow> ('t, 'w, 'pr) worker run" where
  "advance_after_command W now w =
     (if manual_advance (config (server w)) then Inr w
      else run_bind (expect_ok ''failed to advance epoch''
          (advance_epoch (env_time (env_server W)) (epoch_of W (next_tx w) (now - t0 (server w))) (internal (server w))))
        (\<lambda>dm. Inr (w \<lparr> server := server w \<lparr> internal := dm \<rparr> \<rparr>)))"

definition handle_command ::
  "('t::linorder, 'pr, 'k, 's) worker_env \<Rightarrow> nat \<Rightarrow> ('k, 's) command \<Rightarrow> ('t, 'w, 'pr) worker \<Rightarrow> ('t, 'w, 'pr) worker run option" where
  "handle_command W now cmd w =
     and_then (handle_requests W now (owner cmd) (client cmd) (requests cmd) (w \<lparr> next_tx := next_tx w + 1 \<rparr>))
       (advance_after_command W now)"

fun handle_commands ::
  "('t::linorder, 'pr, 'k, 's) worker_env \<Rightarrow> (nat \<times> ('k, 's) command) list \<Rightarrow> ('t, 'w, 'pr) worker \<Rightarrow> ('t, 'w, 'pr) worker run option" where
  "handle_commands W [] w = Some (Inr w)"
| "handle_commands W ((now, cmd) # cmds) w =
     (case handle_command W now cmd w of
        Some (Inr w') \<Rightarrow> handle_commands W cmds w'
      | r \<Rightarrow> r)"

datatype ('k, 's) domain_event = EventRequests token "('k, 's) request list" | EventDisconnect token

definition system_token :: token where
  "system_token = 2 ^ 64 - 1 - 3"

text \<open>The commands every worker starts with: no built-in requests, and on the first worker a tick if one is configured.\<close>

definition builtins :: "('k, 's) request list" where
  "builtins = []"

definition initial_commands :: "usize \<Rightarrow> server_configuration \<Rightarrow> ('k, 's) command list" where
  "initial_commands index cfg =
     \<lparr> owner = index, client = system_token, requests = builtins \<rparr> #
     (if index = 0 \<and> tick cfg \<noteq> None then [\<lparr> owner = 0, client = system_token, requests = [TickRequest] \<rparr>] else [])"

text \<open>The commands a worker pushes to the sequencer: ticks that are due, and what its clients sent.\<close>

definition due_ticks :: "nat \<Rightarrow> usize \<Rightarrow> 'w realtime_scheduler \<Rightarrow> ('k, 's) command list \<times> 'w realtime_scheduler" where
  "due_ticks now index timers =
     (let (ready, rest) = drain (timed_is_ready now) timers in
      (concat (map (\<lambda>a. case ta_event a of None \<Rightarrow> [] | Some Tick \<Rightarrow>
         [\<lparr> owner = index, client = system_token, requests = [TickRequest] \<rparr>]) ready), rest))"

fun event_command :: "usize \<Rightarrow> ('k, 's) domain_event \<Rightarrow> ('k, 's) command" where
  "event_command index (EventRequests token reqs) = \<lparr> owner = index, client = token, requests = reqs \<rparr>"
| "event_command index (EventDisconnect token) = \<lparr> owner = index, client = token, requests = [Disconnect] \<rparr>"

text \<open>One round of the loop up to the steps of the dataflows, given the events of the network and the commands
  that the sequencer yields; the commands pushed are returned.\<close>

definition loop_round ::
  "('t::linorder, 'pr, 'k, 's) worker_env \<Rightarrow> 't list \<Rightarrow> nat \<Rightarrow> ('k, 's) domain_event list \<Rightarrow> (nat \<times> ('k, 's) command) list \<Rightarrow>
   ('pr \<Rightarrow> 't list) \<Rightarrow> ('t, 'w, 'pr) worker \<Rightarrow> (('k, 's) command list \<times> ('t, 'w, 'pr) worker) run option" where
  "loop_round W frontier now events cmds probe_frontier w =
     (let sched = server_scheduler (server w);
          (ticks, sched') = (if scheduler_has_pending (lat (env_time (env_server W))) frontier now sched
            then (let (ticks, rest) = due_ticks now (worker_index W) (realtime_sched sched)
                  in (ticks, sched \<lparr> realtime_sched := rest \<rparr>))
            else ([], sched));
          w1 = w \<lparr> server := server w \<lparr> server_scheduler := sched' \<rparr> \<rparr> in
      and_then (handle_commands W cmds w1) (\<lambda>w2.
        run_bind (expect_ok ''failed to advance domain'' (advance (env_time (env_server W)) probe_frontier (internal (server w2))))
          (\<lambda>dm. Inr (ticks @ map (event_command (worker_index W)) events,
             w2 \<lparr> server := server w2 \<lparr> internal := dm \<rparr> \<rparr>))))"

end
