(* ===== verification/Networking.thy ===== *)
theory Networking
  imports Requests
begin

text \<open>
  The network side of a worker, from \<^verbatim>\<open>src/server/src/networking.rs\<close>: accepting connections, turning messages into requests,
  and routing outputs to clients. What the sockets report is the argument of a step: a connection attempt and its
  outcome, that results are waiting, or what a connection read and whether it is still active. The slab's choice of a
  vacant key, the parsing of messages and whether a websocket accepts a message are parameters. \<open>delivered\<close> lists the messages given to
  the websockets.
\<close>

section \<open>State\<close>

datatype ws_message = Text string | Binary "8 word list"

datatype conn_event = ReceivedMessage ws_message | ClosingConnection | OtherConnEvent

datatype poll_event =
    ServerReady "string + unit"
  | ResultsReady
  | ConnectionReady token "conn_event list" bool

record ('k, 's) io_env =
  vacant_key :: "token list \<Rightarrow> token"
  parse_requests :: "string \<Rightarrow> string + ('k, 's) request list"
  accepts_message :: "token \<Rightarrow> df_output \<Rightarrow> bool"

record ('k, 's) io =
  domain_events :: "('k, 's) domain_event list"
  channel :: "df_output list"
  connections :: "(token, u32) hash_map"
  next_connection_id :: u32
  delivered :: "(token \<times> df_output) list"

definition io_new :: "('k, 's) io" where
  "io_new = \<lparr> domain_events = [], channel = [], connections = [], next_connection_id = 0, delivered = [] \<rparr>"

section \<open>Routing of outputs\<close>

text \<open>The clients an output goes to, and its delivery; a client without a connection is reported as disconnected.\<close>

fun recipients :: "(aid, token list) hash_map \<Rightarrow> df_output \<Rightarrow> token list" where
  "recipients ints (QueryDiff name results) = (case map_of ints name of None \<Rightarrow> [] | Some tokens \<Rightarrow> tokens)"
| "recipients ints (Json name _ _ _) = (case map_of ints name of None \<Rightarrow> [] | Some tokens \<Rightarrow> tokens)"
| "recipients ints (Message c _) = [c]"
| "recipients ints (OError c _ _) = [c]"

fun deliver :: "('k, 's) io_env \<Rightarrow> df_output \<Rightarrow> token list \<Rightarrow> ('k, 's) io \<Rightarrow> ('k, 's) io run" where
  "deliver N out [] io = Inr io"
| "deliver N out (token # tokens) io =
     (if map_of (connections io) token = None
      then deliver N out tokens (io \<lparr> domain_events := domain_events io @ [EventDisconnect token] \<rparr>)
      else if accepts_message N token out
      then deliver N out tokens (io \<lparr> delivered := delivered io @ [(token, out)] \<rparr>)
      else Inl ''failed to send message'')"

fun deliver_all ::
  "('k, 's) io_env \<Rightarrow> (aid, token list) hash_map \<Rightarrow> df_output list \<Rightarrow> ('k, 's) io \<Rightarrow> ('k, 's) io run" where
  "deliver_all N ints [] io = Inr io"
| "deliver_all N ints (out # outs) io = run_bind (deliver N out (recipients ints out) io) (deliver_all N ints outs)"

definition drain_results :: "('k, 's) io_env \<Rightarrow> (aid, token list) hash_map \<Rightarrow> ('k, 's) io \<Rightarrow> ('k, 's) io run" where
  "drain_results N ints io = deliver_all N ints (channel io) (io \<lparr> channel := [] \<rparr>)"

section \<open>Events\<close>

definition accept_connection :: "('k, 's) io_env \<Rightarrow> ('k, 's) io \<Rightarrow> ('k, 's) io" where
  "accept_connection N io =
     io \<lparr> connections := hm_insert (vacant_key N (keys_of (connections io))) (next_connection_id io) (connections io),
       next_connection_id := next_connection_id io + 1 \<rparr>"

fun handle_conn_event ::
  "('k, 's) io_env \<Rightarrow> u64 \<Rightarrow> token \<Rightarrow> conn_event \<Rightarrow> ('k, 's) io \<Rightarrow> ('k, 's) io run" where
  "handle_conn_event N t token (ReceivedMessage (Text text)) io =
     (case parse_requests N text of
        Inl e \<Rightarrow> Inr (io \<lparr> channel := channel io @ [OError token (incorrect e) t] \<rparr>)
      | Inr reqs \<Rightarrow> Inr (io \<lparr> domain_events := domain_events io @ [EventRequests token reqs] \<rparr>))"
| "handle_conn_event N t token (ReceivedMessage (Binary _)) io = Inl ''not implemented''"
| "handle_conn_event N t token ClosingConnection io = Inr io"
| "handle_conn_event N t token OtherConnEvent io = Inr io"

fun handle_conn_events ::
  "('k, 's) io_env \<Rightarrow> u64 \<Rightarrow> token \<Rightarrow> conn_event list \<Rightarrow> ('k, 's) io \<Rightarrow> ('k, 's) io run" where
  "handle_conn_events N t token [] io = Inr io"
| "handle_conn_events N t token (ev # evs) io =
     run_bind (handle_conn_event N t token ev io) (handle_conn_events N t token evs)"

fun handle_poll_event ::
  "('k, 's) io_env \<Rightarrow> u64 \<Rightarrow> (aid, token list) hash_map \<Rightarrow> poll_event \<Rightarrow> ('k, 's) io \<Rightarrow> ('k, 's) io run" where
  "handle_poll_event N t ints (ServerReady (Inl err)) io = Inr io"
| "handle_poll_event N t ints (ServerReady (Inr _)) io = Inr (accept_connection N io)"
| "handle_poll_event N t ints ResultsReady io = drain_results N ints io"
| "handle_poll_event N t ints (ConnectionReady token evs active) io =
     (if map_of (connections io) token = None then Inl ''invalid key''
      else run_bind (handle_conn_events N t token evs io) (\<lambda>io1.
        Inr (if active then io1
             else io1 \<lparr> domain_events := domain_events io1 @ [EventDisconnect token],
               connections := hm_remove token (connections io1) \<rparr>)))"

fun io_step ::
  "('k, 's) io_env \<Rightarrow> u64 \<Rightarrow> (aid, token list) hash_map \<Rightarrow> poll_event list \<Rightarrow> ('k, 's) io \<Rightarrow> ('k, 's) io run" where
  "io_step N t ints [] io = Inr io"
| "io_step N t ints (ev # evs) io = run_bind (handle_poll_event N t ints ev io) (io_step N t ints evs)"

definition io_next :: "('k, 's) io \<Rightarrow> ('k, 's) domain_event option \<times> ('k, 's) io" where
  "io_next io =
     (case domain_events io of
        [] \<Rightarrow> (None, io)
      | ev # evs \<Rightarrow> (Some ev, io \<lparr> domain_events := evs \<rparr>))"

section \<open>Delivery\<close>

definition has_connection :: "('k, 's) io \<Rightarrow> token \<Rightarrow> bool" where
  "has_connection io token \<longleftrightarrow> map_of (connections io) token \<noteq> None"

definition messages_to :: "token \<Rightarrow> ('k, 's) io \<Rightarrow> df_output list" where
  "messages_to token io = map snd (filter (\<lambda>(k, _). k = token) (delivered io))"

text \<open>What delivering some outputs does to the rest of the state.\<close>

definition gone :: "(aid, token list) hash_map \<Rightarrow> ('k, 's) io \<Rightarrow> df_output list \<Rightarrow> ('k, 's) domain_event list" where
  "gone ints io outs = concat (map (\<lambda>out. map EventDisconnect (filter (\<lambda>c. \<not> has_connection io c) (recipients ints out))) outs)"

lemma deliver_exact:
  assumes "\<And>token. accepts_message N token out"
  shows "deliver N out tokens io = Inr (io \<lparr> delivered := delivered io @ map (\<lambda>c. (c, out)) (filter (has_connection io) tokens),
    domain_events := domain_events io @ map EventDisconnect (filter (\<lambda>c. \<not> has_connection io c) tokens) \<rparr>)"
  using assms
proof (induction tokens arbitrary: io)
  case (Cons token tokens)
  have keep: "has_connection (io \<lparr> delivered := d \<rparr>) = has_connection io" "has_connection (io \<lparr> domain_events := ev \<rparr>) = has_connection io" for d ev
    by (auto simp: fun_eq_iff has_connection_def)
  show ?case
  proof (cases "has_connection io token")
    case True
    then show ?thesis using Cons by (simp add: keep) (auto simp: has_connection_def)
  next
    case False
    then show ?thesis using Cons by (simp add: keep) (simp add: has_connection_def)
  qed
qed simp

lemma deliver_all_exact:
  assumes "\<And>token out. accepts_message N token out"
  shows "deliver_all N ints outs io = Inr (io \<lparr>
    delivered := delivered io @ concat (map (\<lambda>out. map (\<lambda>c. (c, out)) (filter (has_connection io) (recipients ints out))) outs),
    domain_events := domain_events io @ gone ints io outs \<rparr>)"
proof (induction outs arbitrary: io)
  case (Cons out outs)
  have keep: "has_connection (io \<lparr> delivered := d, domain_events := ev \<rparr>) = has_connection io" for d ev
    by (auto simp: fun_eq_iff has_connection_def)
  then have "gone ints (io \<lparr> delivered := d, domain_events := ev \<rparr>) = gone ints io" for d ev
    by (auto simp: fun_eq_iff gone_def)
  with keep Cons.IH show ?case by (simp add: deliver_exact[OF assms]) (simp add: gone_def)
qed (simp add: gone_def)

lemma gone_mem:
  "EventDisconnect c \<in> set (gone ints io outs) \<longleftrightarrow> \<not> has_connection io c \<and> (\<exists>out \<in> set outs. c \<in> set (recipients ints out))"
  by (auto simp: gone_def)

lemma messages_append:
  "distinct tokens \<Longrightarrow> map snd (filter (\<lambda>(k, _). k = c) (map (\<lambda>c. (c, out)) (filter P tokens))) = (if c \<in> set tokens \<and> P c then [out] else [])"
  by (induction tokens) auto

text \<open>C12: Every client with a connection is sent exactly the outputs addressed to it, each once and in the order in which they were
  produced: query results when it is interested in the query, and the messages and errors that answer its own
  requests. No other connection is written to; for every recipient without a connection a disconnect is reported
  instead. The queue is empty afterwards.\<close>

theorem outputs_delivered:
  assumes "\<And>token out. accepts_message N token out" and "\<forall>name tokens. map_of ints name = Some tokens \<longrightarrow> distinct tokens"
  shows "\<exists>io'. drain_results N ints io = Inr io' \<and> channel io' = [] \<and> connections io' = connections io \<and>
    (\<forall>c. messages_to c io' = messages_to c io @
       (if has_connection io c then filter (\<lambda>out. c \<in> set (recipients ints out)) (channel io) else [])) \<and>
    (\<forall>c. EventDisconnect c \<in> set (domain_events io') \<longleftrightarrow>
       EventDisconnect c \<in> set (domain_events io) \<or>
       \<not> has_connection io c \<and> (\<exists>out \<in> set (channel io). c \<in> set (recipients ints out)))"
proof -
  let ?io = "io \<lparr> channel := [] \<rparr>"
  have keep: "has_connection ?io = has_connection io" "gone ints ?io = gone ints io" by (auto simp: fun_eq_iff has_connection_def gone_def)
  have distinct: "distinct (recipients ints out)" for out
    using assms(2) by (cases out) (auto split: option.splits)
  have "map snd (filter (\<lambda>(k, _). k = c) (concat (map (\<lambda>out. map (\<lambda>c. (c, out)) (filter (has_connection io) (recipients ints out))) outs))) =
      (if has_connection io c then filter (\<lambda>out. c \<in> set (recipients ints out)) outs else [])" for c outs
    by (induction outs) (auto simp: messages_append[OF distinct])
  then show ?thesis
    unfolding drain_results_def deliver_all_exact[OF assms(1)] keep by (auto simp: messages_to_def gone_mem)
qed

definition small_net :: "(unit, unit) io_env" where
  "small_net = \<lparr> vacant_key = (\<lambda>ts. if ts = [] then 0 else Max (set ts) + 1), parse_requests = (\<lambda>_. Inr []),
     accepts_message = (\<lambda>_ _. True) \<rparr>"

definition small_io :: "(unit, unit) io" where
  "small_io = accept_connection small_net io_new \<lparr> channel :=
     [QueryDiff ''age'' [], QueryDiff ''name'' [], OError 3 (incorrect ''x'') 1] \<rparr>"

lemma small_io_simps:
  "channel small_io = [QueryDiff ''age'' [], QueryDiff ''name'' [], OError 3 (incorrect ''x'') 1]"
  "connections small_io = [(0, 0)]" "delivered small_io = []" "domain_events small_io = []"
  by (simp_all add: small_io_def small_net_def accept_connection_def io_new_def)

theorem outputs_delivered_witness:
  "\<exists>io'. drain_results small_net [(''age'', [0, 3])] small_io = Inr io' \<and> messages_to 0 io' = [QueryDiff ''age'' []] \<and>
     messages_to 3 io' = [] \<and> EventDisconnect 3 \<in> set (domain_events io')"
proof -
  have "has_connection small_io 0" "\<not> has_connection small_io 3" "messages_to c small_io = []" for c
    by (simp_all add: has_connection_def messages_to_def small_io_simps)
  moreover have "accepts_message small_net token out" for token out by (simp add: small_net_def)
  moreover have "\<forall>name tokens. map_of [(''age'', [0::nat, 3])] name = Some tokens \<longrightarrow> distinct tokens" by auto
  ultimately show ?thesis using outputs_delivered[of small_net "[(''age'', [0, 3])]" small_io]
    by (fastforce simp: small_io_simps)
qed

text \<open>C0: A client can stop the worker it is connected to with a single binary message, which panics as not implemented.\<close>

theorem binary_message_panics:
  assumes "has_connection io token"
  shows "io_step N t ints (ConnectionReady token (ReceivedMessage (Binary bytes) # evs) active # events) io = Inl ''not implemented''"
  using assms by (simp add: has_connection_def)

theorem binary_message_panics_witness:
  "io_step small_net 7 [] [ConnectionReady 0 [ReceivedMessage (Binary [1, 2])] True] small_io = Inl ''not implemented''"
  by (rule binary_message_panics) (simp add: has_connection_def small_io_simps)

end
