(* ===== verification/Server_Properties.thy ===== *)
theory Server_Properties
  imports Networking
begin

text \<open>
  What the server guarantees. Its bookkeeping refines a relation between clients and names: every request and every
  round of the event loop keeps the invariant that only names with an interested client have an entry or a dataflow,
  and that rules are registered under their own name.
\<close>

section \<open>Invariant\<close>

definition interested :: "('t, 'w, 'pr) server \<Rightarrow> (token \<times> aid) set" where
  "interested sv = {(c, n). \<exists>entry. map_of (interests sv) n = Some entry \<and> c \<in> set entry}"

definition server_inv :: "('t, 'w, 'pr) server \<Rightarrow> bool" where
  "server_inv sv \<longleftrightarrow>
     (\<forall>n. map_of (interests sv) n \<noteq> Some []) \<and> (\<forall>n entry. map_of (interests sv) n = Some entry \<longrightarrow> distinct entry) \<and>
     (\<forall>n. map_of (query_handles sv) n \<noteq> None \<longrightarrow> map_of (interests sv) n \<noteq> None) \<and>
     rules_keyed (internal sv)"

lemma server_inv_internal:
  "server_inv sv \<Longrightarrow> rules_keyed dm \<Longrightarrow> server_inv (sv \<lparr> internal := dm \<rparr>)"
  by (simp add: server_inv_def)

lemma server_inv_scheduler [simp]: "server_inv (sv \<lparr> server_scheduler := sched \<rparr>) = server_inv sv"
  by (simp add: server_inv_def)

lemma rules_keyed_cong: "rules dm' = rules dm \<Longrightarrow> rules_keyed dm \<Longrightarrow> rules_keyed dm'"
  by (simp add: rules_keyed_def rule_of_def)

lemma kept_rules: "rules dm = rules (internal sv) \<Longrightarrow> server_inv sv \<Longrightarrow> server_inv (sv \<lparr> internal := dm \<rparr>)"
  by (rule server_inv_internal) (auto simp: server_inv_def intro: rules_keyed_cong)

subsection \<open>Operations that keep the rules\<close>

named_theorems rules_kept

lemma transact_rules [rules_kept]: "transact T tx dm = Inr (result, dm') \<Longrightarrow> rules dm' = rules dm"
  by (induction T tx dm rule: transact.induct) (auto simp: run_simps split: option.splits)

lemma advance_epoch_rules [rules_kept]: "advance_epoch T t dm = Inr (result, dm') \<Longrightarrow> rules dm' = rules dm"
  by (auto simp: advance_epoch_def run_simps split: if_splits)

lemma compact_attributes_rules: "compact_attributes T F attrs dm = Inr dm' \<Longrightarrow> rules dm' = rules dm"
  by (induction T F attrs dm rule: compact_attributes.induct) (auto simp: run_simps compact_attribute_def split: option.splits)

lemma advance_traces_rules: "advance_traces T F dm = Inr dm' \<Longrightarrow> rules dm' = rules dm"
  by (auto simp: advance_traces_def dest!: compact_attributes_rules split: if_splits)

lemma advance_rules [rules_kept]:
  assumes "advance T pf dm = Inr (result, dm')"
  shows "rules dm' = rules dm"
proof (cases "\<exists>F. advance_traces T F dm = Inr dm'")
  case True
  then show ?thesis using advance_traces_rules by blast
next
  case False
  with assms obtain r dm1 where "(if \<not> frontier_le (lat T) (pf (domain_probe dm)) (epoch dm)
      then advance_epoch T (Max (set (pf (domain_probe dm)))) dm else Inr (Inr (), dm)) = Inr (r, dm1)"
    and r: "(case r of Inl err \<Rightarrow> Inr (Inl err, dm1)
      | Inr _ \<Rightarrow> run_bind (advance_traces T (pf (domain_probe dm)) dm1) (\<lambda>dm2. Inr (Inr (), dm2))) = Inr (result, dm')"
    by (auto simp: advance_def run_simps Let_def split: if_splits)
  then have "rules dm1 = rules dm" by (auto dest: advance_epoch_rules split: if_splits)
  with r show ?thesis by (cases r) (auto simp: run_simps dest: advance_traces_rules)
qed

lemma close_input_rules [rules_kept]: "close_input T name dm = (result, dm', s) \<Longrightarrow> rules dm' = rules dm"
  by (auto simp: close_input_def split: option.splits)

text \<open>What the configuration of an attribute leaves alone.\<close>

definition core :: "('t, 'r, 'b, 'pr) domain \<Rightarrow>
    string \<times> 't \<times> (aid, (df_value \<times> df_value, 't) session) hash_map \<times> usize \<times> (aid, 'r) hash_map" where
  "core dm = (namespace dm, now_at dm, input_sessions dm, probed_source_count dm, rules dm)"

lemma with_slack_core: "core (scoped (with_slack into t sd)) = core (scoped sd)"
  by (simp add: with_slack_def core_def)

lemma with_query_support_core: "with_query_support T s sd = Inr sd' \<Longrightarrow> core (scoped sd') = core (scoped sd)"
  by (auto simp: with_query_support_def run_simps Let_def core_def split: if_splits)

lemma with_reverse_indices_core: "with_reverse_indices T sd = Inr sd' \<Longrightarrow> core (scoped sd') = core (scoped sd)"
  by (auto simp: with_reverse_indices_def run_simps Let_def core_def)

lemma configure_attribute_core:
  assumes "configure_attribute S cfg sd = Inr dm"
  shows "core dm = core (scoped sd)"
proof -
  from assms obtain sd1 sd2 sd3 where run:
    "(case trace_slack cfg of None \<Rightarrow> Inr sd
      | Some slack \<Rightarrow> run_bind (from_time (env_time S) slack) (\<lambda>t. Inr (with_slack (env_into_time S) t sd))) = Inr sd1"
    "(if input_semantics cfg \<noteq> LastWriteWins then with_query_support (env_time S) (query_support cfg) sd1 else Inr sd1) = Inr sd2"
    "(if index_direction cfg = Both then with_reverse_indices (env_time S) sd2 else Inr sd2) = Inr sd3" "dm = scoped sd3"
    unfolding configure_attribute_def run_bind_eq_Inr scoped_into_def sum.inject by blast
  from run(1) have "core (scoped sd1) = core (scoped sd)" by (auto simp: run_simps with_slack_core split: option.splits)
  moreover from run(2) have "core (scoped sd2) = core (scoped sd1)" using with_query_support_core by (auto split: if_splits)
  moreover from run(3) have "core (scoped sd3) = core (scoped sd2)" using with_reverse_indices_core by (auto split: if_splits)
  ultimately show ?thesis using run(4) by simp
qed

lemma singleton_core:
  "core (scoped (singleton_transactable T pr name cap c)) = ([], dflt T, [(name, session_from cap)], 0, [])"
  "core (scoped (singleton_sourced T pr name c)) = ([], dflt T, [], 1, [])"
  by (simp_all add: singleton_transactable_def singleton_sourced_def singleton_of_def domain_new_def Let_def core_def)

lemma domain_add_assign_rules:
  "domain_add_assign T self other = Inr dm \<Longrightarrow> rules other = [] \<Longrightarrow> rules dm = rules self"
  by (auto simp: domain_add_assign_def hm_extend_def split: if_splits)

lemma add_sources_rules: "add_sources S streams dm = Inr dm' \<Longrightarrow> rules dm' = rules dm"
proof (induction S streams dm arbitrary: dm' rule: add_sources.induct)
  case (2 S name cfg pairs streams dm)
  then obtain tuples sourced dm1 where run: "configure_attribute S cfg (singleton_sourced (env_time S) (env_probe S) name tuples) = Inr sourced"
    "domain_add_assign (env_time S) dm sourced = Inr dm1" "add_sources S streams dm1 = Inr dm'"
    "enforce_semantics S (input_semantics cfg) pairs = Inr tuples"
    by (auto simp: run_simps)
  from configure_attribute_core[OF run(1)] domain_add_assign_rules[OF run(2)] have "rules dm1 = rules dm"
    by (simp add: singleton_core) (simp add: core_def)
  with "2.IH"[OF run(3)] show ?case by simp
qed simp

lemma keyed_insert:
  "rules_keyed dm \<Longrightarrow> rules_keyed (dm \<lparr> rules := hm_insert (rule_name rl) rl (rules dm) \<rparr>)"
  unfolding rules_keyed_def rule_of_def by simp

lemma create_attribute_rules:
  assumes "create_attribute S n cfg pairs sv = Inr (result, sv')"
  shows "\<exists>dm. sv' = sv \<lparr> internal := dm \<rparr> \<and> rules dm = rules (internal sv)"
proof -
  from assms obtain tuples dm dm' where
    run: "configure_attribute S cfg (singleton_transactable (env_time S) (env_probe S) n (tminimum (lat (env_time S))) tuples) = Inr dm"
      "domain_add_assign (env_time S) (internal sv) dm = Inr dm'" "sv' = sv \<lparr> internal := dm' \<rparr>"
    unfolding create_attribute_def run_bind_eq_Inr by blast
  from configure_attribute_core[OF run(1)] have "rules dm = []" unfolding singleton_core by (simp add: core_def)
  with domain_add_assign_rules[OF run(2)] run(3) show ?thesis by blast
qed

lemma register_keyed: "rules_keyed dm \<Longrightarrow> rules_keyed (register_rules rs dm)"
proof (induction rs arbitrary: dm)
  case (Cons rl rs)
  show ?case
  proof (cases "map_of (rules dm) (rule_name rl) = None")
    case True
    with Cons.IH[OF keyed_insert[OF Cons.prems]] show ?thesis by simp
  qed (use Cons in simp)
qed simp

subsection \<open>Every request keeps the invariant\<close>

lemma transact_inv:
  "server_transact S tx own i sv = Inr (result, sv') \<Longrightarrow> server_inv sv \<Longrightarrow> server_inv sv'"
  by (auto simp: server_transact_def run_simps dest: transact_rules intro!: kept_rules split: if_splits)

lemma uninterest_inv: "server_inv sv \<Longrightarrow> uninterest c n sv = (result, sv') \<Longrightarrow> server_inv sv'"
  unfolding uninterest_def Let_def
  by (auto simp: server_inv_def shutdown_query_def drop_query_handle_def split: option.splits if_splits)

lemma uninterest_all_inv: "server_inv sv \<Longrightarrow> uninterest_all c ns sv = (result, sv') \<Longrightarrow> server_inv sv'"
  by (induction c ns sv rule: uninterest_all.induct) (auto split: prod.splits sum.splits dest: uninterest_inv)

lemma insert_not_Nil [simp]: "List.insert c xs \<noteq> []"
  by (metis empty_iff insertI1 list.set(1) set_insert)

lemma add_interest_inv: "server_inv (server w) \<Longrightarrow> server_inv (server (add_interest n c w))"
  unfolding server_inv_def add_interest_def interest_entry_def by (auto split: option.splits)

text \<open>The outcomes of \<^verbatim>\<open>Server::interest\<close>: an error leaves the handles alone, a relation comes with the handle of its dataflow.\<close>

lemma interest_cases:
  fixes sv :: "('t, 'w, 'pr) server"
  assumes "interest S n sv = Some (Inr (result, sv'))"
  obtains (failed) e k where "result = Inl e" "sv' = sv \<lparr> symbols := k \<rparr>"
  | (built) relation and impl :: "'t implementation" where "result = Inr relation" "map_of (result_map impl) n = Some relation"
      "sv' = (drop_query_handle n (sv \<lparr> symbols := next_sym impl \<rparr>)) \<lparr> query_handles := hm_insert n (query_handle impl) (query_handles sv) \<rparr>"
proof -
  let ?r = "(if enable_optimizer (config sv) then implement_neu else implement)
      (env_plans S) (env_consolidate S) (env_hash_order S) (env_held S) (internal sv) n (symbols sv)"
  from assms obtain r where r: "?r = Some (Inr r)"
    by (cases ?r; cases "the ?r") (auto simp: interest_def and_then_def)
  note run = assms[unfolded interest_def r and_then_def option.map run_bind.simps option.inject]
  show thesis
  proof (cases r)
    case (Inl e)
    with run show thesis by (intro failed[of e "symbols sv"]) auto
  next
    case (Inr impl)
    show thesis
    proof (cases "map_of (result_map impl) n")
      case None
      with run Inr show thesis by (intro failed) (auto simp: Let_def)
    next
      case (Some relation)
      with run Inr show thesis by (intro built[of relation impl]) (auto simp: Let_def)
    qed
  qed
qed

lemma interest_inv:
  assumes "server_inv sv" and "map_of (interests sv) n \<noteq> None" and "interest S n sv = Some (Inr (result, sv'))"
  shows "server_inv sv'"
  using assms(3)
proof (cases rule: interest_cases)
  case failed
  with assms(1) show ?thesis by (simp add: server_inv_def)
next
  case (built relation impl)
  with assms(1,2) show ?thesis by (auto simp: server_inv_def drop_query_handle_def)
qed

lemma handle_interest_cases:
  assumes "handle_interest W own c req w = Some (Inr (result, w'))"
  obtains (again) "interest_entry (interest_name req) w \<noteq> []" "w' = add_interest (interest_name req) c w" "result = Inr ()"
  | (first) r sv subs where "interest_entry (interest_name req) w = []"
      "interest (env_server W) (interest_name req) (server (add_interest (interest_name req) c w)) = Some (Inr (r, sv))"
      "w' = (add_interest (interest_name req) c w) \<lparr> server := sv, installed := installed w @ subs \<rparr>"
      "\<And>e. r = Inl e \<Longrightarrow> result = Inl e" "\<And>e. result = Inl e \<Longrightarrow> subs = []"
proof (cases "interest_entry (interest_name req) w = []")
  case False
  with assms show thesis by (intro again) (auto simp: handle_interest_def Let_def)
next
  case True
  let ?w1 = "add_interest (interest_name req) c w"
  let ?i = "interest (env_server W) (interest_name req) (server ?w1)"
  from assms True obtain r sv where i: "?i = Some (Inr (r, sv))"
    by (cases ?i; cases "the ?i") (auto simp: handle_interest_def Let_def and_then_def)
  have inst: "installed ?w1 = installed w" by (simp add: add_interest_def)
  have self: "?w1 \<lparr> server := sv, installed := installed w \<rparr> = ?w1 \<lparr> server := sv \<rparr>" using inst by (cases ?w1) simp
  note run = assms[unfolded handle_interest_def Let_def i and_then_def option.map run_bind.simps option.inject]
  show thesis
  proof (cases r)
    case (Inl e)
    with run True have "w' = ?w1 \<lparr> server := sv \<rparr>" "result = Inl e" by auto
    with i True self show thesis by (intro first[of r sv "[]"]) (auto simp: Inl)
  next
    case (Inr relation)
    have "w' = ?w1 \<lparr> server := sv, installed := installed w @ [] \<rparr> \<or>
        (\<exists>sub. w' = ?w1 \<lparr> server := sv, installed := installed w @ [sub] \<rparr> \<and> result = Inr ())"
    proof (cases "sink req")
      case None
      with run True Inr show ?thesis by (auto simp: run_simps inst)
    next
      case (Some k)
      with run True Inr show ?thesis by (cases "attach_sink W k") (auto simp: run_simps inst self)
    qed
    then obtain subs where w': "w' = ?w1 \<lparr> server := sv, installed := installed w @ subs \<rparr>"
      and "\<And>e. result = Inl e \<Longrightarrow> subs = []" by blast
    then show thesis by (intro first[OF True i w']) (simp_all add: Inr)
  qed
qed

lemma handle_interest_inv:
  assumes "server_inv (server w)" and "handle_interest W own c req w = Some (Inr (result, w'))"
  shows "server_inv (server w')"
  using assms(2)
proof (cases rule: handle_interest_cases)
  case again
  with add_interest_inv[OF assms(1)] show ?thesis by simp
next
  case (first r sv subs)
  have "map_of (interests (server (add_interest (interest_name req) c w))) (interest_name req) \<noteq> None"
    by (simp add: add_interest_def)
  from interest_inv[OF add_interest_inv[OF assms(1)] this first(2)] first(3) show ?thesis by simp
qed

lemma handle_request_inv:
  assumes inv: "server_inv (server w)" and run: "handle_request W now own c req w = Some (Inr (result, w'))"
  shows "server_inv (server w')"
proof -
  have keyed: "rules_keyed (internal (server w))" using inv by (simp add: server_inv_def)
  note kept = server_inv_internal[OF inv rules_keyed_cong[OF _ keyed]]
  have sub: "server_inv (server w')" if "handle_subscribe W own c a w = Some (Inr (result, w'))" for a
    using that add_interest_inv[OF inv, of a c]
    by (auto simp: handle_subscribe_def Let_def split: if_splits option.splits)
  show ?thesis
  proof (cases req)
    case (Interest ireq)
    then show ?thesis using handle_interest_inv[OF inv] run by auto
  next
    case (Disconnect)
    then show ?thesis using uninterest_all_inv[OF inv] run
      by (auto simp: on_server_def disconnect_client_def split: prod.splits)
  next
    case (Uninterest n)
    then show ?thesis using uninterest_inv[OF inv] run by (auto simp: on_server_def split: prod.splits)
  next
    case (Register rs publish)
    then show ?thesis using server_inv_internal[OF inv register_keyed[OF keyed]] run by (auto simp: on_server_def register_def)
  next
    case (CreateAttribute n cfg)
    then show ?thesis using run by (auto simp: on_server_def run_simps dest!: create_attribute_rules intro!: kept)
  next
    case (RegisterSource source)
    then show ?thesis using run by (auto simp: on_server_def register_source_def run_simps intro!: kept add_sources_rules)
  next
    case (AdvanceDomain n t)
    then show ?thesis using run inv
      by (auto simp: on_server_def advance_domain_def run_simps intro!: kept dest: advance_epoch_rules split: option.splits)
  next
    case (CloseInput n)
    then show ?thesis using run by (auto simp: handle_close_def intro!: kept dest: close_input_rules split: prod.splits)
  next
    case TickRequest
    then show ?thesis using run inv
      by (auto simp: handle_tick_def run_simps Let_def split: if_splits option.splits)
  next
    case (Transact tx)
    then show ?thesis using run transact_inv[OF _ inv] by (auto simp: on_server_def run_simps)
  qed (use run inv sub in auto)
qed

lemma handle_requests_inv:
  "handle_requests W now own c reqs w = Some (Inr w') \<Longrightarrow> server_inv (server w) \<Longrightarrow> server_inv (server w')"
proof (induction reqs arbitrary: w)
  case (Cons req reqs)
  from Cons.prems(1) obtain result w1 where w1: "handle_request W now own c req w = Some (Inr (result, w1))"
    by (auto split: option.splits sum.splits prod.splits)
  from handle_request_inv[OF Cons.prems(2) w1] have inv: "server_inv (server w1)" .
  show ?case
  proof (cases result)
    case (Inl e)
    with Cons.prems(1) w1 inv show ?thesis by (intro Cons.IH[of "w1 \<lparr> sent := sent w1 @ [OError c e (next_tx w1 - 1)] \<rparr>"]) auto
  next
    case (Inr u)
    with Cons.prems(1) w1 inv show ?thesis by (intro Cons.IH[of w1]) auto
  qed
qed simp

lemma expect_ok_Inr: "expect_ok msg r = Inr x \<longleftrightarrow> (\<exists>u. r = Inr (Inr u, x))"
proof (cases r)
  case (Inr rx)
  then show ?thesis by (cases rx; cases "fst rx") (auto simp: expect_ok_def)
qed (simp add: expect_ok_def)

lemma advance_after_command_inv:
  assumes "advance_after_command W now w = Inr w'" and "server_inv (server w)"
  shows "server_inv (server w')"
proof (cases "manual_advance (config (server w))")
  case False
  with assms(1) obtain dm u where "advance_epoch (env_time (env_server W)) (epoch_of W (next_tx w) (now - t0 (server w))) (internal (server w)) =
      Inr (Inr u, dm)" "w' = w \<lparr> server := server w \<lparr> internal := dm \<rparr> \<rparr>"
    by (auto simp: advance_after_command_def run_simps expect_ok_Inr)
  with assms(2) show ?thesis using kept_rules[OF advance_epoch_rules] by simp
qed (use assms in \<open>simp add: advance_after_command_def\<close>)

lemma handle_command_inv:
  "handle_command W now cmd w = Some (Inr w') \<Longrightarrow> server_inv (server w) \<Longrightarrow> server_inv (server w')"
  by (auto simp: handle_command_def and_then_def run_simps
      dest!: handle_requests_inv advance_after_command_inv)

lemma handle_commands_inv:
  "handle_commands W cmds w = Some (Inr w') \<Longrightarrow> server_inv (server w) \<Longrightarrow> server_inv (server w')"
  by (induction W cmds w rule: handle_commands.induct)
    (auto dest: handle_command_inv split: option.splits sum.splits)

text \<open>The states of the event loop of a worker.\<close>

definition worker_start :: "('t, 'pr, 'k, 's) worker_env \<Rightarrow> server_configuration \<Rightarrow> nat \<Rightarrow> u64 \<Rightarrow> ('t, 'w, 'pr) worker" where
  "worker_start W cfg start symbol =
     \<lparr> server = server_new_at (env_server W) cfg start symbol, next_tx = 0, stopping = False, sent = [], installed = [] \<rparr>"

inductive reachable :: "('t::linorder, 'pr, 'k, 's) worker_env \<Rightarrow> ('t, 'w, 'pr) worker \<Rightarrow> bool" for W where
  start: "reachable W (worker_start W cfg start symbol)"
| round: "reachable W w \<Longrightarrow> loop_round W frontier now events cmds probe_frontier w = Some (Inr (pushed, w')) \<Longrightarrow> reachable W w'"

lemma loop_round_inv:
  assumes "loop_round W frontier now events cmds pf w = Some (Inr (pushed, w'))" and "server_inv (server w)"
  shows "server_inv (server w')"
proof -
  from assms(1) obtain sched w2 dm u where
    run: "handle_commands W cmds (w \<lparr> server := server w \<lparr> server_scheduler := sched \<rparr> \<rparr>) = Some (Inr w2)"
    "advance (env_time (env_server W)) pf (internal (server w2)) = Inr (Inr u, dm)"
    "w' = w2 \<lparr> server := server w2 \<lparr> internal := dm \<rparr> \<rparr>"
    by (auto simp: loop_round_def Let_def and_then_def run_simps expect_ok_Inr split: prod.splits)
  from handle_commands_inv[OF run(1)] assms(2) have "server_inv (server w2)" by simp
  with run(3) kept_rules[OF advance_rules[OF run(2)]] show ?thesis by simp
qed

lemma start_inv: "server_inv (server (worker_start W cfg start symbol))"
  by (simp add: worker_start_def server_new_at_def server_inv_def rules_keyed_def rule_of_def domain_new_def)

subsection \<open>A small server\<close>

text \<open>The default server over the reference dataflow operators, with one rule; its arrangements yield one batch of sorted
  changes per time.\<close>

definition small_batches :: "(df_value \<times> df_value, u64) collection \<Rightarrow> u64 lww_batch list" where
  "small_batches pairs = map (\<lambda>((e, v), t, d). [(e, [(v, [(t, d)])])]) (sort_key (\<lambda>(_, t, _). t) pairs)"

definition small_env :: "(u64, unit) server_env" where
  "small_env = \<lparr> env_time = u64_time, env_into_time = TxId, env_plans = ref_env, env_consolidate = id,
     env_hash_order = id, env_held = (\<lambda>_. []), env_probe = (), env_batches = small_batches, env_distinct = id \<rparr>"

definition small_worker :: "(u64, unit, unit, unit) worker_env" where
  "small_worker = \<lparr> env_server = small_env, worker_index = 0, epoch_of = (\<lambda>tx _. tx), coarsen_by = u64_coarsen,
     attach_sink = (\<lambda>_. Inr ()), source_streams = (\<lambda>_. []), input_pairs = (\<lambda>_. []) \<rparr>"

definition small_start :: "(u64, unit, unit) worker" where
  "small_start = worker_start small_worker default_configuration 0 7"

definition interest_in :: "aid \<Rightarrow> (unit, unit) request" where
  "interest_in name = Interest \<lparr> interest_name = name, granularity = None, sink = None, disable_logging = None \<rparr>"

lemmas small_defs = small_start_def small_worker_def small_env_def worker_start_def server_new_at_def default_configuration_def
  domain_new_def u64_time_def interest_in_def

definition small_command :: "(unit, unit) command" where
  "small_command = \<lparr> owner = 0, client = 4, requests = [CreateAttribute ''age'' (tx_time Raw), Subscribe ''age'', interest_in ''people''] \<rparr>"

lemma small_round:
  "case loop_round small_worker [0] 0 [] [(0, small_command)] (\<lambda>_. []) small_start of
     Some (Inr (_, w)) \<Rightarrow> interests (server w) = [(''age'', [4]), (''people'', [4])] | _ \<Rightarrow> False"
  by code_simp



section \<open>Disconnecting\<close>

definition shared_interest :: "token \<Rightarrow> ('t, 'w, 'pr) server \<Rightarrow> aid \<Rightarrow> bool" where
  "shared_interest c sv n \<longleftrightarrow> (\<exists>c'. c' \<noteq> c \<and> (c', n) \<in> interested sv)"

text \<open>What removing the interest of a client in some names does: the pairs go, and the dataflows without another client
  are shut down.\<close>

definition uninterested ::
  "token \<Rightarrow> aid set \<Rightarrow> ('t, 'w, 'pr) server \<Rightarrow> ('t, 'w, 'pr) server \<Rightarrow> bool" where
  "uninterested c N sv sv' \<longleftrightarrow>
     interested sv' = interested sv - {c} \<times> N \<and>
     (\<forall>n. map_of (query_handles sv') n = (if n \<in> N \<and> \<not> shared_interest c sv n then None else map_of (query_handles sv) n)) \<and>
     set (pressed sv') = set (pressed sv) \<union>
       {b. \<exists>n \<in> N. \<exists>h. \<not> shared_interest c sv n \<and> map_of (query_handles sv) n = Some h \<and> b \<in> set h} \<and>
     internal sv' = internal sv"

lemma interested_entry:
  "server_inv sv \<Longrightarrow> map_of (interests sv) n = Some entry \<Longrightarrow>
     filter (\<lambda>c'. c' \<noteq> c) entry = [] \<longleftrightarrow> \<not> shared_interest c sv n"
  by (auto simp: shared_interest_def interested_def filter_empty_conv)

lemma uninterest_exact:
  assumes inv: "server_inv sv"
  shows "\<exists>sv'. uninterest c n sv = (Inr (), sv') \<and> uninterested c {n} sv sv'"
proof (cases "map_of (interests sv) n")
  case None
  then have "map_of (query_handles sv) n = None" using inv by (auto simp: server_inv_def)
  moreover have "(c', n) \<notin> interested sv" for c' using None by (simp add: interested_def)
  ultimately show ?thesis using None by (auto simp: uninterest_def uninterested_def shared_interest_def)
next
  case (Some entry)
  note shared = interested_entry[OF inv Some, of c]
  show ?thesis
  proof (cases "shared_interest c sv n")
    case True
    let ?sv = "sv \<lparr> interests := hm_insert n (filter (\<lambda>c'. c' \<noteq> c) entry) (interests sv) \<rparr>"
    have "interested ?sv = interested sv - {c} \<times> {n}" using Some by (auto simp: interested_def split: if_splits)
    with True shared Some show ?thesis by (auto simp: uninterest_def uninterested_def)
  next
    case False
    let ?sv = "(shutdown_query n sv) \<lparr> interests := hm_remove n (interests sv) \<rparr>"
    have "interested ?sv = interested sv - {c} \<times> {n}"
      using Some False by (auto simp: interested_def shared_interest_def split: if_splits)
    with False shared Some show ?thesis
      by (auto simp: uninterest_def uninterested_def shutdown_query_def drop_query_handle_def split: option.splits)
  qed
qed

lemma shared_uninterested: "uninterested c N sv sv' \<Longrightarrow> shared_interest c sv' n = shared_interest c sv n"
  by (auto simp: uninterested_def shared_interest_def)

lemma uninterested_trans:
  assumes "uninterested c N sv sv1" and "uninterested c M sv1 sv2"
  shows "uninterested c (N \<union> M) sv sv2"
proof -
  note shared = shared_uninterested[OF assms(1)]
  have h1: "map_of (query_handles sv1) n = (if n \<in> N \<and> \<not> shared_interest c sv n then None else map_of (query_handles sv) n)" for n
    using assms(1) by (simp add: uninterested_def)
  have "map_of (query_handles sv2) n = (if n \<in> N \<union> M \<and> \<not> shared_interest c sv n then None else map_of (query_handles sv) n)" for n
    using assms(2) h1[of n] by (auto simp: uninterested_def shared)
  moreover have "set (pressed sv2) = set (pressed sv) \<union>
      {b. \<exists>n \<in> N \<union> M. \<exists>h. \<not> shared_interest c sv n \<and> map_of (query_handles sv) n = Some h \<and> b \<in> set h}"
    (is "_ = _ \<union> ?Q (N \<union> M) sv")
  proof -
    have "?Q N sv \<union> ?Q M sv1 = ?Q (N \<union> M) sv"
    proof (intro equalityI subsetI)
      fix b assume "b \<in> ?Q (N \<union> M) sv"
      then obtain n h where n: "n \<in> N \<union> M" "\<not> shared_interest c sv n" "map_of (query_handles sv) n = Some h" "b \<in> set h" by blast
      show "b \<in> ?Q N sv \<union> ?Q M sv1"
      proof (cases "n \<in> N")
        case False
        with n h1[of n] have "n \<in> M" "map_of (query_handles sv1) n = Some h" by simp_all
        with n(2,4) show ?thesis unfolding shared by blast
      qed (use n in blast)
    qed (auto simp: h1 shared split: if_splits)
    moreover have "set (pressed sv2) = set (pressed sv) \<union> ?Q N sv \<union> ?Q M sv1"
      using assms unfolding uninterested_def shared by simp
    ultimately show ?thesis by (simp add: Un_assoc)
  qed
  ultimately show ?thesis using assms by (auto simp: uninterested_def)
qed

lemma uninterest_all_exact:
  "server_inv sv \<Longrightarrow> \<exists>sv'. uninterest_all c ns sv = (Inr (), sv') \<and> uninterested c (set ns) sv sv'"
proof (induction ns arbitrary: sv)
  case (Cons n ns)
  from uninterest_exact[OF Cons.prems] obtain sv1 where sv1: "uninterest c n sv = (Inr (), sv1)" "uninterested c {n} sv sv1" by blast
  from Cons.IH[OF uninterest_inv[OF Cons.prems sv1(1)]] obtain sv2 where
    "uninterest_all c ns sv1 = (Inr (), sv2)" "uninterested c (set ns) sv1 sv2" by blast
  with sv1 uninterested_trans[OF sv1(2)] show ?case by fastforce
qed (simp add: uninterested_def)


definition shared_server :: "(u64, unit, unit) server" where
  "shared_server = (server small_start) \<lparr> interests := [(''age'', [1, 2]), (''name'', [1])],
     query_handles := [(''age'', [Propose ''age'']), (''name'', [])] \<rparr>"


section \<open>Interests that fail\<close>

text \<open>C34: An interest that fails is remembered as if it had succeeded. After an interest in a name was answered with an error, the
  next interest in that name, from any client, is answered with success although no dataflow for it was installed, so
  its client waits for results that never come.\<close>

theorem failed_interest_silences:
  assumes "handle_interest W own c req w = Some (Inr (Inl e, w1))" and "interest_name req' = interest_name req"
  shows "\<exists>w2. handle_interest W own' c' req' w1 = Some (Inr (Inr (), w2)) \<and> installed w2 = installed w \<and>
    (c', interest_name req) \<in> interested (server w2)"
  using assms(1)
proof (cases rule: handle_interest_cases)
  case (first r sv subs)
  let ?n = "interest_name req"
  have "map_of (interests sv) ?n = map_of (interests (server (add_interest ?n c w))) ?n"
    using first(2) by (cases rule: interest_cases) (simp_all add: drop_query_handle_def)
  then have "interest_entry ?n w1 \<noteq> []" using first(3) by (simp add: interest_entry_def add_interest_def)
  then have "handle_interest W own' c' req' w1 = Some (Inr (Inr (), add_interest ?n c' w1))"
    using assms(2) by (simp add: handle_interest_def Let_def)
  moreover have "(c', ?n) \<in> interested (server (add_interest ?n c' w1))" by (simp add: interested_def add_interest_def)
  moreover have "installed (add_interest ?n c' w1) = installed w" using first(3,5) by (simp add: add_interest_def)
  ultimately show ?thesis by blast
qed simp

theorem failed_interest_silences_witness:
  "\<exists>w1 w2. handle_request small_worker 0 0 4 (interest_in ''people'') small_start =
      Some (Inr (Inl (not_found ''Unknown rule people.''), w1)) \<and>
    handle_request small_worker 0 0 5 (interest_in ''people'') w1 = Some (Inr (Inr (), w2)) \<and> installed w2 = []"
proof -
  have "case handle_request small_worker 0 0 4 (interest_in ''people'') small_start of
      Some (Inr (Inl e, w)) \<Rightarrow> e = not_found ''Unknown rule people.'' | _ \<Rightarrow> False" by code_simp
  then obtain w1 where w1: "handle_request small_worker 0 0 4 (interest_in ''people'') small_start =
      Some (Inr (Inl (not_found ''Unknown rule people.''), w1))"
    by (auto split: option.splits sum.splits prod.splits)
  from failed_interest_silences[OF w1[unfolded interest_in_def handle_request.simps] refl, of 0 5] w1
  show ?thesis by (auto simp: interest_in_def small_start_def worker_start_def)
qed

section \<open>Clients of other workers and repeated subscriptions\<close>

text \<open>C35: A client is only served by the worker that set up the query. When a worker has a result for a client that is
  connected to another worker, the client is reported as disconnected, and the command that follows takes away the
  client's interest in every name, on all workers.\<close>

theorem foreign_client_dropped:
  assumes "\<And>token out. accepts_message N token out" and "server_inv (server w)"
    and "(c, name) \<in> interested (server w)" and "\<not> has_connection io c" and "QueryDiff name results \<in> set (channel io)"
  shows "\<exists>io' w'. drain_results N (interests (server w)) io = Inr io' \<and> EventDisconnect c \<in> set (domain_events io') \<and>
    client (event_command index (EventDisconnect c)) = c \<and>
    requests (event_command index (EventDisconnect c)) = [Disconnect] \<and>
    handle_request W now own c Disconnect w = Some (Inr (Inr (), w')) \<and>
    interested (server w') = {(c', n) \<in> interested (server w). c' \<noteq> c}"
proof -
  let ?ints = "interests (server w)"
  have "c \<in> set (recipients ?ints (QueryDiff name results))" using assms(3) by (auto simp: interested_def)
  with assms(4,5) have "EventDisconnect c \<in> set (gone ?ints (io \<lparr> channel := [] \<rparr>) (channel io))"
    unfolding gone_mem by (intro conjI bexI[OF _ assms(5)]) (simp_all add: has_connection_def)
  then have "\<exists>io'. drain_results N ?ints io = Inr io' \<and> EventDisconnect c \<in> set (domain_events io')"
    by (simp add: drain_results_def deliver_all_exact[OF assms(1)])
  moreover from uninterest_all_exact[OF assms(2), of c "keys_of ?ints"] obtain sv' where
    sv': "disconnect_client c (server w) = (Inr (), sv')" "uninterested c (set (keys_of ?ints)) (server w) sv'"
    unfolding disconnect_client_def by blast
  have "n \<in> set (keys_of ?ints)" if "(c', n) \<in> interested (server w)" for c' n
    using that by (force simp: interested_def dest: map_of_SomeD)
  with sv'(2) have "interested sv' = {(c', n) \<in> interested (server w). c' \<noteq> c}" by (auto simp: uninterested_def)
  then have "handle_request W now own c Disconnect w = Some (Inr (Inr (), w \<lparr> server := sv' \<rparr>)) \<and>
      interested (server (w \<lparr> server := sv' \<rparr>)) = {(c', n) \<in> interested (server w). c' \<noteq> c}"
    using sv'(1) by (simp add: on_server_def)
  ultimately show ?thesis by (auto simp del: handle_request.simps)
qed

theorem foreign_client_dropped_witness:
  "\<exists>io' w'. drain_results small_net (interests shared_server) small_io = Inr io' \<and> EventDisconnect 2 \<in> set (domain_events io') \<and>
     handle_request small_worker 0 0 2 Disconnect (small_start \<lparr> server := shared_server \<rparr>) = Some (Inr (Inr (), w')) \<and>
     interested (server w') = {(1, ''age''), (1, ''name'')}"
proof -
  let ?w = "small_start \<lparr> server := shared_server \<rparr>"
  have old: "interested shared_server = {(1, ''age''), (2, ''age''), (1, ''name'')}"
    by (auto simp: interested_def shared_server_def split: if_splits)
  have "server_inv (server ?w)"
    by (simp add: shared_server_def server_inv_def small_defs rules_keyed_def rule_of_def)
  moreover have "\<not> has_connection small_io 2" "QueryDiff ''age'' [] \<in> set (channel small_io)" "accepts_message small_net token out" for token out
    by (simp_all add: small_net_def small_io_simps has_connection_def)
  moreover have "{(c', n) \<in> {(1, ''age''), (2, ''age''), (1, ''name'')}. c' \<noteq> (2::nat)} = {(1, ''age''), (1, ''name'')}" by auto
  ultimately show ?thesis
    using foreign_client_dropped[of small_net ?w 2 "''age''" small_io "[]" 0 small_worker 0 0]
    by (simp add: old del: handle_request.simps)
qed

text \<open>A client that subscribes to an attribute twice gets every change twice: while it is the only subscriber, the second request
  installs a second dataflow that reports under the same name to the same worker.\<close>

theorem subscribe_again_duplicates:
  assumes "interest_entry a w = []" and "handle_subscribe W own c a w = Some (Inr (result, w1))"
  shows "\<exists>w2 s. handle_subscribe W own c a w1 = Some (Inr (Inr (), w2)) \<and> installed w2 = installed w @ [s, s] \<and>
    sub_name s = a \<and> sub_owner s = own"
proof -
  have "\<not> length (interest_entry a (add_interest a c w)) > 1" using assms(1) by (simp add: interest_entry_def add_interest_def)
  with assms(2) obtain propose where p: "forward_propose_of a (internal (server w)) = Some propose"
    "w1 = (add_interest a c w) \<lparr> installed := installed w @
      [Subscription a own (Inr (coll_map (\<lambda>(e, v). [e, v]) (import_trace (env_ops (env_plans (env_server W))) propose)))] \<rparr>"
    by (auto simp: handle_subscribe_def Let_def add_interest_def split: option.splits)
  have entry: "interest_entry a w1 = [c]" using assms(1) unfolding p(2) by (simp add: interest_entry_def add_interest_def)
  then have "\<not> length (interest_entry a (add_interest a c w1)) > 1" by (simp add: interest_entry_def add_interest_def)
  then show ?thesis using p by (simp add: handle_subscribe_def Let_def) (simp add: add_interest_def)
qed

theorem subscribe_again_duplicates_witness:
  "\<exists>w w1 w2. handle_command small_worker 0 \<lparr> owner = 0, client = 4, requests = [CreateAttribute ''age'' (tx_time Raw)] \<rparr> small_start = Some (Inr w) \<and>
     handle_request small_worker 0 0 4 (Subscribe ''age'') w = Some (Inr (Inr (), w1)) \<and>
     handle_request small_worker 0 0 4 (Subscribe ''age'') w1 = Some (Inr (Inr (), w2)) \<and> length (installed w2) = 2"
proof -
  let ?r = "handle_command small_worker 0 \<lparr> owner = 0, client = 4, requests = [CreateAttribute ''age'' (tx_time Raw)] \<rparr> small_start"
  have run: "case ?r of Some (Inr w) \<Rightarrow> installed w = [] \<and> interest_entry ''age'' w = [] \<and>
      (case handle_subscribe small_worker 0 4 ''age'' w of Some (Inr (Inr _, _)) \<Rightarrow> True | _ \<Rightarrow> False) | _ \<Rightarrow> False" by code_simp
  then obtain w where w: "?r = Some (Inr w)" by (cases ?r; cases "the ?r") auto
  with run obtain w1 where "installed w = []" "interest_entry ''age'' w = []"
    "handle_subscribe small_worker 0 4 ''age'' w = Some (Inr (Inr (), w1))"
    by (auto split: option.splits sum.splits prod.splits)
  note w = w this
  from subscribe_again_duplicates[OF w(3,4)] w show ?thesis by auto
qed

end
