(* ===== verification/Server_Epochs.thy ===== *)
theory Server_Epochs
  imports Server_Properties
begin

text \<open>
  How the epoch of a server follows the commands it handles. Unless clients advance the domain themselves, every worker
  advances its domain to the number of the command it has just handled; a domain is \<open>behind\<close> a time when neither its
  epoch nor an input session is past it, which every request except an explicit advance keeps.
\<close>

section \<open>Domains behind a time\<close>

definition behind :: "'t lattice_ops \<Rightarrow> 't \<Rightarrow> ('t, 'r, 'b, 'pr) domain \<Rightarrow> bool" where
  "behind L t dm \<longleftrightarrow> less_equal L (now_at dm) t \<and>
     (\<forall>(k, s) \<in> set (input_sessions dm). session_inv L s \<and> less_equal L (ses_time s) t)"

lemma behind_cong: "now_at dm' = now_at dm \<Longrightarrow> input_sessions dm' = input_sessions dm \<Longrightarrow> behind L t dm' = behind L t dm"
  by (simp add: behind_def)

lemma register_rules_behind [simp]: "behind L t (register_rules rs dm) = behind L t dm"
  by (induction rs dm rule: register_rules.induct) (simp_all add: behind_def)

lemma hm_extend_set: "e \<in> set (hm_extend m other) \<Longrightarrow> e \<in> set m \<or> e \<in> set other"
  unfolding hm_extend_def
proof (induction other arbitrary: m)
  case (Cons kv other)
  then show ?case using hm_insert_set[of e "fst kv" "snd kv" m] by (fastforce split: prod.splits)
qed simp

lemma hm_remove_set: "e \<in> set (hm_remove k m) \<Longrightarrow> e \<in> set m"
  by (auto simp: AList.delete_eq)

lemma close_input_behind: "close_input T name dm = (result, dm', s) \<Longrightarrow> behind L t dm \<Longrightarrow> behind L t dm'"
  by (auto simp: close_input_def behind_def split: option.splits dest!: hm_remove_set)

context time_lattice
begin

lemma behind_mono: "behind L t dm \<Longrightarrow> less_equal L t t' \<Longrightarrow> behind L t' dm"
  by (auto simp: behind_def intro: trans)

lemma session_behind:
  assumes "behind L t dm" and "session_inv L s" and "less_equal L (ses_time s) t"
  shows "behind L t (dm \<lparr> input_sessions := hm_insert a s (input_sessions dm) \<rparr>)"
  using assms by (auto simp: behind_def dest!: hm_insert_set)

lemma transact_behind:
  "lat T = L \<Longrightarrow> transact T tx dm = Inr (result, dm') \<Longrightarrow> behind L t dm \<Longrightarrow> behind L t dm'"
proof (induction T tx dm rule: transact.induct)
  case (2 T e a v x diff tx dm)
  note contract = session_input_session
  show ?case
  proof (cases "map_of (input_sessions dm) a")
    case (Some s)
    with "2.prems"(2) obtain s' where run: "transact T tx (dm \<lparr> input_sessions := hm_insert a s' (input_sessions dm) \<rparr>) = Inr (result, dm')"
      and s': "(case x of None \<Rightarrow> Inr (session_update (e, v) diff s)
        | Some t \<Rightarrow> run_bind (from_time T t) (\<lambda>time. session_update_at (lat T) (e, v) time diff s)) = Inr s'"
      by (auto simp: run_simps)
    from "2.prems"(3) map_of_SomeD[OF Some] have s: "session_inv L s" "less_equal L (ses_time s) t" by (auto simp: behind_def)
    from s'[unfolded "2.prems"(1)] have "session_inv L s' \<and> ses_time s' = ses_time s"
      using s(1) session_update_inv session_update_at_inv input_session.update_times[OF contract]
      by (auto simp: run_simps dest: input_session.update_at_times[OF contract] split: option.splits)
    with s have "behind L t (dm \<lparr> input_sessions := hm_insert a s' (input_sessions dm) \<rparr>)"
      by (intro session_behind "2.prems") simp_all
    from "2.IH"[OF Some "2.prems"(1) run this] show ?thesis .
  qed (use "2.prems" in simp)
qed simp

lemma domain_add_assign_behind:
  assumes "lat T = L" and "domain_add_assign T self other = Inr dm" and "behind L t self"
    and "\<forall>(k, s) \<in> set (input_sessions other). session_inv L s \<and> less_equal L (ses_time s) t"
  shows "behind L t dm"
  using assms trans[OF meet_lb1] by (fastforce simp: domain_add_assign_def behind_def dest: hm_extend_set split: if_splits)

lemma configured_behind:
  assumes "lat T = L" and "domain_add_assign T self dm = Inr dm'" and "behind L t self"
    and "core dm = (ns, t', ss, k, rs)" and "ss = [] \<or> ss = [(name, session_from (tminimum L))]"
  shows "behind L t dm'"
proof -
  have "input_sessions dm = ss" using assms(4) by (simp add: core_def)
  moreover have "session_inv L (session_from (tminimum L))" by (rule session_from_inv)
  ultimately show ?thesis using assms(5)
    by (intro domain_add_assign_behind[OF assms(1,2,3)]) (auto simp: session_from_def minimum)
qed

lemma advance_epoch_behind:
  assumes "lat T = L" and "behind L t dm"
  shows "\<exists>dm'. advance_epoch T t dm = Inr (Inr (), dm') \<and> now_at dm' = t \<and> behind L t dm' \<and>
    (\<forall>name. map_option session_log (map_of (input_sessions dm') name) = map_option session_log (map_of (input_sessions dm) name)) \<and>
    (now_at dm \<noteq> t \<longrightarrow> list_all (\<lambda>(k, s). ses_time s = t \<and> ses_cap s = t \<and> buffer s = []) (input_sessions dm'))"
proof (cases "now_at dm = t")
  case True
  with assms show ?thesis by (auto simp: advance_epoch_def behind_def)
next
  case False
  let ?ss = "map (\<lambda>(k, s). (k, advance_session L t s)) (input_sessions dm)"
  have le: "session_inv L s" "less_equal L (ses_time s) t" if "(k, s) \<in> set (input_sessions dm)" for k s
    using that assms(2) by (auto simp: behind_def)
  note spec = advance_session_spec[OF le]
  have "hm_map_run (\<lambda>handle. run_bind (session_advance_to L t handle) (\<lambda>h. Inr (session_flush L h))) (input_sessions dm) = Inr ?ss"
    by (rule hm_map_run_total) (auto intro: advance_session_run le)
  then have "advance_epoch T t dm = Inr (Inr (), dm \<lparr> input_sessions := ?ss, now_at := t \<rparr>)"
    using assms False by (simp add: advance_epoch_def behind_def)
  moreover have "behind L t (dm \<lparr> input_sessions := ?ss, now_at := t \<rparr>)"
    using spec refl by (fastforce simp: behind_def)
  moreover have "map_option session_log (map_of ?ss name) = map_option session_log (map_of (input_sessions dm) name)" for name
    using spec by (cases "map_of (input_sessions dm) name") (auto simp: map_of_map dest: map_of_SomeD)
  moreover have "list_all (\<lambda>(k, s). ses_time s = t \<and> ses_cap s = t \<and> buffer s = []) ?ss"
    using spec by (fastforce simp: list_all_iff)
  ultimately show ?thesis by simp
qed

end

lemma create_attribute_behind:
  assumes "time_lattice (lat (env_time S))" and "create_attribute S n cfg pairs sv = Inr (result, sv')"
    and "behind (lat (env_time S)) t (internal sv)"
  shows "behind (lat (env_time S)) t (internal sv')"
proof -
  from assms(2) obtain tuples dm dm' where
    run: "configure_attribute S cfg (singleton_transactable (env_time S) (env_probe S) n (tminimum (lat (env_time S))) tuples) = Inr dm"
      "domain_add_assign (env_time S) (internal sv) dm = Inr dm'" "sv' = sv \<lparr> internal := dm' \<rparr>"
    unfolding create_attribute_def run_bind_eq_Inr by blast
  from time_lattice.configured_behind[OF assms(1) HOL.refl run(2) assms(3) configure_attribute_core[OF run(1), unfolded singleton_core]] run(3)
  show ?thesis by simp
qed

lemma add_sources_behind:
  "time_lattice (lat (env_time S)) \<Longrightarrow> add_sources S streams dm = Inr dm' \<Longrightarrow> behind (lat (env_time S)) t dm \<Longrightarrow>
   behind (lat (env_time S)) t dm'"
proof (induction S streams dm arbitrary: dm' rule: add_sources.induct)
  case (2 S name cfg pairs streams dm)
  then obtain tuples sourced dm1 where run: "configure_attribute S cfg (singleton_sourced (env_time S) (env_probe S) name tuples) = Inr sourced"
    "domain_add_assign (env_time S) dm sourced = Inr dm1" "add_sources S streams dm1 = Inr dm'"
    "enforce_semantics S (input_semantics cfg) pairs = Inr tuples"
    by (auto simp: run_simps)
  from time_lattice.configured_behind[OF "2.prems"(1) HOL.refl run(2) "2.prems"(3)
      configure_attribute_core[OF run(1), unfolded singleton_core]]
  have "behind (lat (env_time S)) t dm1" by simp
  with "2.IH" "2.prems"(1) run show ?case by blast
qed simp

section \<open>Requests\<close>


definition no_advance :: "('k, 's) request \<Rightarrow> bool" where
  "no_advance req \<longleftrightarrow> (\<forall>name t. req \<noteq> AdvanceDomain name t)"

text \<open>What every request but an advance keeps: the domain stays behind, and the configuration and the counters do not change.\<close>

definition epoch_kept :: "'t lattice_ops \<Rightarrow> 't \<Rightarrow> ('t, 'w, 'pr) worker \<Rightarrow> ('t, 'w, 'pr) worker \<Rightarrow> bool" where
  "epoch_kept L t w w' \<longleftrightarrow> (behind L t (internal (server w)) \<longrightarrow> behind L t (internal (server w'))) \<and>
     next_tx w' = next_tx w \<and> config (server w') = config (server w) \<and> t0 (server w') = t0 (server w)"

lemma epoch_kept_refl: "epoch_kept L t w w"
  by (simp add: epoch_kept_def)

lemma epoch_kept_trans: "epoch_kept L t w w1 \<Longrightarrow> epoch_kept L t w1 w2 \<Longrightarrow> epoch_kept L t w w2"
  by (simp add: epoch_kept_def)

lemma uninterest_kept:
  "uninterest c n sv = (result, sv') \<Longrightarrow> internal sv' = internal sv \<and> config sv' = config sv \<and> t0 sv' = t0 sv"
  by (auto simp: uninterest_def shutdown_query_def drop_query_handle_def Let_def split: option.splits if_splits)

lemma uninterest_all_kept:
  "uninterest_all c ns sv = (result, sv') \<Longrightarrow> internal sv' = internal sv \<and> config sv' = config sv \<and> t0 sv' = t0 sv"
  by (induction c ns sv rule: uninterest_all.induct) (auto split: prod.splits sum.splits dest: uninterest_kept)

lemma interest_kept:
  assumes "interest S n sv = Some (Inr (result, sv'))"
  shows "internal sv' = internal sv \<and> config sv' = config sv \<and> t0 sv' = t0 sv"
  using assms by (cases rule: interest_cases) (simp_all add: drop_query_handle_def)

lemma add_interest_kept:
  "epoch_kept L t w (add_interest n c w)"
  by (simp add: epoch_kept_def add_interest_def)

lemma handle_interest_kept:
  assumes "handle_interest W own c req w = Some (Inr (result, w'))"
  shows "epoch_kept L t w w'"
  using assms
proof (cases rule: handle_interest_cases)
  case again
  then show ?thesis using add_interest_kept by simp
next
  case (first r sv subs)
  from interest_kept[OF first(2)] first(3) show ?thesis by (simp add: epoch_kept_def add_interest_def)
qed

lemma handle_request_kept:
  assumes T: "time_lattice (lat (env_time (env_server W)))" and "no_advance req"
    and run: "handle_request W now own c req w = Some (Inr (result, w'))"
  shows "epoch_kept (lat (env_time (env_server W))) t w w'"
proof (cases req)
  case (Transact tx)
  then show ?thesis using run time_lattice.transact_behind[OF T HOL.refl]
    by (auto simp: on_server_def server_transact_def run_simps epoch_kept_def split: if_splits)
next
  case (Subscribe a)
  then show ?thesis using run
    by (auto simp: handle_subscribe_def Let_def epoch_kept_def add_interest_def split: if_splits option.splits)
next
  case (Interest req)
  then show ?thesis using run handle_interest_kept by auto
next
  case (Uninterest n)
  then show ?thesis using run by (auto simp: on_server_def epoch_kept_def split: prod.splits dest: uninterest_kept)
next
  case Disconnect
  then show ?thesis using run
    by (auto simp: on_server_def disconnect_client_def epoch_kept_def split: prod.splits dest: uninterest_all_kept)
next
  case (RegisterSource source)
  then show ?thesis using run add_sources_behind[OF T]
    by (auto simp: on_server_def register_source_def run_simps epoch_kept_def)
next
  case (CreateAttribute n cfg)
  then show ?thesis using run create_attribute_behind[OF T]
    by (auto simp: on_server_def run_simps epoch_kept_def dest: create_attribute_rules)
next
  case (CloseInput n)
  then show ?thesis using run
    by (auto simp: handle_close_def epoch_kept_def split: prod.splits dest: close_input_behind)
next
  case TickRequest
  then show ?thesis using run
    by (auto simp: handle_tick_def run_simps Let_def epoch_kept_def split: if_splits option.splits)
qed (use assms in \<open>auto simp: no_advance_def on_server_def register_def epoch_kept_def\<close>)

lemma handle_requests_kept:
  assumes "time_lattice (lat (env_time (env_server W)))"
  shows "list_all no_advance reqs \<Longrightarrow> handle_requests W now own c reqs w = Some (Inr w') \<Longrightarrow>
    epoch_kept (lat (env_time (env_server W))) t w w'"
proof (induction reqs arbitrary: w)
  case (Cons req reqs)
  let ?kept = "epoch_kept (lat (env_time (env_server W))) t"
  from Cons.prems(2) obtain result w1 where w1: "handle_request W now own c req w = Some (Inr (result, w1))"
    by (auto split: option.splits sum.splits prod.splits)
  from handle_request_kept[OF assms _ w1] Cons.prems(1) have kept: "?kept w w1" by simp
  obtain w2 where w2: "?kept w1 w2" "handle_requests W now own c reqs w2 = Some (Inr w')"
  proof (cases result)
    case (Inl e)
    with Cons.prems(2) w1 show ?thesis
      by (intro that[of "w1 \<lparr> sent := sent w1 @ [OError c e (next_tx w1 - 1)] \<rparr>"]) (auto simp: epoch_kept_def)
  next
    case (Inr u)
    with Cons.prems(2) w1 show ?thesis by (intro that[of w1]) (auto simp: epoch_kept_def)
  qed
  from Cons.IH[OF _ w2(2)] Cons.prems(1) show ?case using epoch_kept_trans kept w2(1) by fastforce
qed (simp add: epoch_kept_refl)

section \<open>Commands\<close>

lemma next_word_greater: "n \<noteq> - 1 \<Longrightarrow> n < n + 1" for n :: u64
proof -
  assume "n \<noteq> - 1"
  then have "1 + n \<noteq> 0" by (metis add.commute eq_neg_iff_add_eq_0)
  then show ?thesis using unatSuc[of n] by (simp add: word_less_nat_alt add.commute)
qed

text \<open>C9: On the default server, which counts commands, the epoch of every worker is the number of commands handled. When the
  requests of a command do not advance the domain themselves, then advancing afterwards never fails: the domain and
  all inputs move to the number of the command, every input has shipped what it was given, nothing given is lost, and
  the domain is again behind the count for the next command.\<close>

theorem command_advances_epoch:
  assumes "lat (env_time (env_server W)) = u64_ops" and "epoch_of W = (\<lambda>tx _. tx)"
    and "\<not> manual_advance (config (server w))" and "next_tx w \<noteq> - 1"
    and "behind u64_ops (next_tx w) (internal (server w))" and "list_all no_advance (requests cmd)"
    and "handle_requests W now (owner cmd) (client cmd) (requests cmd) (w \<lparr> next_tx := next_tx w + 1 \<rparr>) = Some (Inr w1)"
  shows "\<exists>w'. handle_command W now cmd w = Some (Inr w') \<and> next_tx w' = next_tx w + 1 \<and>
    now_at (internal (server w')) = next_tx w' \<and> behind u64_ops (next_tx w') (internal (server w')) \<and>
    (\<forall>(k, s) \<in> set (input_sessions (internal (server w'))). ses_time s = next_tx w' \<and> ses_cap s = next_tx w' \<and> buffer s = []) \<and>
    (\<forall>name. map_option session_log (map_of (input_sessions (internal (server w'))) name) =
       map_option session_log (map_of (input_sessions (internal (server w1))) name))"
proof -
  let ?t = "next_tx w + 1" and ?T = "env_time (env_server W)"
  have lattice: "time_lattice (lat ?T)" unfolding assms(1) by (rule u64_lat.time_lattice_axioms)
  have lt: "next_tx w < ?t" using assms(4) by (rule next_word_greater)
  have kept: "epoch_kept u64_ops t (w \<lparr> next_tx := ?t \<rparr>) w1" for t
    using handle_requests_kept[OF lattice assms(6,7)] by (simp add: assms(1))
  have w1: "behind u64_ops (next_tx w) (internal (server w1))" "next_tx w1 = ?t" "\<not> manual_advance (config (server w1))"
    using kept[of "next_tx w"] assms(3,5) by (simp_all add: epoch_kept_def)
  then have now: "now_at (internal (server w1)) \<noteq> ?t" using lt by (auto simp: behind_def total_ops_def)
  have "behind u64_ops ?t (internal (server w1))"
    using u64_lat.behind_mono[OF w1(1), of ?t] lt by (simp add: total_ops_def)
  from u64_lat.advance_epoch_behind[OF assms(1) this] now obtain dm where dm: "advance_epoch ?T ?t (internal (server w1)) = Inr (Inr (), dm)" "now_at dm = ?t" "behind u64_ops ?t dm"
    "\<And>name. map_option session_log (map_of (input_sessions dm) name) = map_option session_log (map_of (input_sessions (internal (server w1))) name)"
    "list_all (\<lambda>(k, s). ses_time s = ?t \<and> ses_cap s = ?t \<and> buffer s = []) (input_sessions dm)"
    by blast
  have "handle_command W now cmd w = Some (Inr (w1 \<lparr> server := server w1 \<lparr> internal := dm \<rparr> \<rparr>))"
    using assms(2,7) w1(2,3) dm(1) by (simp add: handle_command_def and_then_def advance_after_command_def expect_ok_def)
  with dm w1(2) show ?thesis by (fastforce simp: list_all_iff)
qed

theorem command_advances_epoch_witness:
  "\<exists>w. handle_command small_worker 0 small_command small_start = Some (Inr w) \<and> now_at (internal (server w)) = 1"
proof -
  have "case handle_requests small_worker 0 0 4 (requests small_command) (small_start \<lparr> next_tx := 0 + 1 \<rparr>) of
      Some (Inr w) \<Rightarrow> True | _ \<Rightarrow> False" by code_simp
  then obtain w1 where w1: "handle_requests small_worker 0 0 4 (requests small_command) (small_start \<lparr> next_tx := 0 + 1 \<rparr>) = Some (Inr w1)"
    by (auto split: option.splits sum.splits)
  have "behind u64_ops 0 (internal (server small_start))" by (simp add: small_defs behind_def total_ops_def)
  moreover have "list_all no_advance (requests small_command)" by (simp add: small_command_def no_advance_def interest_in_def)
  moreover have "lat (env_time (env_server small_worker)) = u64_ops" "epoch_of small_worker = (\<lambda>tx _. tx)"
    "\<not> manual_advance (config (server small_start))" "next_tx small_start = 0" "owner small_command = 0" "client small_command = 4"
    by (simp_all add: small_defs small_command_def)
  ultimately show ?thesis using command_advances_epoch[of small_worker small_start small_command 0 w1] w1 by auto
qed

text \<open>A client can stop a default server. After a request to advance the domain to a time past the number of its command,
  which the domain accepts, the advance at the end of the command is refused and the worker panics.\<close>

theorem advance_domain_panics:
  assumes "lat (env_time (env_server W)) = u64_ops" and "epoch_of W = (\<lambda>tx _. tx)"
    and "\<not> manual_advance (config (server w))" and "next_tx w \<noteq> - 1"
    and "behind u64_ops (next_tx w) (internal (server w))" and "requests cmd = [AdvanceDomain None next]"
    and "from_time (env_time (env_server W)) next = Inr t" and "next_tx w + 1 < t"
  shows "(\<exists>dm. advance_domain (env_server W) None t (server w) = Inr (Inr (), server w \<lparr> internal := dm \<rparr>) \<and> now_at dm = t) \<and>
    handle_command W now cmd w = Some (Inl ''failed to advance epoch'')"
proof -
  let ?T = "env_time (env_server W)"
  have "next_tx w < t" using next_word_greater[OF assms(4)] assms(8) by simp
  then have "behind u64_ops t (internal (server w))"
    using u64_lat.behind_mono[OF assms(5), of t] by (simp add: total_ops_def)
  from u64_lat.advance_epoch_behind[OF assms(1) this] obtain dm where
    dm: "advance_epoch ?T t (internal (server w)) = Inr (Inr (), dm)" "now_at dm = t" by blast
  then have adv: "advance_domain (env_server W) None t (server w) = Inr (Inr (), server w \<lparr> internal := dm \<rparr>)"
    by (simp add: advance_domain_def)
  moreover have "handle_requests W now (owner cmd) (client cmd) (requests cmd) (w \<lparr> next_tx := next_tx w + 1 \<rparr>) =
      Some (Inr (w \<lparr> next_tx := next_tx w + 1, server := server w \<lparr> internal := dm \<rparr> \<rparr>))"
    using adv by (simp add: assms(6,7) on_server_def)
  moreover have "\<exists>e. advance_epoch ?T (next_tx w + 1) dm = Inr (Inl e, dm)"
    using dm(2) assms(1,8) by (auto simp: advance_epoch_def total_ops_def)
  ultimately show ?thesis using dm(2) assms(2,3)
    by (auto simp: handle_command_def and_then_def advance_after_command_def expect_ok_def)
qed

theorem advance_domain_panics_witness:
  "handle_command small_worker 0 \<lparr> owner = 0, client = 4, requests = [AdvanceDomain None (TxId 5)] \<rparr> small_start =
     Some (Inl ''failed to advance epoch'')"
proof -
  have "behind u64_ops 0 (internal (server small_start))" by (simp add: small_defs behind_def total_ops_def)
  then show ?thesis
    using advance_domain_panics[of small_worker small_start "\<lparr> owner = 0, client = 4, requests = [AdvanceDomain None (TxId 5)] \<rparr>" "TxId 5" 5 0]
    by (simp add: small_defs)
qed

section \<open>Sources\<close>

text \<open>C36: At most one attribute of a server can come from external sources. Registering a source panics whenever its streams and
  the sources the domain already has are more than one, so every source that offers two attributes, and every second
  source, stops the worker.\<close>

theorem register_source_single:
  assumes "2 \<le> length streams \<or> streams \<noteq> [] \<and> probed_source_count (internal sv) \<noteq> 0"
  shows "\<exists>msg. register_source S streams sv = Inl msg"
proof -
  have "add_sources S streams (internal sv) \<noteq> Inr dm" for dm
    using assms
  proof (cases streams)
    case (Cons s rest)
    obtain name cfg pairs where s: "s = (name, cfg, pairs)" by (cases s) auto
    show ?thesis
    proof
      assume "add_sources S streams (internal sv) = Inr dm"
      then obtain tuples sourced dm1 where run: "configure_attribute S cfg (singleton_sourced (env_time S) (env_probe S) name tuples) = Inr sourced"
        "domain_add_assign (env_time S) (internal sv) sourced = Inr dm1" "add_sources S rest dm1 = Inr dm"
        by (auto simp: Cons s run_simps)
      from configure_attribute_core[OF run(1)] have one: "probed_source_count sourced = 1" unfolding singleton_core by (simp add: core_def)
      with run(2) have dm1: "probed_source_count (internal sv) = 0" "probed_source_count dm1 = 1"
        by (auto simp: domain_add_assign_def split: if_splits)
      with assms Cons obtain s' rest' where rest: "rest = s' # rest'" by (cases rest) auto
      obtain name' cfg' pairs' where s': "s' = (name', cfg', pairs')" by (cases s') auto
      from run(3) obtain tuples' sourced' dm2 where
        run': "configure_attribute S cfg' (singleton_sourced (env_time S) (env_probe S) name' tuples') = Inr sourced'"
          "domain_add_assign (env_time S) dm1 sourced' = Inr dm2"
        by (auto simp: rest s' run_simps)
      from configure_attribute_core[OF run'(1)] have "probed_source_count sourced' = 1" unfolding singleton_core by (simp add: core_def)
      with run'(2) dm1(2) show False by (auto simp: domain_add_assign_def split: if_splits)
    qed
  qed simp
  then show ?thesis unfolding register_source_def by (cases "add_sources S streams (internal sv)") auto
qed

theorem register_source_single_witness:
  "\<exists>msg. register_source small_env [(''age'', tx_time Raw, []), (''name'', tx_time Raw, [])] (server small_start) = Inl msg"
  by (rule register_source_single) simp

end
