(* ===== verification/Interests.thy ===== *)
theory Interests
  imports Server_Properties
begin

text \<open>
  From a request to its results: a client's interest in a rule, handled by a worker, the dataflow that
  \<^verbatim>\<open>implement\<close> builds for it and the meaning of the rules, in one statement.
\<close>

lemma interest_implemented:
  assumes "\<not> enable_optimizer (config sv)"
    and "implement (env_plans S) (env_consolidate S) (env_hash_order S) (env_held S) (internal sv) name (symbols sv) = Some (Inr (Inr impl))"
    and "map_of (result_map impl) name = Some relation"
  shows "interest S name sv = Some (Inr (Inr relation,
    (drop_query_handle name (sv \<lparr> symbols := next_sym impl \<rparr>)) \<lparr> query_handles := hm_insert name (query_handle impl) (query_handles sv) \<rparr>))"
  using assms by (simp add: interest_def and_then_def Let_def)


text \<open>The symmetric closure of an attribute, asked for by client 4 of the first worker.\<close>

definition connected_worker :: "(u64, unit, unit, unit) worker_env" where
  "connected_worker = small_worker \<lparr> env_server := (env_server small_worker) \<lparr> env_plans := ref_env, env_consolidate := id,
     env_hash_order := rev, env_held := connected_held \<rparr> \<rparr>"

definition connected_start :: "(u64, unit, unit) worker" where
  "connected_start = small_start \<lparr> server := (server small_start) \<lparr> internal := connected_domain \<rparr> \<rparr>"

lemma connected_start_simps [simp]:
  "env_plans (env_server connected_worker) = ref_env" "env_held (env_server connected_worker) = connected_held"
  "env_consolidate (env_server connected_worker) = id" "env_hash_order (env_server connected_worker) = rev"
  "internal (server connected_start) = connected_domain" "interest_entry name connected_start = []"
  "installed connected_start = []" "\<not> enable_optimizer (config (server connected_start))" "symbols (server connected_start) = 7"
  by (simp_all add: connected_worker_def connected_start_def small_defs interest_entry_def)


end
