(* ===== verification/GraphQL.thy ===== *)
theory GraphQL
  imports Implementation
begin

text \<open>
  The GraphQL front ends (feature \<^verbatim>\<open>graphql\<close>): \<^verbatim>\<open>src/src/plan/graphql.rs\<close> translates a query into pull plans, and
  \<^verbatim>\<open>src/src/derive/graphql.rs\<close> derives a domain of new attributes from one. Both translate selection sets by the same
  code up to the constructors of the levels, which are an argument here, with the panic for a plan without
  variables. The parser is an external crate: a parsed document is the argument, with the parts of the syntax tree
  that the code looks at.
\<close>

section \<open>Syntax\<close>

datatype gq_value = GInt "i64 option" | GString string | GBoolean bool | GOtherValue

datatype selection = Field string "(string \<times> gq_value) list" "selection list" | OtherSelection

datatype operation = QueryOperation | SelectionSetOperation "selection list" | OtherOperation

datatype gq_definition = Operation operation | FragmentDefinition

fun value_from_graphql :: "gq_value \<Rightarrow> df_value run" where
  "value_from_graphql (GInt (Some v)) = Inr (Number v)"
| "value_from_graphql (GInt None) = Inl ''failed to convert to i64''"
| "value_from_graphql (GString v) = Inr (String v)"
| "value_from_graphql (GBoolean v) = Inr (Bool v)"
| "value_from_graphql GOtherValue = Inl ''not implemented''"

section \<open>From selections to levels\<close>

fun pull_attributes :: "selection list \<Rightarrow> aid list run" where
  "pull_attributes [] = Inr []"
| "pull_attributes (Field name _ nested # items) =
     run_bind (pull_attributes items) (\<lambda>attrs. Inr (if nested = [] then name # attrs else attrs))"
| "pull_attributes (OtherSelection # items) = Inl ''not implemented''"

fun argument_bindings ::
  "var \<Rightarrow> (string \<times> gq_value) list \<Rightarrow> u64 \<Rightarrow> (aid binding list \<times> u64) run" where
  "argument_bindings this [] ctr = Inr ([], ctr)"
| "argument_bindings this ((a, v) # args) ctr =
     (let (vsym, ctr1) = gensym ctr in
      run_bind (value_from_graphql v) (\<lambda>value.
      run_bind (argument_bindings this args ctr1) (\<lambda>(bs, ctr2).
        Inr (binding_attribute this a vsym # binding_constant vsym value # bs, ctr2))))"

record 'l level_ops =
  mk_all :: "aid list \<Rightarrow> 'l"
  mk_level :: "plan \<Rightarrow> var \<Rightarrow> aid list \<Rightarrow> aid list \<Rightarrow> 'l"
  no_variables :: string

text \<open>The plan of a level: linked to the parent level by the last attribute of its path, and restricted by its arguments.\<close>

definition level_plan ::
  "'l level_ops \<Rightarrow> var list \<Rightarrow> aid binding list \<Rightarrow> (string \<times> gq_value) list \<Rightarrow> aid list \<Rightarrow> u64 \<Rightarrow>
   (var list \<times> aid binding list \<times> var \<times> u64) run" where
  "level_plan K vars bs args parent_path ctr =
     run_bind (if parent_path = [] then Inr (vars, bs)
       else if vars = [] then Inl (no_variables K)
       else (let this = of_nat (length vars)
             in Inr (vars @ [this], bs @ [binding_attribute (last vars) (last parent_path) this]))) (\<lambda>(vars', bs').
     if vars' = [] then Inl (no_variables K)
     else (let this = last vars' in
       run_bind (argument_bindings this args ctr) (\<lambda>(arg_bs, ctr'). Inr (vars', bs' @ arg_bs, this, ctr'))))"

definition own_level ::
  "'l level_ops \<Rightarrow> var list \<Rightarrow> aid binding list \<Rightarrow> var \<Rightarrow> aid list \<Rightarrow> aid list \<Rightarrow> 'l list" where
  "own_level K vars bs this attrs parent_path =
     (if attrs = [] then []
      else if bs = [] then [mk_all K attrs]
      else [mk_level K (Hector vars bs) this attrs parent_path])"

fun selection_set_to_paths ::
  "'l level_ops \<Rightarrow> selection list \<Rightarrow> var list \<Rightarrow> aid binding list \<Rightarrow> (string \<times> gq_value) list \<Rightarrow> aid list \<Rightarrow> u64 \<Rightarrow> ('l list \<times> u64) run"
and nested_levels ::
  "'l level_ops \<Rightarrow> selection list \<Rightarrow> var list \<Rightarrow> aid binding list \<Rightarrow> aid list \<Rightarrow> u64 \<Rightarrow> ('l list \<times> u64) run" where
  "selection_set_to_paths K items vars bs args parent_path ctr =
     run_bind (level_plan K vars bs args parent_path ctr) (\<lambda>(vars', bs', this, ctr1).
     run_bind (pull_attributes items) (\<lambda>attrs.
     run_bind (nested_levels K items vars' bs' parent_path ctr1) (\<lambda>(levels, ctr2).
       Inr (levels @ own_level K vars' bs' this attrs parent_path, ctr2))))"
| "nested_levels K [] vars bs parent_path ctr = Inr ([], ctr)"
| "nested_levels K (Field name args nested # items) vars bs parent_path ctr =
     run_bind (if nested = [] then Inr ([], ctr)
       else selection_set_to_paths K nested vars bs args (parent_path @ [name]) ctr) (\<lambda>(levels, ctr1).
     run_bind (nested_levels K items vars bs parent_path ctr1) (\<lambda>(levels', ctr2). Inr (levels @ levels', ctr2)))"
| "nested_levels K (OtherSelection # items) vars bs parent_path ctr = Inl ''not implemented''"

fun operation_into_paths ::
  "'l level_ops \<Rightarrow> operation \<Rightarrow> var list \<Rightarrow> aid binding list \<Rightarrow> u64 \<Rightarrow> ('l list \<times> u64) run" where
  "operation_into_paths K (SelectionSetOperation items) vars bs ctr = selection_set_to_paths K items vars bs [] [] ctr"
| "operation_into_paths K QueryOperation vars bs ctr = Inl ''not implemented''"
| "operation_into_paths K OtherOperation vars bs ctr = Inl ''not implemented''"

fun definition_into_paths ::
  "'l level_ops \<Rightarrow> gq_definition \<Rightarrow> var list \<Rightarrow> aid binding list \<Rightarrow> u64 \<Rightarrow> ('l list \<times> u64) run" where
  "definition_into_paths K (Operation op) vars bs ctr = operation_into_paths K op vars bs ctr"
| "definition_into_paths K FragmentDefinition vars bs ctr = Inl ''not implemented''"

fun document_into_paths ::
  "'l level_ops \<Rightarrow> gq_definition list \<Rightarrow> var list \<Rightarrow> aid binding list \<Rightarrow> u64 \<Rightarrow> ('l list \<times> u64) run" where
  "document_into_paths K [] vars bs ctr = Inr ([], ctr)"
| "document_into_paths K (d # ds) vars bs ctr =
     run_bind (definition_into_paths K d vars bs ctr) (\<lambda>(levels, ctr1).
     run_bind (document_into_paths K ds vars bs ctr1) (\<lambda>(levels', ctr2). Inr (levels @ levels', ctr2)))"

section \<open>The plan\<close>

definition plan_levels :: "plan level_ops" where
  "plan_levels = \<lparr> mk_all = PullAll [], mk_level = (\<lambda>p this attrs path. PullLevel [] p this attrs path False),
     no_variables = ''called Option::unwrap() on a None value'' \<rparr>"

record 'l graphql =
  gq_query :: string
  gq_paths :: "'l list"

definition graphql_new ::
  "'l level_ops \<Rightarrow> (string \<Rightarrow> gq_definition list option) \<Rightarrow> string \<Rightarrow> u64 \<Rightarrow> ('l graphql \<times> u64) run" where
  "graphql_new K parse_query query ctr =
     (case parse_query query of
        None \<Rightarrow> Inl ''graphQL ast parsing failed''
      | Some ast \<Rightarrow> run_bind (document_into_paths K ast [0] [] ctr) (\<lambda>(paths, ctr').
          Inr (\<lparr> gq_query = query, gq_paths = paths \<rparr>, ctr')))"

definition graphql_with_plan ::
  "'l level_ops \<Rightarrow> (string \<Rightarrow> gq_definition list option) \<Rightarrow> plan \<Rightarrow> string \<Rightarrow> u64 \<Rightarrow> ('l graphql \<times> u64) run" where
  "graphql_with_plan K parse_query root_plan query ctr =
     (case parse_query query of
        None \<Rightarrow> Inl ''graphQL ast parsing failed''
      | Some ast \<Rightarrow>
          (case into_bindings root_plan ctr of
             (Inl msg, _) \<Rightarrow> Inl msg
           | (Inr bs, ctr1) \<Rightarrow> run_bind (document_into_paths K ast (plan_variables root_plan) bs ctr1) (\<lambda>(paths, ctr2).
               Inr (\<lparr> gq_query = query, gq_paths = paths \<rparr>, ctr2))))"

definition graphql_dependencies :: "plan graphql \<Rightarrow> dependencies" where
  "graphql_dependencies g = deps_sum (map plan_dependencies (gq_paths g))"

definition graphql_implement ::
  "'t plan_env \<Rightarrow> ('t, 'r, 'pr) dom \<Rightarrow> 't local_arrangements \<Rightarrow> plan graphql \<Rightarrow> 't relation run option" where
  "graphql_implement E dm locals g = plan_implement E dm locals (Pull [] (gq_paths g))"

section \<open>The levels of a query\<close>

type_synonym trail = "(string \<times> (string \<times> gq_value) list) list"

fun supported :: "selection \<Rightarrow> bool" where
  "supported (Field name args nested) \<longleftrightarrow> list_all (\<lambda>(_, v). \<not> isl (value_from_graphql v)) args \<and> list_all supported nested"
| "supported OtherSelection \<longleftrightarrow> False"

fun leaf_names :: "selection list \<Rightarrow> aid list" where
  "leaf_names [] = []"
| "leaf_names (Field name _ nested # items) = (if nested = [] then name # leaf_names items else leaf_names items)"
| "leaf_names (OtherSelection # items) = leaf_names items"

text \<open>The selection set that a trail of fields leads to.\<close>

inductive at_level :: "selection list \<Rightarrow> trail \<Rightarrow> selection list \<Rightarrow> bool" where
  here: "at_level items [] items"
| down: "Field name args nested \<in> set items \<Longrightarrow> nested \<noteq> [] \<Longrightarrow> at_level nested tr sub \<Longrightarrow> at_level items ((name, args) # tr) sub"

inductive_cases at_level_ConsE: "at_level items (na # tr) sub"

lemma at_level_Nil [simp]: "at_level items [] sub \<longleftrightarrow> sub = items"
  by (auto intro: at_level.here elim: at_level.cases)

lemma at_level_Cons_iff:
  "at_level items ((name, args) # tr) sub \<longleftrightarrow> (\<exists>nested. Field name args nested \<in> set items \<and> nested \<noteq> [] \<and> at_level nested tr sub)"
  by (auto intro: at_level.down elim: at_level_ConsE)

text \<open>The plan of a level: a chain of variables along the trail, each level with its arguments.\<close>

fun argument_pairs :: "var \<Rightarrow> (string \<times> gq_value) list \<Rightarrow> var list \<Rightarrow> aid binding list" where
  "argument_pairs this ((a, v) # args) (x # xs) =
     binding_attribute this a x # binding_constant x (projr (value_from_graphql v)) # argument_pairs this args xs"
| "argument_pairs this _ _ = []"

fun trail_bindings :: "nat \<Rightarrow> trail \<Rightarrow> var list list \<Rightarrow> aid binding list" where
  "trail_bindings i ((name, args) # tr) (s # ss) =
     binding_attribute (of_nat i) name (of_nat (Suc i)) # argument_pairs (of_nat (Suc i)) args s @ trail_bindings (Suc i) tr ss"
| "trail_bindings i _ _ = []"

definition symbols_for :: "trail \<Rightarrow> var list list \<Rightarrow> bool" where
  "symbols_for tr ss \<longleftrightarrow> list_all2 (\<lambda>(_, args) s. length s = length args) tr ss"

definition at_trail :: "trail \<Rightarrow> var list \<Rightarrow> aid binding list \<Rightarrow> bool" where
  "at_trail tr vars bs \<longleftrightarrow> vars = map of_nat [0..<Suc (length tr)] \<and> (\<exists>ss. symbols_for tr ss \<and> bs = trail_bindings 0 tr ss)"

definition describes :: "'l level_ops \<Rightarrow> trail \<times> aid list \<Rightarrow> 'l \<Rightarrow> bool" where
  "describes K d level \<longleftrightarrow> (\<exists>vars bs. at_trail (fst d) vars bs \<and>
     level = (if fst d = [] then mk_all K (snd d) else mk_level K (Hector vars bs) (of_nat (length (fst d))) (snd d) (map fst (fst d))))"

definition levels_match :: "'l level_ops \<Rightarrow> 'l list \<Rightarrow> (trail \<times> aid list) set \<Rightarrow> bool" where
  "levels_match K levels D \<longleftrightarrow> (\<forall>l \<in> set levels. \<exists>d \<in> D. describes K d l) \<and> (\<forall>d \<in> D. \<exists>l \<in> set levels. describes K d l)"

definition below :: "trail \<Rightarrow> selection list \<Rightarrow> (trail \<times> aid list) set" where
  "below tr items = {(tr @ tr', leaf_names sub) | tr' sub. at_level items tr' sub \<and> leaf_names sub \<noteq> []}"

definition strictly_below :: "trail \<Rightarrow> selection list \<Rightarrow> (trail \<times> aid list) set" where
  "strictly_below tr items = {(tr @ tr', leaf_names sub) | tr' sub. at_level items tr' sub \<and> tr' \<noteq> [] \<and> leaf_names sub \<noteq> []}"

lemma levels_match_append: "levels_match K l1 D1 \<Longrightarrow> levels_match K l2 D2 \<Longrightarrow> levels_match K (l1 @ l2) (D1 \<union> D2)"
  unfolding levels_match_def by auto

lemma below_split: "below tr items = strictly_below tr items \<union> (if leaf_names items = [] then {} else {(tr, leaf_names items)})"
proof -
  have "at_level items tr' sub \<longleftrightarrow> tr' = [] \<and> sub = items \<or> tr' \<noteq> [] \<and> at_level items tr' sub" for tr' sub by auto
  then show ?thesis unfolding below_def strictly_below_def by auto metis+
qed

lemma strictly_below_Cons:
  "strictly_below tr (Field name args nested # items) =
     (if nested = [] then {} else below (tr @ [(name, args)]) nested) \<union> strictly_below tr items"
proof -
  have "at_level (Field name args nested # items) tr' sub \<and> tr' \<noteq> [] \<longleftrightarrow>
      (\<exists>tr''. tr' = (name, args) # tr'' \<and> nested \<noteq> [] \<and> at_level nested tr'' sub) \<or> at_level items tr' sub \<and> tr' \<noteq> []" for tr' sub
    by (cases tr') (auto simp: at_level_Cons_iff)
  then show ?thesis by (auto simp: strictly_below_def below_def) metis+
qed

lemma strictly_below_Nil [simp]: "strictly_below tr [] = {}"
proof -
  have "at_level [] tr' sub \<Longrightarrow> tr' = []" for tr' sub by (cases tr') (auto simp: at_level_Cons_iff)
  then show ?thesis by (auto simp: strictly_below_def)
qed

lemma pull_attributes_leafs: "list_all supported items \<Longrightarrow> pull_attributes items = Inr (leaf_names items)"
  by (induction items rule: leaf_names.induct) auto

lemma argument_bindings_pairs:
  "list_all (\<lambda>(_, v). \<not> isl (value_from_graphql v)) args \<Longrightarrow>
   \<exists>xs ctr'. argument_bindings this args ctr = Inr (argument_pairs this args xs, ctr') \<and> length xs = length args"
proof (induction args arbitrary: ctr)
  case (Cons av args)
  obtain a v where av: "av = (a, v)" by fastforce
  obtain sym ctr1 where sym: "gensym ctr = (sym, ctr1)" by fastforce
  from Cons.prems obtain x where "value_from_graphql v = Inr x" by (cases "value_from_graphql v") (auto simp: av)
  moreover from Cons obtain xs ctr' where "argument_bindings this args ctr1 = Inr (argument_pairs this args xs, ctr')" "length xs = length args"
    by (auto simp: av) blast
  ultimately show ?case by (intro exI[of _ "sym # xs"]) (simp add: av sym)
qed simp

lemma trail_bindings_snoc:
  "symbols_for tr ss \<Longrightarrow> trail_bindings i (tr @ [(name, args)]) (ss @ [s]) = trail_bindings i tr ss @
     binding_attribute (of_nat (i + length tr)) name (of_nat (Suc (i + length tr))) # argument_pairs (of_nat (Suc (i + length tr))) args s"
  unfolding symbols_for_def
proof (induction tr arbitrary: i ss)
  case (Cons na tr)
  then obtain s' ss' where "ss = s' # ss'" by (cases ss) auto
  with Cons show ?case by (cases na) (simp add: ac_simps)
qed simp

lemma level_plan_step:
  assumes "at_trail tr vars bs" and "list_all (\<lambda>(_, v). \<not> isl (value_from_graphql v)) args"
  shows "\<exists>vars' bs' ctr'. level_plan K vars bs args (map fst tr @ [name]) ctr = Inr (vars', bs', of_nat (Suc (length tr)), ctr') \<and>
    at_trail (tr @ [(name, args)]) vars' bs'"
proof -
  let ?v = "of_nat (Suc (length tr)) :: var"
  from assms(1) obtain ss where tr: "vars = map of_nat [0..<Suc (length tr)]" "symbols_for tr ss" "bs = trail_bindings 0 tr ss"
    by (auto simp: at_trail_def)
  from argument_bindings_pairs[OF assms(2), of ?v ctr] obtain xs ctr' where
    xs: "argument_bindings ?v args ctr = Inr (argument_pairs ?v args xs, ctr')" "length xs = length args" by blast
  have "level_plan K vars bs args (map fst tr @ [name]) ctr = Inr (vars @ [?v],
      bs @ binding_attribute (of_nat (length tr)) name ?v # argument_pairs ?v args xs, ?v, ctr')"
    using xs(1) by (simp add: level_plan_def tr(1) Let_def)
  moreover have "at_trail (tr @ [(name, args)]) (vars @ [?v]) (bs @ binding_attribute (of_nat (length tr)) name ?v # argument_pairs ?v args xs)"
    unfolding at_trail_def
    using tr xs(2) trail_bindings_snoc[OF tr(2), of 0 name args xs] by (auto simp: symbols_for_def intro!: exI[of _ "ss @ [xs]"] list_all2_appendI)
  ultimately show ?thesis by blast
qed

lemma own_level_match:
  assumes "at_trail tr vars bs" and "this = of_nat (length tr)"
  shows "levels_match K (own_level K vars bs this (leaf_names items) (map fst tr)) (if leaf_names items = [] then {} else {(tr, leaf_names items)})"
proof -
  have "bs = [] \<longleftrightarrow> tr = []"
    using assms(1) by (cases tr) (auto simp: at_trail_def symbols_for_def list_all2_Cons1)
  then show ?thesis using assms by (auto simp: levels_match_def own_level_def describes_def)
qed

lemma levels_exact:
  fixes K :: "'l level_ops"
  shows "at_trail tr vars bs \<Longrightarrow> list_all (\<lambda>(_, v). \<not> isl (value_from_graphql v)) args \<Longrightarrow> list_all supported items \<Longrightarrow>
      parent_path = map fst tr @ [name] \<Longrightarrow>
      \<exists>levels ctr'. selection_set_to_paths K items vars bs args parent_path ctr = Inr (levels, ctr') \<and>
        levels_match K levels (below (tr @ [(name, args)]) items)"
    and "at_trail tr vars bs \<Longrightarrow> list_all supported items \<Longrightarrow> parent_path = map fst tr \<Longrightarrow>
      \<exists>levels ctr'. nested_levels K items vars bs parent_path ctr = Inr (levels, ctr') \<and> levels_match K levels (strictly_below tr items)"
proof (induction K items vars bs args parent_path ctr and K items vars bs parent_path ctr arbitrary: tr name and tr
    rule: selection_set_to_paths_nested_levels.induct)
  case (1 K items vars bs args parent_path ctr)
  let ?tr = "tr @ [(name, args)]"
  from level_plan_step[OF "1.prems"(1,2), of K name ctr] obtain vars' bs' ctr1 where
    plan: "level_plan K vars bs args parent_path ctr = Inr (vars', bs', of_nat (Suc (length tr)), ctr1)" "at_trail ?tr vars' bs'"
    using "1.prems"(4) by blast
  have path: "parent_path = map fst ?tr" using "1.prems"(4) by simp
  from "1.IH"[OF plan(2) "1.prems"(3) path] obtain levels ctr2 where
    nested: "nested_levels K items vars' bs' parent_path ctr1 = Inr (levels, ctr2)" "levels_match K levels (strictly_below ?tr items)" by blast
  have "levels_match K (own_level K vars' bs' (of_nat (Suc (length tr))) (leaf_names items) parent_path)
      (if leaf_names items = [] then {} else {(?tr, leaf_names items)})"
    unfolding path by (rule own_level_match[OF plan(2)]) simp
  from levels_match_append[OF nested(2) this] show ?case
    using plan(1) nested(1) pull_attributes_leafs[OF "1.prems"(3)] unfolding below_split by simp
next
  case (3 K name args nested items vars bs parent_path ctr)
  show ?case
  proof (cases "nested = []")
    case True
    with "3.IH"(2)[OF "3.prems"(1) _ "3.prems"(3), of ctr] "3.prems"(2) show ?thesis by (auto simp: strictly_below_Cons)
  next
    case False
    from "3.prems"(2) have sup: "list_all (\<lambda>(_, v). \<not> isl (value_from_graphql v)) args" "list_all supported nested" "list_all supported items"
      by simp_all
    from "3.IH"(1)[OF False "3.prems"(1) sup(1,2)] "3.prems"(3) obtain l1 ctr1 where
      l1: "selection_set_to_paths K nested vars bs args (parent_path @ [name]) ctr = Inr (l1, ctr1)"
        "levels_match K l1 (below (tr @ [(name, args)]) nested)" by blast
    from "3.IH"(2)[OF "3.prems"(1) sup(3) "3.prems"(3), of ctr1] obtain l2 ctr2 where
      "nested_levels K items vars bs parent_path ctr1 = Inr (l2, ctr2)" "levels_match K l2 (strictly_below tr items)" by blast
    with l1 False levels_match_append[OF l1(2)] show ?thesis by (auto simp: strictly_below_Cons)
  qed
qed (auto simp: levels_match_def)

lemma root_levels:
  assumes "list_all supported items"
  shows "\<exists>levels ctr'. selection_set_to_paths K items [0] [] [] [] ctr = Inr (levels, ctr') \<and> levels_match K levels (below [] items)"
proof -
  have root: "at_trail [] [0] []" by (simp add: at_trail_def symbols_for_def)
  have plan: "level_plan K [0] [] [] [] ctr = Inr ([0], [], 0, ctr)" by (simp add: level_plan_def)
  from levels_exact(2)[OF root assms, of "[]" K ctr] obtain levels ctr' where
    nested: "nested_levels K items [0] [] [] ctr = Inr (levels, ctr')" "levels_match K levels (strictly_below [] items)" by auto
  from levels_match_append[OF nested(2) own_level_match[OF root, of 0 K items]] show ?thesis
    using plan nested(1) pull_attributes_leafs[OF assms] unfolding below_split by simp
qed


definition heroes_query :: "selection list" where
  "heroes_query = [Field ''Heroes'' [(''side'', GString ''light'')] [Field ''name'' [] [], Field ''friends'' [] [Field ''name'' [] []]]]"


text \<open>A root plan whose last variable is the number of its variables clashes with the variable of the first nested level.\<close>

lemma with_plan_clash:
  "parse_query query = Some [Operation (SelectionSetOperation [Field ''friend'' [] [Field ''name'' [] []]])] \<Longrightarrow>
   graphql_with_plan plan_levels parse_query (MatchA e a 2) query ctr =
     Inr (\<lparr> gq_query = query, gq_paths = [PullLevel [] (Hector [e, 2, 2] [binding_attribute e a 2, binding_attribute 2 ''friend'' 2])
       2 [''name''] [''friend''] False] \<rparr>, ctr)"
  by (simp add: graphql_with_plan_def level_plan_def own_level_def plan_levels_def)

end
