(* ===== verification/Derivation.thy ===== *)
theory Derivation
  imports GraphQL
begin

text \<open>
  Domains derived from a GraphQL query, from \<^verbatim>\<open>src/src/derive/graphql.rs\<close>. The levels of the query are translated
  as in \<open>GraphQL\<close>, with constructors of their own; each level yields a stream of (entity, value) pairs per attribute,
  keyed by the path of attributes that leads to it, and every stream becomes an attribute of a new domain. The order in which
  the map of streams is iterated is an argument. Exchanging the streams between workers does not change what they hold.
\<close>

section \<open>Levels\<close>

datatype derived_pull =
    DerivedAll "aid list"
  | DerivedLevel plan var "aid list" "aid list"

definition derived_levels :: "derived_pull level_ops" where
  "derived_levels = \<lparr> mk_all = DerivedAll, mk_level = DerivedLevel, no_variables = ''plan has no variables'' \<rparr>"

text \<open>The constructors of a derivation. Its required attributes are kept and never used.\<close>

definition derived_selection_set_to_paths ::
  "selection list \<Rightarrow> var list \<Rightarrow> aid binding list \<Rightarrow> (string \<times> gq_value) list \<Rightarrow> aid list \<Rightarrow> u64 \<Rightarrow> (derived_pull list \<times> u64) run" where
  "derived_selection_set_to_paths = selection_set_to_paths derived_levels"

definition derived_into_paths :: "gq_definition list \<Rightarrow> var list \<Rightarrow> aid binding list \<Rightarrow> u64 \<Rightarrow> (derived_pull list \<times> u64) run" where
  "derived_into_paths = document_into_paths derived_levels"

definition derivation_new :: "(string \<Rightarrow> gq_definition list option) \<Rightarrow> string \<Rightarrow> u64 \<Rightarrow> (derived_pull graphql \<times> u64) run" where
  "derivation_new = graphql_new derived_levels"

definition derivation_with_plan ::
  "(string \<Rightarrow> gq_definition list option) \<Rightarrow> plan \<Rightarrow> string \<Rightarrow> u64 \<Rightarrow> (derived_pull graphql \<times> u64) run" where
  "derivation_with_plan = graphql_with_plan derived_levels"

definition derivation_with_required_aids ::
  "(string \<Rightarrow> gq_definition list option) \<Rightarrow> string \<Rightarrow> aid list \<Rightarrow> u64 \<Rightarrow> ((derived_pull graphql \<times> aid list) \<times> u64) run" where
  "derivation_with_required_aids parse_query query required_aids ctr =
     run_bind (derivation_new parse_query query ctr) (\<lambda>(g, ctr'). Inr ((g, required_aids), ctr'))"

fun derived_dependencies :: "derived_pull \<Rightarrow> dependencies" where
  "derived_dependencies (DerivedAll attrs) = deps_sum (map deps_attribute attrs)"
| "derived_dependencies (DerivedLevel p _ attrs _) = deps_add (plan_dependencies p) (deps_sum (map deps_attribute attrs))"

definition derivation_dependencies :: "derived_pull graphql \<Rightarrow> dependencies" where
  "derivation_dependencies g = deps_sum (map derived_dependencies (gq_paths g))"

type_synonym ('d, 't) path_streams = "(aid list, ('d, 't) collection) hash_map"

text \<open>What is kept of an entity, the path to it and a value is an argument, shared with the pull levels of \<open>Documents\<close>.\<close>

fun level_streams ::
  "(df_value \<Rightarrow> tuple \<Rightarrow> df_value \<Rightarrow> 'd) \<Rightarrow> 't dataflow_ops \<Rightarrow> ('t \<Rightarrow> 't list \<Rightarrow> 't) \<Rightarrow> ('t, 'r, 'pr) dom \<Rightarrow>
   (df_value \<times> tuple, 't nested) collection \<Rightarrow> aid list \<Rightarrow> aid list \<Rightarrow> ('d, 't) path_streams \<Rightarrow> handle \<Rightarrow> (('d, 't) path_streams \<times> handle) run" where
  "level_streams keep ops advance_by dm e_path path_attributes [] streams h = Inr (streams, h)"
| "level_streams keep ops advance_by dm e_path path_attributes (a # attrs) streams h =
     run_bind (pull_index ops advance_by dm a) (\<lambda>(e_v, b).
     if path_attributes = [] then Inl ''assertion failed''
     else level_streams keep ops advance_by dm e_path path_attributes attrs
       (hm_insert (path_attributes @ [a]) (leave (coll_map (\<lambda>(e, path, v). keep e path v) (join_paths ops e_path e_v))) streams)
       (add_button h b))"

fun all_streams ::
  "(df_value \<Rightarrow> df_value \<Rightarrow> 'd) \<Rightarrow> 't dataflow_ops \<Rightarrow> ('t \<Rightarrow> 't list \<Rightarrow> 't) \<Rightarrow> ('t, 'r, 'pr) dom \<Rightarrow> aid list \<Rightarrow>
   ('d, 't) path_streams \<Rightarrow> handle \<Rightarrow> (('d, 't) path_streams \<times> handle) run" where
  "all_streams keep ops advance_by dm [] streams h = Inr (streams, h)"
| "all_streams keep ops advance_by dm (a # attrs) streams h =
     run_bind (pull_index ops advance_by dm a) (\<lambda>(e_v, b).
       all_streams keep ops advance_by dm attrs (hm_insert [a] (leave (coll_map (\<lambda>(e, v). keep e v) e_v)) streams) (add_button h b))"

text \<open>The input of a level, keyed by the entities to pull.\<close>

definition level_input ::
  "'t plan_env \<Rightarrow> ('t, 'r, 'pr) dom \<Rightarrow> 't local_arrangements \<Rightarrow> plan \<Rightarrow> var \<Rightarrow> ((df_value \<times> tuple, 't nested) collection \<times> handle) run option" where
  "level_input E dm locals p pull_variable =
     and_then (plan_implement E dm locals p) (\<lambda>(input, shutdown_handle).
       run_bind (expect ''input relation doesn't bind pull_variable'' (impl_binds input pull_variable)) (\<lambda>e_offset.
       run_bind (impl_tuples (import_trace (env_ops E)) dm input) (\<lambda>(paths, shutdown).
       run_bind (coll_map_run (\<lambda>t. run_bind (vec_index t e_offset) (\<lambda>e. Inr (e, t))) paths) (\<lambda>e_path.
         Inr (e_path, merge_with shutdown_handle shutdown)))))"

fun derived_implement ::
  "'t plan_env \<Rightarrow> ('t, 'r, 'pr) dom \<Rightarrow> 't local_arrangements \<Rightarrow> derived_pull \<Rightarrow> ((df_value \<times> df_value, 't) path_streams \<times> handle) run option" where
  "derived_implement E dm locals (DerivedAll attrs) =
     Some (if attrs = [] then Inl ''assertion failed'' else all_streams (\<lambda>e v. (e, v)) (env_ops E) (env_advance_by E) dm attrs [] handle_empty)"
| "derived_implement E dm locals (DerivedLevel p pull_variable attrs path_attributes) =
     (if attrs = [] then Some (Inl ''assertion failed'')
      else and_then (level_input E dm locals p pull_variable) (\<lambda>(e_path, h).
        level_streams (\<lambda>e _ v. (e, v)) (env_ops E) (env_advance_by E) dm e_path path_attributes attrs [] h))"

section \<open>Deriving a domain\<close>

fun add_derived ::
  "'t time_ops \<Rightarrow> 'pr \<Rightarrow> aid \<Rightarrow> (aid list \<times> (df_value \<times> df_value, 't) collection) list \<Rightarrow> ('t, 'r, 'pr) dom \<Rightarrow> ('t, 'r, 'pr) dom run" where
  "add_derived T pr ns [] out = Inr out"
| "add_derived T pr ns ((path_id, stream) # streams) out =
     (if path_id = [] then Inl ''called Option::unwrap() on a None value''
      else run_bind (domain_add_assign T out (scoped_into (singleton_sourced T pr (with_namespace (last path_id) ns) stream)))
        (add_derived T pr ns streams))"

fun derive_paths ::
  "'t time_ops \<Rightarrow> 't plan_env \<Rightarrow> 'pr \<Rightarrow> ((df_value \<times> df_value, 't) path_streams \<Rightarrow> (df_value \<times> df_value, 't) path_streams) \<Rightarrow> ('t, 'r, 'pr) dom \<Rightarrow> aid \<Rightarrow> derived_pull list \<Rightarrow>
   ('t, 'r, 'pr) dom \<Rightarrow> ('t, 'r, 'pr) dom run option" where
  "derive_paths T E pr iter dm ns [] out = Some (Inr out)"
| "derive_paths T E pr iter dm ns (pull # paths) out =
     (case derived_implement E dm [] pull of
        None \<Rightarrow> None
      | Some (Inl msg) \<Rightarrow> Some (Inl msg)
      | Some (Inr (streams, _)) \<Rightarrow>
          (case add_derived T pr ns (iter streams) out of
             Inl msg \<Rightarrow> Some (Inl msg)
           | Inr out' \<Rightarrow> derive_paths T E pr iter dm ns paths out'))"

definition derive ::
  "'t time_ops \<Rightarrow> 't plan_env \<Rightarrow> 'pr \<Rightarrow> ((df_value \<times> df_value, 't) path_streams \<Rightarrow> (df_value \<times> df_value, 't) path_streams) \<Rightarrow> ('t, 'r, 'pr) dom \<Rightarrow> aid \<Rightarrow> derived_pull list \<Rightarrow>
   ('t, 'r, 'pr) dom run option" where
  "derive T E pr iter dm ns paths = derive_paths T E pr iter dm ns paths (domain_new_from pr [] dm)"

text \<open>The request to derive attributes: the derived domain is added to the domain of the server.\<close>

definition derive_into ::
  "'t time_ops \<Rightarrow> 't plan_env \<Rightarrow> 'pr \<Rightarrow> ((df_value \<times> df_value, 't) path_streams \<Rightarrow> (df_value \<times> df_value, 't) path_streams) \<Rightarrow> ('t, 'r, 'pr) dom \<Rightarrow> aid \<Rightarrow> derived_pull list \<Rightarrow>
   ('t, 'r, 'pr) dom run option" where
  "derive_into T E pr iter dm ns paths = and_then (derive T E pr iter dm ns paths) (domain_add_assign T dm)"

section \<open>Properties\<close>

fun derived_attributes :: "derived_pull \<Rightarrow> aid list" where
  "derived_attributes (DerivedAll attrs) = attrs"
| "derived_attributes (DerivedLevel _ _ attrs _) = attrs"

lemma update_keys: "fst ` set (hm_insert k v m) = insert k (fst ` set m)"
  using dom_update[of k v m] by (simp add: dom_map_of_conv_image_fst)

lemma all_streams_keys:
  "all_streams keep ops adv dm attrs streams h = Inr (streams', h') \<Longrightarrow> fst ` set streams' = fst ` set streams \<union> (\<lambda>a. [a]) ` set attrs"
proof (induction attrs arbitrary: streams h)
  case (Cons a attrs)
  then obtain c b where "all_streams keep ops adv dm attrs (hm_insert [a] c streams) (add_button h b) = Inr (streams', h')"
    by (auto simp: run_simps)
  from Cons.IH[OF this] show ?case by (simp add: update_keys)
qed simp

lemma level_streams_keys:
  "level_streams keep ops adv dm e_path pas attrs streams h = Inr (streams', h') \<Longrightarrow>
     fst ` set streams' = fst ` set streams \<union> (\<lambda>a. pas @ [a]) ` set attrs"
proof (induction attrs arbitrary: streams h)
  case (Cons a attrs)
  then obtain c b where "level_streams keep ops adv dm e_path pas attrs (hm_insert (pas @ [a]) c streams) (add_button h b) = Inr (streams', h')"
    by (auto simp: run_simps split: if_splits)
  from Cons.IH[OF this] show ?case by (simp add: update_keys)
qed simp

lemma derived_streams_keys:
  assumes "derived_implement E dm locals p = Some (Inr (streams, h))"
  shows "\<exists>pas. fst ` set streams = (\<lambda>a. pas @ [a]) ` set (derived_attributes p) \<and> derived_attributes p \<noteq> []"
proof (cases p)
  case (DerivedAll attrs)
  with assms all_streams_keys[of "\<lambda>e v. (e, v)" "env_ops E" "env_advance_by E" dm attrs "[]" handle_empty streams h] show ?thesis
    by (intro exI[of _ "[]"]) (auto split: if_splits)
next
  case (DerivedLevel plan v attrs pas)
  with assms show ?thesis
    by (intro exI[of _ pas]) (auto simp: and_then_def run_simps dest!: level_streams_keys split: if_splits)
qed

lemma add_derived_single:
  assumes "add_derived T pr ns streams out = Inr out'" and "streams \<noteq> []"
  shows "length streams = 1 \<and> probed_source_count out = 0 \<and> probed_source_count out' = 1"
proof -
  have one: "probed_source_count (scoped_into (singleton_sourced T pr name stream)) = 1" for name stream
    by (simp add: scoped_into_def singleton_sourced_def singleton_of_def domain_new_def Let_def)
  have step: "probed_source_count out = 0 \<and> probed_source_count dm = 1"
    if "domain_add_assign T out (scoped_into (singleton_sourced T pr name stream)) = Inr dm" for out dm name stream
    using that one[of name stream] by (auto simp: domain_add_assign_def split: if_splits)
  from assms(2) obtain s rest where s: "streams = s # rest" by (cases streams) auto
  with assms(1) obtain dm name where first: "domain_add_assign T out (scoped_into (singleton_sourced T pr name (snd s))) = Inr dm"
    "add_derived T pr ns rest dm = Inr out'" by (cases s) (auto simp: run_simps split: if_splits)
  show ?thesis
  proof (cases rest)
    case Nil
    with first step[OF first(1)] show ?thesis by (simp add: s)
  next
    case (Cons s' rest')
    with first(2) obtain dm' name' where "domain_add_assign T dm (scoped_into (singleton_sourced T pr name' (snd s'))) = Inr dm'"
      by (cases s') (auto simp: run_simps split: if_splits)
    from step[OF this] step[OF first(1)] show ?thesis by simp
  qed
qed

lemma derive_paths_single:
  assumes "\<And>streams. set (iter streams) = set streams" and "derive_paths T E pr iter dm ns paths out = Some (Inr out')" and "paths \<noteq> []"
  shows "length paths = 1 \<and> card (set (derived_attributes (hd paths))) = 1 \<and> probed_source_count out = 0"
proof -
  have step: "card (set (derived_attributes p)) = 1 \<and> probed_source_count out = 0 \<and> probed_source_count out1 = 1"
    if "derived_implement E dm [] p = Some (Inr (streams, h))" "add_derived T pr ns (iter streams) out = Inr out1" for p streams h out out1
  proof -
    from derived_streams_keys[OF that(1)] obtain pas where
      keys: "fst ` set streams = (\<lambda>a. pas @ [a]) ` set (derived_attributes p)" "derived_attributes p \<noteq> []" by blast
    then have "iter streams \<noteq> []" using assms(1)[of streams] by auto
    from add_derived_single[OF that(2) this] have single: "length (iter streams) = 1" "probed_source_count out = 0" "probed_source_count out1 = 1" by auto
    then obtain s where "iter streams = [s]" by (auto simp: length_Suc_conv)
    with assms(1)[of streams] have "set streams = {s}" by simp
    with keys(1) have "card ((\<lambda>a. pas @ [a]) ` set (derived_attributes p)) = 1" by (metis card_1_singleton_iff image_insert image_empty One_nat_def)
    moreover have "inj_on (\<lambda>a. pas @ [a]) (set (derived_attributes p))" by (rule inj_onI) simp
    ultimately show ?thesis using single card_image by metis
  qed
  obtain p rest where paths: "paths = p # rest" using assms(3) by (cases paths) auto
  with assms(2) obtain streams h out1 where first: "derived_implement E dm [] p = Some (Inr (streams, h))"
    "add_derived T pr ns (iter streams) out = Inr out1" "derive_paths T E pr iter dm ns rest out1 = Some (Inr out')"
    by (auto split: option.splits sum.splits)
  show ?thesis
  proof (cases rest)
    case Nil
    with step[OF first(1,2)] show ?thesis by (simp add: paths)
  next
    case (Cons p' rest')
    with first(3) obtain streams' h' out2 where "derived_implement E dm [] p' = Some (Inr (streams', h'))"
      "add_derived T pr ns (iter streams') out1 = Inr out2" by (auto split: option.splits sum.splits)
    from step[OF this] step[OF first(1,2)] show ?thesis by simp
  qed
qed

text \<open>A domain can only be derived for a single attribute. Whenever the query pulls two attributes, on one level or on several,
  deriving its domain does not succeed, because every derived stream counts as an external source and a domain can be composed
  with one at most.\<close>

theorem derive_single_attribute:
  assumes "\<And>streams. set (iter streams) = set streams"
    and "2 \<le> length paths \<or> (\<exists>p \<in> set paths. 2 \<le> card (set (derived_attributes p)))"
  shows "derive T E pr iter dm ns paths \<noteq> Some (Inr out)"
proof
  assume run: "derive T E pr iter dm ns paths = Some (Inr out)"
  have "paths \<noteq> []" using assms(2) by auto
  from derive_paths_single[OF assms(1) run[unfolded derive_def] this]
  have single: "length paths = 1" "card (set (derived_attributes (hd paths))) = 1" by simp_all
  then obtain p where "paths = [p]" by (auto simp: length_Suc_conv)
  with single assms(2) show False by simp
qed

definition derivation_domain :: "(u64, unit, button, unit) domain" where
  "derivation_domain = (domain_new u64_time () 0) \<lparr> attributes := [(''name'', tx_time Raw), (''age'', tx_time Raw)],
     forward_propose := [(''name'', arrange u64_time [((Eid 1, String ''a''), 0, 1)]), (''age'', arrange u64_time [((Eid 1, Number 3), 0, 1)])] \<rparr>"

theorem derive_single_attribute_witness:
  "\<nexists>out. derive u64_time ref_env () id derivation_domain ''people'' [DerivedAll [''name'', ''age'']] = Some (Inr out)"
  using derive_single_attribute[where iter = id and paths = "[DerivedAll [''name'', ''age'']]" and T = u64_time and E = ref_env
      and pr = "()" and dm = derivation_domain and ns = "''people''"] by simp

end
