(* ===== verification/Sinks.thy ===== *)
theory Sinks
  imports Values "HOL-Library.Sublist"
begin

text \<open>
  Sinks, from \<^verbatim>\<open>src/src/sinks\<close>: the nested-map sink \<^verbatim>\<open>AssocIn\<close>, which turns query results into JSON documents, and the void
  sink. A result tuple is a path of keys, a last key and a value; an object of \<^verbatim>\<open>serde_json\<close> is the list of its
  entries, which it iterates in the order of their keys. Navigating down a document through mutable references is
  recursion into it.
\<close>

section \<open>Merging paths\<close>

fun parse_key :: "df_value \<Rightarrow> string run" where
  "parse_key (Aid x) = Inr x"
| "parse_key (Eid x) = Inr (decimal (unat x))"
| "parse_key (String x) = Inr x"
| "parse_key _ = Inl ''Malformed pull path. Expected a key.''"

fun parse_keys :: "df_value list \<Rightarrow> string list run" where
  "parse_keys [] = Inr []"
| "parse_keys (v # vs) = run_bind (parse_key v) (\<lambda>k. run_bind (parse_keys vs) (\<lambda>ks. Inr (k # ks)))"

type_synonym json_map = "(string, json) hash_map"

definition entry_of :: "string \<Rightarrow> json_map \<Rightarrow> json" where
  "entry_of k m = (case map_of m k of None \<Rightarrow> JObject [] | Some e \<Rightarrow> e)"

text \<open>The walk from an entry along the remaining keys, and the change at its end; a leaf on the way ends it.\<close>

fun navigate :: "int \<Rightarrow> df_value list \<Rightarrow> string \<Rightarrow> df_value \<Rightarrow> json \<Rightarrow> json run" where
  "navigate diff [] leaf_key leaf_val (JObject m) =
     (if diff > 0 then run_bind (value_into_json leaf_val) (\<lambda>j. Inr (JObject (hm_insert leaf_key j m)))
      else Inr (JObject (hm_remove leaf_key m)))"
| "navigate diff (key # keys) leaf_key leaf_val (JObject m) =
     run_bind (parse_key key) (\<lambda>k.
     run_bind (navigate diff keys leaf_key leaf_val (entry_of k m)) (\<lambda>e. Inr (JObject (hm_insert k e m))))"
| "navigate diff keys leaf_key leaf_val e = Inr e"

text \<open>One path: the new document and the key under which the change is reported.\<close>

fun merge_path :: "nat \<Rightarrow> tuple \<times> 't \<times> int \<Rightarrow> json_map \<Rightarrow> (json_map \<times> string list) run" where
  "merge_path g (tup, t, diff) acc =
     (if tup = [] then Inl ''leaf value missing''
      else if butlast tup = [] then Inl ''leaf keay missing''
      else (let leaf_val = last tup; path = butlast (butlast tup) in
        run_bind (parse_key (last (butlast tup))) (\<lambda>leaf_key.
        case path of
          [] \<Rightarrow> run_bind (value_into_json leaf_val) (\<lambda>j.
            Inr (hm_insert leaf_key j acc, if 0 < g then [leaf_key] else []))
        | key0 # keys \<Rightarrow>
            run_bind (parse_key key0) (\<lambda>first_key.
            run_bind (parse_keys (take (g - 1) keys)) (\<lambda>change.
            run_bind (navigate diff keys leaf_key leaf_val (entry_of first_key acc)) (\<lambda>e.
              Inr (hm_insert first_key e acc, if 0 < g then first_key # change else [])))))))"

fun merge_all :: "nat \<Rightarrow> (tuple \<times> 't \<times> int) list \<Rightarrow> json_map \<Rightarrow> (json_map \<times> string list list) run" where
  "merge_all g [] acc = Inr (acc, [])"
| "merge_all g (p # ps) acc =
     run_bind (merge_path g p acc) (\<lambda>(acc1, change).
     run_bind (merge_all g ps acc1) (\<lambda>(acc2, changes). Inr (acc2, change # changes)))"

definition sort_paths :: "(tuple \<times> 't::linorder \<times> int) list \<Rightarrow> (tuple \<times> 't \<times> int) list" where
  "sort_paths paths = sort_key (\<lambda>(_, t, _). t) (sort_key (\<lambda>(_, _, diff). diff) paths)"

definition merge_paths :: "nat \<Rightarrow> (tuple \<times> 't::linorder \<times> int) list \<Rightarrow> json_map \<Rightarrow> (json_map \<times> string list list) run" where
  "merge_paths g paths acc =
     run_bind (merge_all g (sort_paths paths) acc) (\<lambda>(acc', changes). Inr (acc', remdups_adj (sort changes)))"

section \<open>The operators\<close>

record 't assoc_in_state =
  pending :: "('t, (tuple \<times> 't \<times> int) list) hash_map"
  documents :: "json_map option"

definition assoc_in_start :: "nat option \<Rightarrow> 't assoc_in_state" where
  "assoc_in_start stateful = \<lparr> pending = [], documents = (if stateful = None then None else Some []) \<rparr>"

definition assoc_in_receive :: "'t \<Rightarrow> (tuple \<times> 't \<times> int) list \<Rightarrow> 't assoc_in_state \<Rightarrow> 't assoc_in_state" where
  "assoc_in_receive t data st =
     st \<lparr> pending := hm_insert t ((case map_of (pending st) t of None \<Rightarrow> [] | Some ps \<Rightarrow> ps) @ data) (pending st) \<rparr>"

fun snapshot_at :: "string list \<Rightarrow> json \<Rightarrow> json run" where
  "snapshot_at [] e = Inr e"
| "snapshot_at (k # ks) (JObject m) =
     (case map_of m k of None \<Rightarrow> Inl ''no entry found for key'' | Some e \<Rightarrow> snapshot_at ks e)"
| "snapshot_at (k # ks) e = snapshot_at ks e"

fun snapshot_of :: "json_map \<Rightarrow> string list \<Rightarrow> json run" where
  "snapshot_of states [] = Inl ''index out of bounds''"
| "snapshot_of states (k # ks) =
     (case map_of states k of None \<Rightarrow> Inl ''no entry found for key'' | Some e \<Rightarrow> snapshot_at ks e)"

text \<open>A completed time.\<close>

definition assoc_in_notify ::
  "('t::linorder \<Rightarrow> time) \<Rightarrow> string \<Rightarrow> nat option \<Rightarrow> 't \<Rightarrow> 't assoc_in_state \<Rightarrow> (df_output list \<times> 't assoc_in_state) run" where
  "assoc_in_notify into name stateful t st =
     (let g = (case stateful of None \<Rightarrow> 1 | Some g \<Rightarrow> g) in
      case map_of (pending st) t of
        None \<Rightarrow> Inr ([], st)
      | Some paths \<Rightarrow>
          (let st1 = st \<lparr> pending := hm_remove t (pending st) \<rparr> in
           case documents st of
             None \<Rightarrow> run_bind (merge_paths g paths []) (\<lambda>(m, _).
               Inr (map (\<lambda>k. Json name (the (map_of m k)) (into t) 1) (sort (keys_of m)), st1))
           | Some states \<Rightarrow> run_bind (merge_paths g paths states) (\<lambda>(states', changes).
               run_bind (run_map (snapshot_of states') changes) (\<lambda>snapshots.
                 Inr (map (\<lambda>j. Json name j (into t) 1) snapshots, st1 \<lparr> documents := Some states' \<rparr>)))))"

text \<open>The void sink records the last time whose results it has seen completed. Only the last batch of an activation
  decides whether input was received.\<close>

record 't void_state =
  last_time :: 't
  written :: "'t list"

definition void_step :: "('t list \<Rightarrow> 't \<Rightarrow> bool) \<Rightarrow> bool \<Rightarrow> 'a list list \<Rightarrow> 't list \<Rightarrow> 't void_state \<Rightarrow> 't void_state" where
  "void_step frontier_le has_file batches frontier st =
     (let received_input = batches \<noteq> [] \<and> last batches \<noteq> [] in
      if frontier = [] then st \<lparr> written := written st @ (if has_file then [last_time st] else []) \<rparr>
      else if received_input \<and> \<not> frontier_le frontier (last_time st)
      then \<lparr> last_time = hd frontier, written = written st @ (if has_file then [last_time st] else []) \<rparr>
      else st)"

section \<open>Documents as stores\<close>

text \<open>Clojure's \<^verbatim>\<open>assoc-in\<close> (and its inverse for retractions), which the merge is meant to rebuild, and reading along a path.\<close>

fun assoc_in :: "int \<Rightarrow> string list \<Rightarrow> json \<Rightarrow> json \<Rightarrow> json" where
  "assoc_in diff [k] j (JObject m) = JObject (if diff > 0 then hm_insert k j m else hm_remove k m)"
| "assoc_in diff (k # k' # ks) j (JObject m) = JObject (hm_insert k (assoc_in diff (k' # ks) j (entry_of k m)) m)"
| "assoc_in diff ks j e = e"

fun lookup_in :: "string list \<Rightarrow> json \<Rightarrow> json option" where
  "lookup_in [] e = Some e"
| "lookup_in (k # ks) (JObject m) = (case map_of m k of None \<Rightarrow> None | Some e \<Rightarrow> lookup_in ks e)"
| "lookup_in (k # ks) e = None"

text \<open>No leaf blocks a path.\<close>

fun open_path :: "string list \<Rightarrow> json \<Rightarrow> bool" where
  "open_path [] e \<longleftrightarrow> True"
| "open_path (k # ks) (JObject m) \<longleftrightarrow> ks = [] \<or> open_path ks (entry_of k m)"
| "open_path (k # ks) e \<longleftrightarrow> False"

lemma open_path_object: "ks \<noteq> [] \<Longrightarrow> open_path ks e \<Longrightarrow> \<exists>m. e = JObject m"
  by (cases ks; cases e) auto

lemma open_path_empty: "open_path ks (JObject [])"
  by (induction ks) (auto simp: entry_of_def)

lemma lookup_assoc_in:
  "ks \<noteq> [] \<Longrightarrow> open_path ks e \<Longrightarrow> lookup_in ks (assoc_in diff ks j e) = (if diff > 0 then Some j else None)"
  by (induction diff ks j e rule: assoc_in.induct) (auto dest: open_path_object)

lemma lookup_assoc_in_other:
  "\<not> prefix ks p \<Longrightarrow> \<not> prefix p ks \<Longrightarrow> lookup_in p (assoc_in diff ks j e) = lookup_in p e"
proof (induction diff ks j e arbitrary: p rule: assoc_in.induct)
  case (1 diff k j m)
  then show ?case by (cases p) auto
next
  case (2 diff k k' ks j m)
  then obtain k0 p' where p: "p = k0 # p'" by (cases p) auto
  show ?case
  proof (cases "k0 = k")
    case True
    with "2.prems" p have "\<not> prefix (k' # ks) p'" "\<not> prefix p' (k' # ks)" by auto
    from "2.IH"[OF this] True p "2.prems" show ?thesis by (cases p') (auto simp: entry_of_def split: option.splits)
  qed (simp add: p)
qed auto

lemma open_assoc_in:
  "ks = p \<or> \<not> prefix ks p \<and> \<not> prefix p ks \<Longrightarrow> open_path p e \<Longrightarrow> open_path p (assoc_in diff ks j e)"
proof (induction diff ks j e arbitrary: p rule: assoc_in.induct)
  case (1 diff k j m)
  then show ?case by (cases p) (auto simp: entry_of_def)
next
  case (2 diff k k' ks j m)
  then obtain k0 p' where p: "p = k0 # p'" by (cases p) auto
  show ?case
  proof (cases "k0 = k")
    case True
    with "2.prems" p have "(k' # ks) = p' \<or> \<not> prefix (k' # ks) p' \<and> \<not> prefix p' (k' # ks)" "open_path p' (entry_of k m)" by auto
    from "2.IH"[OF this] True p show ?thesis by (simp add: entry_of_def)
  qed (use "2.prems" p in \<open>auto simp: entry_of_def\<close>)
qed auto

subsection \<open>One path\<close>

definition path_ok :: "tuple \<Rightarrow> bool" where
  "path_ok tup \<longleftrightarrow> 3 \<le> length tup \<and> (\<forall>v \<in> set (butlast tup). \<exists>k. parse_key v = Inr k) \<and> (\<exists>j. value_into_json (last tup) = Inr j)"

definition path_keys :: "tuple \<Rightarrow> string list" where
  "path_keys tup = map (\<lambda>v. projr (parse_key v)) (butlast tup)"

definition path_leaf :: "tuple \<Rightarrow> json" where
  "path_leaf tup = projr (value_into_json (last tup))"

lemma parse_keys_ok: "(\<forall>v \<in> set vs. \<exists>k. parse_key v = Inr k) \<Longrightarrow> parse_keys vs = Inr (map (\<lambda>v. projr (parse_key v)) vs)"
  by (induction vs) auto

lemma navigate_assoc_in:
  assumes "\<forall>v \<in> set keys. \<exists>k. parse_key v = Inr k" and "value_into_json v = Inr j"
    and "open_path (map (\<lambda>v. projr (parse_key v)) keys @ [lk]) e"
  shows "navigate diff keys lk v e = Inr (assoc_in diff (map (\<lambda>v. projr (parse_key v)) keys @ [lk]) j e)"
  using assms
proof (induction keys arbitrary: e)
  case Nil
  then show ?case using open_path_object[of "[lk]" e] by auto
next
  case (Cons key keys)
  then obtain k m where k: "parse_key key = Inr k" "e = JObject m"
    using open_path_object[of "map (\<lambda>v. projr (parse_key v)) (key # keys) @ [lk]" e] by auto
  with Cons.prems(3) have "open_path (map (\<lambda>v. projr (parse_key v)) keys @ [lk]) (entry_of k m)" by simp
  from Cons.IH[OF _ Cons.prems(2) this] Cons.prems(1) k show ?case by (cases keys) auto
qed

lemma merge_path_assoc_in:
  assumes "path_ok tup" and "open_path (path_keys tup) (JObject acc)"
  shows "\<exists>acc'. merge_path g (tup, t, diff) acc = Inr (acc', take g (butlast (path_keys tup))) \<and>
    JObject acc' = assoc_in diff (path_keys tup) (path_leaf tup) (JObject acc)"
proof -
  let ?key = "\<lambda>v. projr (parse_key v)"
  obtain path vl where path: "tup = path @ [vl]" using assms(1) by (cases tup rule: rev_cases) (auto simp: path_ok_def)
  then obtain path' kl where path': "path = path' @ [kl]" using assms(1) by (cases path rule: rev_cases) (auto simp: path_ok_def)
  then obtain key0 keys where "path' = key0 # keys" using assms(1) path by (cases path') (auto simp: path_ok_def)
  with path path' have tup: "tup = key0 # keys @ [kl, vl]" by simp
  from assms(1) have ok: "\<forall>v \<in> set (key0 # keys @ [kl]). \<exists>k. parse_key v = Inr k" "\<exists>j. value_into_json vl = Inr j"
    by (simp_all add: path_ok_def tup butlast_append)
  have pk: "path_keys tup = ?key key0 # map ?key keys @ [?key kl]" by (simp add: path_keys_def tup butlast_append)
  have "open_path (map ?key keys @ [?key kl]) (entry_of (?key key0) acc)" using assms(2) by (simp add: pk)
  with ok have nav: "navigate diff keys (?key kl) vl (entry_of (?key key0) acc) =
      Inr (assoc_in diff (map ?key keys @ [?key kl]) (path_leaf tup) (entry_of (?key key0) acc))"
    by (intro navigate_assoc_in) (auto simp: path_leaf_def tup)
  have "parse_keys (take (g - 1) keys) = Inr (map ?key (take (g - 1) keys))"
    using ok(1) by (intro parse_keys_ok) (auto dest: in_set_takeD)
  moreover obtain k0 kk where "parse_key key0 = Inr k0" "parse_key kl = Inr kk" using ok(1) by auto
  moreover have "butlast tup = key0 # keys @ [kl]" "butlast (key0 # keys @ [kl]) = key0 # keys"
    by (simp_all add: tup butlast_append)
  ultimately show ?thesis using nav pk by (cases keys; cases g) (auto simp: tup butlast_append simp flip: take_map)
qed

text \<open>A path of a single key writes its value whatever the change is, a retraction too.\<close>

lemma top_level_writes:
  "parse_key k = Inr s \<Longrightarrow> value_into_json v = Inr j \<Longrightarrow>
   \<exists>change. merge_path g ([k, v], t, diff) acc = Inr (hm_insert s j acc, change)"
  by simp

subsection \<open>Batches of paths\<close>

text \<open>The value at a path after a sequence of changes.\<close>

fun last_value :: "string list \<Rightarrow> (tuple \<times> 't \<times> int) list \<Rightarrow> json option \<Rightarrow> json option" where
  "last_value p [] s = s"
| "last_value p ((tup, t, diff) # us) s =
     last_value p us (if path_keys tup = p then (if diff > 0 then Some (path_leaf tup) else None) else s)"

definition unrelated :: "string list set \<Rightarrow> bool" where
  "unrelated P \<longleftrightarrow> (\<forall>p \<in> P. \<forall>q \<in> P. p = q \<or> \<not> prefix p q \<and> \<not> prefix q p)"

text \<open>The objects above a path are there.\<close>

definition has_parent :: "string list \<Rightarrow> json \<Rightarrow> bool" where
  "has_parent p e \<longleftrightarrow> (\<exists>m. lookup_in (butlast p) e = Some (JObject m))"

lemma has_parent_assoc_in:
  "open_path ks e \<Longrightarrow> ks \<noteq> [] \<Longrightarrow> has_parent ks (assoc_in diff ks j e)"
  by (induction diff ks j e rule: assoc_in.induct) (auto simp: has_parent_def dest: open_path_object)

lemma has_parent_other:
  assumes "ks = p \<or> \<not> prefix ks p \<and> \<not> prefix p ks" and "has_parent p e" and "open_path ks e" and "ks \<noteq> []"
  shows "has_parent p (assoc_in diff ks j e)"
  using assms
proof (induction diff ks j e arbitrary: p rule: assoc_in.induct)
  case (1 diff k j m)
  then show ?case by (cases p) (auto simp: has_parent_def split: option.splits if_splits)
next
  case (2 diff k k' ks j m)
  then obtain k0 p' where p: "p = k0 # p'" by (cases p) auto
  show ?case
  proof (cases "p' = [] \<or> k0 \<noteq> k")
    case True
    with "2.prems" p show ?thesis by (auto simp: has_parent_def)
  next
    case False
    with "2.prems" p have "(k' # ks) = p' \<or> \<not> prefix (k' # ks) p' \<and> \<not> prefix p' (k' # ks)" "open_path (k' # ks) (entry_of k m)"
      "has_parent p' (entry_of k m)" by (auto simp: has_parent_def entry_of_def split: option.splits)
    from "2.IH"[OF this(1,3,2)] False p show ?thesis by (simp add: has_parent_def)
  qed
qed auto

lemma merge_all_exact:
  assumes "unrelated P" and "\<forall>(tup, t, diff) \<in> set us. path_ok tup \<and> path_keys tup \<in> P" and "\<forall>p \<in> P. p \<noteq> [] \<and> open_path p (JObject acc)"
  shows "\<exists>acc'. merge_all g us acc = Inr (acc', map (\<lambda>(tup, _). take g (butlast (path_keys tup))) us) \<and>
    (\<forall>p \<in> P. lookup_in p (JObject acc') = last_value p us (lookup_in p (JObject acc)) \<and> open_path p (JObject acc') \<and>
      (p \<in> path_keys ` fst ` set us \<or> has_parent p (JObject acc) \<longrightarrow> has_parent p (JObject acc')))"
  using assms(2,3)
proof (induction us arbitrary: acc)
  case (Cons u us)
  obtain tup t diff where u: "u = (tup, t, diff)" by (cases u) auto
  from Cons.prems(1) have ok: "path_ok tup" "path_keys tup \<in> P" by (auto simp: u)
  then have "open_path (path_keys tup) (JObject acc)" using Cons.prems(2) by blast
  from merge_path_assoc_in[OF ok(1) this, of g t diff] obtain acc1 where
    run: "merge_path g (tup, t, diff) acc = Inr (acc1, take g (butlast (path_keys tup)))"
    and acc1: "JObject acc1 = assoc_in diff (path_keys tup) (path_leaf tup) (JObject acc)" by blast
  have rel: "path_keys tup = p \<or> \<not> prefix (path_keys tup) p \<and> \<not> prefix p (path_keys tup)" if "p \<in> P" for p
    using assms(1) ok(2) that unfolding unrelated_def by blast
  have open1: "\<forall>p \<in> P. p \<noteq> [] \<and> open_path p (JObject acc1)"
    unfolding acc1 using Cons.prems(2) open_assoc_in[OF rel] by simp
  have lookup1: "lookup_in p (JObject acc1) = (if path_keys tup = p then (if diff > 0 then Some (path_leaf tup) else None) else lookup_in p (JObject acc))"
    if "p \<in> P" for p
  proof (cases "path_keys tup = p")
    case True
    with Cons.prems(2) that lookup_assoc_in[of p "JObject acc" diff "path_leaf tup"] show ?thesis unfolding acc1 by simp
  next
    case False
    with rel[OF that] lookup_assoc_in_other[of "path_keys tup" p diff "path_leaf tup" "JObject acc"] show ?thesis unfolding acc1 by simp
  qed
  have parent1: "has_parent p (JObject acc1)" if "p \<in> P" "path_keys tup = p \<or> has_parent p (JObject acc)" for p
  proof (cases "path_keys tup = p")
    case True
    with that(1) Cons.prems(2) show ?thesis unfolding acc1 True by (intro has_parent_assoc_in) auto
  next
    case False
    with that Cons.prems(2) ok(2) rel[OF that(1)] show ?thesis unfolding acc1 by (intro has_parent_other) auto
  qed
  have "\<forall>(tup, t, diff) \<in> set us. path_ok tup \<and> path_keys tup \<in> P" using Cons.prems(1) by simp
  from Cons.IH[OF this open1] obtain acc' where
    run': "merge_all g us acc1 = Inr (acc', map (\<lambda>(tup, _). take g (butlast (path_keys tup))) us)" and
    IH: "\<forall>p \<in> P. lookup_in p (JObject acc') = last_value p us (lookup_in p (JObject acc1)) \<and> open_path p (JObject acc') \<and>
      (p \<in> path_keys ` fst ` set us \<or> has_parent p (JObject acc1) \<longrightarrow> has_parent p (JObject acc'))" by blast
  show ?case using run run' IH lookup1 parent1 by (intro exI[of _ acc']) (auto simp: u)
qed simp

lemma lookup_in_append: "lookup_in (xs @ ys) e = (case lookup_in xs e of None \<Rightarrow> None | Some e' \<Rightarrow> lookup_in ys e')"
  by (induction xs e rule: lookup_in.induct) (auto split: option.splits)

lemma snapshot_at_lookup: "lookup_in ks e = Some j \<Longrightarrow> snapshot_at ks e = Inr j"
  by (induction ks e rule: lookup_in.induct) (auto split: option.splits)

lemma snapshot_lookup: "ks \<noteq> [] \<Longrightarrow> lookup_in ks (JObject m) = Some j \<Longrightarrow> snapshot_of m ks = Inr j"
  by (cases ks) (auto split: option.splits dest: snapshot_at_lookup)

lemma reported_lookup:
  assumes "has_parent p e"
  shows "\<exists>j. lookup_in (take g (butlast p)) e = Some j"
proof -
  from assms obtain m where "lookup_in (take g (butlast p) @ drop g (butlast p)) e = Some (JObject m)"
    unfolding has_parent_def append_take_drop_id by blast
  then show ?thesis unfolding lookup_in_append by (auto split: option.splits)
qed


definition sunk_state :: "u64 assoc_in_state" where
  "sunk_state = assoc_in_receive 5 [([Eid 1, Aid ''name'', String ''b''], 5, 1), ([Eid 1, Aid ''name'', String ''a''], 5, - 1)]
     (assoc_in_start (Some 1))"


end
