(* ===== verification/Documents.thy ===== *)
theory Documents
  imports Derivation Sinks
begin

text \<open>
  The second GraphQL plan, from \<^verbatim>\<open>src/src/plan/graphql_v2.rs\<close> and \<^verbatim>\<open>src/src/plan/pull_v2.rs\<close>, whose modules are commented
  out. Its levels pull whole paths, one stream per attribute, and its operator keeps a JSON document per root entity:
  the changes of a time are first collected in a state of that time, then merged into the documents, and the documents that
  changed are sent. Stashing the paths of a time until the time is complete belongs to the operators of timely; a round
  here is a complete time with all its paths. The order in which the changed documents are sent is that of a hash set.
\<close>

section \<open>Levels\<close>

datatype path_pull =
    PathAll "aid list"
  | PathLevel plan var "aid list" "aid list" bool

definition path_levels :: "path_pull level_ops" where
  "path_levels = \<lparr> mk_all = PathAll, mk_level = (\<lambda>p this attrs path. PathLevel p this attrs path False),
     no_variables = ''plan has no variables'' \<rparr>"

fun path_dependencies :: "path_pull \<Rightarrow> dependencies" where
  "path_dependencies (PathAll attrs) = deps_sum (map deps_attribute attrs)"
| "path_dependencies (PathLevel p _ attrs _ _) = deps_add (plan_dependencies p) (deps_sum (map deps_attribute attrs))"

fun path_implement ::
  "'t plan_env \<Rightarrow> ('t, 'r, 'pr) dom \<Rightarrow> 't local_arrangements \<Rightarrow> path_pull \<Rightarrow> ((tuple, 't) path_streams \<times> handle) run option" where
  "path_implement E dm locals (PathAll attrs) =
     Some (if attrs = [] then Inl ''assertion failed'' else all_streams (\<lambda>e v. [e, v]) (env_ops E) (env_advance_by E) dm attrs [] handle_empty)"
| "path_implement E dm locals (PathLevel p pull_variable attrs path_attributes cardinality_many) =
     (if attrs = [] then Some (Inl ''assertion failed'')
      else and_then (level_input E dm locals p pull_variable) (\<lambda>(e_path, h).
        level_streams (\<lambda>_ path v. path @ [v]) (env_ops E) (env_advance_by E) dm e_path path_attributes attrs [] h))"

section \<open>Queries\<close>

record graphql_query =
  doc_query :: string
  doc_paths :: "path_pull list"
  required_aids :: "aid list"

definition doc_selection_set_to_paths ::
  "selection list \<Rightarrow> var list \<Rightarrow> aid binding list \<Rightarrow> (string \<times> gq_value) list \<Rightarrow> aid list \<Rightarrow> u64 \<Rightarrow> (path_pull list \<times> u64) run" where
  "doc_selection_set_to_paths = selection_set_to_paths path_levels"

definition doc_into_paths :: "gq_definition list \<Rightarrow> var list \<Rightarrow> aid binding list \<Rightarrow> u64 \<Rightarrow> (path_pull list \<times> u64) run" where
  "doc_into_paths = document_into_paths path_levels"

definition doc_new :: "(string \<Rightarrow> gq_definition list option) \<Rightarrow> string \<Rightarrow> u64 \<Rightarrow> (graphql_query \<times> u64) run" where
  "doc_new parse_query query ctr =
     run_bind (graphql_new path_levels parse_query query ctr) (\<lambda>(g, ctr').
       Inr (\<lparr> doc_query = query, doc_paths = gq_paths g, required_aids = [] \<rparr>, ctr'))"

definition doc_with_plan :: "(string \<Rightarrow> gq_definition list option) \<Rightarrow> plan \<Rightarrow> string \<Rightarrow> u64 \<Rightarrow> (graphql_query \<times> u64) run" where
  "doc_with_plan parse_query root_plan query ctr =
     run_bind (graphql_with_plan path_levels parse_query root_plan query ctr) (\<lambda>(g, ctr').
       Inr (\<lparr> doc_query = query, doc_paths = gq_paths g, required_aids = [] \<rparr>, ctr'))"

definition doc_with_required_aids ::
  "(string \<Rightarrow> gq_definition list option) \<Rightarrow> string \<Rightarrow> aid list \<Rightarrow> u64 \<Rightarrow> (graphql_query \<times> u64) run" where
  "doc_with_required_aids parse_query query aids ctr =
     run_bind (doc_new parse_query query ctr) (\<lambda>(g, ctr'). Inr (g \<lparr> required_aids := aids \<rparr>, ctr'))"

definition doc_dependencies :: "graphql_query \<Rightarrow> dependencies" where
  "doc_dependencies g = deps_sum (map path_dependencies (doc_paths g))"

fun doc_streams ::
  "'t plan_env \<Rightarrow> ('t, 'r, 'pr) dom \<Rightarrow> path_pull list \<Rightarrow> (tuple, 't) path_streams \<Rightarrow> (tuple, 't) path_streams run option" where
  "doc_streams E dm [] streams = Some (Inr streams)"
| "doc_streams E dm (pull # paths) streams =
     (case path_implement E dm [] pull of
        None \<Rightarrow> None
      | Some (Inl msg) \<Rightarrow> Some (Inl msg)
      | Some (Inr (new, _)) \<Rightarrow> doc_streams E dm paths (hm_extend streams new))"

section \<open>Documents\<close>

datatype cardinality = One | Many

text \<open>The walk to a position of a document, which creates what is missing, and the change there.\<close>

fun pointer_mut :: "cardinality \<Rightarrow> string list \<Rightarrow> (json \<Rightarrow> json run) \<Rightarrow> json \<Rightarrow> json run" where
  "pointer_mut c [] change v = change v"
| "pointer_mut c (token # tokens) change (JObject m) =
     (let missing = (if c = One \<or> tokens \<noteq> [] then JObject [] else JArray []) in
      run_bind (pointer_mut c tokens change (case map_of m token of None \<Rightarrow> missing | Some e \<Rightarrow> e))
        (\<lambda>e. Inr (JObject (hm_insert token e m))))"
| "pointer_mut c (token # tokens) change v = Inl ''failed to acquire pointer''"

definition string_key :: "df_value \<Rightarrow> string run" where
  "string_key v = run_bind (value_into_json v) (\<lambda>j. case j of JString s \<Rightarrow> Inr s | _ \<Rightarrow> Inl ''called `Option::unwrap()` on a `None` value'')"

fun key_loop :: "df_value list \<Rightarrow> aid list \<Rightarrow> nat list \<Rightarrow> string list run" where
  "key_loop vs constants [] = Inr []"
| "key_loop vs constants (i # is) =
     (if i mod 2 = 0 then
        (case vs of
           [] \<Rightarrow> Inl ''called `Option::unwrap()` on a `None` value''
         | v # vs' \<Rightarrow> run_bind (string_key v) (\<lambda>s. run_bind (key_loop vs' constants is) (\<lambda>result. Inr (s # result))))
      else
        (case constants of
           [] \<Rightarrow> Inl ''index out of bounds''
         | a # as \<Rightarrow> run_bind (key_loop vs as is) (\<lambda>result. Inr (a # result))))"

definition interleave_keys :: "df_value list \<Rightarrow> aid list \<Rightarrow> string list run" where
  "interleave_keys vs constants =
     (if vs = [] \<or> constants = [] then run_map string_key vs
      else key_loop vs constants [0..<length vs + length constants])"

text \<open>One changed path: where its value goes, the state of its time with the value, and the key of the root.\<close>

definition path_pointer :: "aid list \<Rightarrow> tuple \<Rightarrow> string list run" where
  "path_pointer path_id tup =
     (if length path_id = 1 then interleave_keys tup path_id
      else if tup = [] then Inl ''malformed path; no root eid found''
      else interleave_keys [hd tup] [if last path_id = ''db__ident'' then path_id ! (length path_id - 2) else last path_id])"

fun apply_path :: "aid list \<Rightarrow> tuple \<times> 't \<times> int \<Rightarrow> json \<Rightarrow> (json \<times> string) run" where
  "apply_path path_id (tup, t, diff) state =
     (if path_id = [] then Inl ''malformed path_id; no aid found''
      else if tup = [] then Inl ''malformed path; no value found''
      else run_bind (value_into_json (last tup)) (\<lambda>value.
        run_bind (path_pointer path_id (butlast tup)) (\<lambda>pointer.
        run_bind (pointer_mut One pointer (\<lambda>_. Inr value) state) (\<lambda>state'.
        run_bind (vec_index pointer 0) (\<lambda>key. Inr (state', key))))))"

fun apply_paths :: "aid list \<Rightarrow> (tuple \<times> 't \<times> int) list \<Rightarrow> json \<Rightarrow> (json \<times> string list) run" where
  "apply_paths path_id [] state = Inr (state, [])"
| "apply_paths path_id (p # ps) state =
     run_bind (apply_path path_id p state) (\<lambda>(state1, key).
     run_bind (apply_paths path_id ps state1) (\<lambda>(state2, keys). Inr (state2, key # keys)))"

record 't doc_state =
  states :: "('t, json) hash_map"
  merged :: json_map
  change_keys :: "('t, string list) hash_map"

text \<open>The operator of one stream on a complete time, and the changed keys it sends to the last operator.\<close>

definition changes_step :: "aid list \<Rightarrow> 't \<Rightarrow> (tuple \<times> 't \<times> int) list \<Rightarrow> 't doc_state \<Rightarrow> 't doc_state run" where
  "changes_step path_id t paths st =
     (if paths = [] then Inr st
      else run_bind (apply_paths path_id paths (case map_of (states st) t of None \<Rightarrow> JObject [] | Some s \<Rightarrow> s)) (\<lambda>(state, keys).
        Inr (st \<lparr> states := hm_insert t state (states st),
          change_keys := hm_insert t (remdups ((case map_of (change_keys st) t of None \<Rightarrow> [] | Some ks \<Rightarrow> ks) @ keys)) (change_keys st) \<rparr>)))"

fun merge_entries :: "(string \<times> json) list \<Rightarrow> json_map \<Rightarrow> json_map run" where
  "merge_entries [] m = Inr m"
| "merge_entries ((eid, change) # entries) m =
     (case change of
        JObject diff_map \<Rightarrow>
          (case entry_of eid m of
             JObject entry \<Rightarrow> merge_entries entries (hm_insert eid (JObject (hm_extend entry diff_map)) m)
           | _ \<Rightarrow> Inl ''couldn't unwrap entry'')
      | _ \<Rightarrow> Inl ''wrong diff type'')"

fun merge_states :: "'t list \<Rightarrow> ('t, json) hash_map \<Rightarrow> json_map \<Rightarrow> (('t, json) hash_map \<times> json_map) run" where
  "merge_states [] sts m = Inr (sts, m)"
| "merge_states (t # ts) sts m =
     (case map_of sts t of
        None \<Rightarrow> Inl ''key not found''
      | Some (JObject entries) \<Rightarrow> run_bind (merge_entries entries m) (\<lambda>m'. merge_states ts (hm_remove t sts) m')
      | Some _ \<Rightarrow> Inl ''not an object'')"

text \<open>Documents without a required attribute are removed.\<close>

fun lacks_required :: "aid list \<Rightarrow> json \<Rightarrow> bool run" where
  "lacks_required [] doc = Inr False"
| "lacks_required (a # as) (JObject m) =
     run_bind (lacks_required as (JObject m)) (\<lambda>rest. Inr (map_of m a = None \<or> rest))"
| "lacks_required (a # as) doc = Inl ''called `Option::unwrap()` on a `None` value''"

fun excise :: "aid list \<Rightarrow> string list \<Rightarrow> json_map \<Rightarrow> json_map run" where
  "excise required [] m = Inr m"
| "excise required (key # keys) m =
     run_bind (excise required keys m) (\<lambda>m'.
       case map_of m key of
         None \<Rightarrow> Inr m'
       | Some doc \<Rightarrow> run_bind (lacks_required required doc) (\<lambda>lacks. Inr (if lacks then hm_remove key m' else m')))"

definition documents_notify ::
  "('t::linorder \<Rightarrow> time) \<Rightarrow> aid list \<Rightarrow> 't \<Rightarrow> 't doc_state \<Rightarrow> (df_output list \<times> 't doc_state) run" where
  "documents_notify into required t st =
     (let sorted_times = sort (filter (\<lambda>s. s \<le> t) (keys_of (states st))) in
      if sorted_times = [] then Inr ([], st)
      else run_bind (merge_states sorted_times (states st) (merged st)) (\<lambda>(sts, m).
        case map_of (change_keys st) t of
          None \<Rightarrow> Inr ([], st \<lparr> states := sts, merged := m \<rparr>)
        | Some keys \<Rightarrow> run_bind (excise required keys m) (\<lambda>m'.
            Inr (concat (map (\<lambda>key. case map_of m' key of None \<Rightarrow> [] | Some doc \<Rightarrow> [Json ''test'' doc (into t) 1]) keys),
              st \<lparr> states := sts, merged := m', change_keys := hm_remove t (change_keys st) \<rparr>))))"

fun changes_steps :: "'t \<Rightarrow> (aid list \<times> (tuple \<times> 't \<times> int) list) list \<Rightarrow> 't doc_state \<Rightarrow> 't doc_state run" where
  "changes_steps t [] st = Inr st"
| "changes_steps t ((path_id, paths) # streams) st = run_bind (changes_step path_id t paths st) (changes_steps t streams)"

text \<open>A complete time: the streams in the order of their paths, then the documents.\<close>

definition documents_round ::
  "('t::linorder \<Rightarrow> time) \<Rightarrow> aid list \<Rightarrow> 't \<Rightarrow> (aid list \<times> (tuple \<times> 't \<times> int) list) list \<Rightarrow> 't doc_state \<Rightarrow>
   (df_output list \<times> 't doc_state) run" where
  "documents_round into required t streams st =
     run_bind (changes_steps t (sort_key fst streams) st) (documents_notify into required t)"

section \<open>What a round does\<close>

text \<open>The documents as a store: for every root entity, its attributes.\<close>

type_synonym doc_store = "string \<rightharpoonup> (string \<rightharpoonup> json)"

fun entries_of :: "json \<Rightarrow> (string \<rightharpoonup> json) option" where
  "entries_of (JObject m) = Some (map_of m)"
| "entries_of _ = None"

definition view :: "json_map \<Rightarrow> doc_store" where
  "view m k = Option.bind (map_of m k) entries_of"

definition wf_docs :: "json_map \<Rightarrow> bool" where
  "wf_docs m \<longleftrightarrow> distinct (keys_of m) \<and> (\<forall>(k, doc) \<in> set m. \<exists>e. doc = JObject e \<and> distinct (keys_of e))"

fun write_doc :: "string \<times> string \<times> json \<Rightarrow> doc_store \<Rightarrow> doc_store" where
  "write_doc (k, a, v) s = s(k \<mapsto> (case s k of None \<Rightarrow> Map.empty | Some d \<Rightarrow> d)(a \<mapsto> v))"

definition overlay :: "doc_store \<Rightarrow> doc_store \<Rightarrow> doc_store" where
  "overlay s d = (\<lambda>k. case d k of None \<Rightarrow> s k | Some e \<Rightarrow> Some ((case s k of None \<Rightarrow> Map.empty | Some x \<Rightarrow> x) ++ e))"

lemma overlay_empty [simp]: "overlay s Map.empty = s"
  by (simp add: overlay_def)

lemma overlay_write: "overlay s (write_doc w d) = write_doc w (overlay s d)"
  by (cases w) (auto simp: overlay_def fun_eq_iff split: option.splits)

lemma overlay_writes: "overlay s (fold write_doc ws d) = fold write_doc ws (overlay s d)"
  by (induction ws arbitrary: d) (simp_all add: overlay_write)

lemma wf_docs_get: "wf_docs m \<Longrightarrow> map_of m k = Some doc \<Longrightarrow> \<exists>e. doc = JObject e \<and> distinct (keys_of e)"
  unfolding wf_docs_def by (blast dest: map_of_SomeD)

lemma wf_docs_insert: "wf_docs m \<Longrightarrow> distinct (keys_of e) \<Longrightarrow> wf_docs (hm_insert k (JObject e) m)"
  unfolding wf_docs_def by (auto simp: distinct_update dest!: hm_insert_set)

lemma wf_docs_entry:
  assumes "wf_docs m"
  obtains e where "entry_of k m = JObject e" "distinct (keys_of e)" "map_of e = (case view m k of None \<Rightarrow> Map.empty | Some d \<Rightarrow> d)"
proof (cases "map_of m k")
  case None
  then show ?thesis by (intro that[of "[]"]) (simp_all add: entry_of_def view_def)
next
  case (Some doc)
  with wf_docs_get[OF assms Some] show ?thesis by (auto intro!: that simp: entry_of_def view_def)
qed

lemma view_insert [simp]: "view (hm_insert k (JObject e) m) = (view m)(k \<mapsto> map_of e)"
  by (auto simp: view_def fun_eq_iff)

section \<open>The state of a time\<close>

definition field_of :: "aid list \<Rightarrow> aid" where
  "field_of path_id = (if length path_id \<noteq> 1 \<and> last path_id = ''db__ident'' then path_id ! (length path_id - 2) else last path_id)"

definition good_path :: "aid list \<Rightarrow> tuple \<Rightarrow> bool" where
  "good_path path_id tup \<longleftrightarrow> path_id \<noteq> [] \<and> 2 \<le> length tup \<and> (length path_id = 1 \<longrightarrow> length tup = 2) \<and>
     returns (string_key (hd tup)) \<and> returns (value_into_json (last tup))"

definition write_of :: "aid list \<Rightarrow> tuple \<Rightarrow> string \<times> string \<times> json" where
  "write_of path_id tup = (projr (string_key (hd tup)), field_of path_id, projr (value_into_json (last tup)))"

lemma path_pointer_good:
  assumes "good_path path_id tup"
  shows "path_pointer path_id (butlast tup) = Inr [fst (write_of path_id tup), field_of path_id]"
proof -
  from assms obtain s where s: "string_key (hd tup) = Inr s" by (auto simp: good_path_def returns_def)
  have pair: "interleave_keys [hd tup] [a] = Inr [s, a]" for a by (simp add: interleave_keys_def s upt_rec)
  show ?thesis
  proof (cases "length path_id = 1")
    case True
    with assms obtain x y a where "tup = [x, y]" "path_id = [a]" by (auto simp: good_path_def length_Suc_conv numeral_2_eq_2)
    with pair[of a] s show ?thesis by (simp add: path_pointer_def write_of_def field_of_def)
  next
    case False
    obtain x y zs where "tup = x # y # zs" using assms by (auto simp: good_path_def numeral_2_eq_2 Suc_le_length_iff)
    with pair False s show ?thesis by (simp add: path_pointer_def write_of_def field_of_def)
  qed
qed

lemma apply_path_good:
  assumes "good_path path_id tup" and "wf_docs m"
  shows "\<exists>m'. apply_path path_id (tup, t, d) (JObject m) = Inr (JObject m', fst (write_of path_id tup)) \<and> wf_docs m' \<and>
    view m' = write_doc (write_of path_id tup) (view m)"
proof -
  obtain k a v where w: "write_of path_id tup = (k, a, v)" by (metis prod_cases3)
  from assms(1) have v: "value_into_json (last tup) = Inr v" "path_id \<noteq> []" "tup \<noteq> []"
    using w by (auto simp: good_path_def returns_def write_of_def)
  obtain e where e: "entry_of k m = JObject e" "distinct (keys_of e)" "map_of e = (case view m k of None \<Rightarrow> Map.empty | Some d \<Rightarrow> d)"
    using wf_docs_entry[OF assms(2)] by blast
  let ?m = "hm_insert k (JObject (hm_insert a v e)) m"
  have "pointer_mut One [k, a] (\<lambda>_. Inr v) (JObject m) = Inr (JObject ?m)"
    using e(1) by (simp add: entry_of_def Let_def)
  then have "apply_path path_id (tup, t, d) (JObject m) = Inr (JObject ?m, k)"
    using path_pointer_good[OF assms(1)] v w by (simp add: vec_index_def write_of_def)
  moreover have "wf_docs ?m" using assms(2) e(2) by (intro wf_docs_insert) (simp_all add: distinct_update)
  ultimately show ?thesis using e(3) w by auto
qed

definition writes_of :: "aid list \<Rightarrow> (tuple \<times> 't \<times> int) list \<Rightarrow> (string \<times> string \<times> json) list" where
  "writes_of path_id paths = map (\<lambda>(tup, _, _). write_of path_id tup) paths"

lemma apply_paths_good:
  assumes "\<forall>(tup, _, _) \<in> set paths. good_path path_id tup" and "wf_docs m"
  shows "\<exists>m'. apply_paths path_id paths (JObject m) = Inr (JObject m', map fst (writes_of path_id paths)) \<and> wf_docs m' \<and>
    view m' = fold write_doc (writes_of path_id paths) (view m)"
  using assms
proof (induction paths arbitrary: m)
  case (Cons p paths)
  obtain tup t d where p: "p = (tup, t, d)" by (metis prod_cases3)
  from Cons.prems apply_path_good[of path_id tup m t d] obtain m1 where
    m1: "apply_path path_id (tup, t, d) (JObject m) = Inr (JObject m1, fst (write_of path_id tup))" "wf_docs m1"
      "view m1 = write_doc (write_of path_id tup) (view m)" by (auto simp: p)
  from Cons.IH[OF _ m1(2)] Cons.prems(1) obtain m2 where
    "apply_paths path_id paths (JObject m1) = Inr (JObject m2, map fst (writes_of path_id paths))" "wf_docs m2"
      "view m2 = fold write_doc (writes_of path_id paths) (view m1)" by auto
  with m1 show ?case by (auto simp: p writes_of_def)
qed (simp add: writes_of_def)

text \<open>Between rounds nothing is pending; during the round of a time there is at most the state of that time, which holds the
  writes so far, and the keys they changed.\<close>

definition collected :: "'t \<Rightarrow> (string \<times> string \<times> json) list \<Rightarrow> 't doc_state \<Rightarrow> bool" where
  "collected t ws st \<longleftrightarrow>
     (if ws = [] then states st = [] \<and> change_keys st = []
      else (\<exists>m ks. states st = [(t, JObject m)] \<and> wf_docs m \<and> view m = fold write_doc ws Map.empty \<and>
        change_keys st = [(t, ks)] \<and> distinct ks \<and> set ks = fst ` set ws))"

lemma changes_step_collects:
  assumes "collected t ws st" and "\<forall>(tup, _, _) \<in> set paths. good_path path_id tup"
  shows "\<exists>st'. changes_step path_id t paths st = Inr st' \<and> collected t (ws @ writes_of path_id paths) st' \<and> merged st' = merged st"
proof (cases "paths = []")
  case True
  then show ?thesis using assms(1) by (simp add: changes_step_def writes_of_def)
next
  case False
  then have ne: "writes_of path_id paths \<noteq> []" by (simp add: writes_of_def)
  have "\<exists>m. (case map_of (states st) t of None \<Rightarrow> JObject [] | Some s \<Rightarrow> s) = JObject m \<and> wf_docs m \<and> view m = fold write_doc ws Map.empty"
    using assms(1) by (auto simp: collected_def wf_docs_def view_def fun_eq_iff split: if_splits)
  then obtain m where m: "(case map_of (states st) t of None \<Rightarrow> JObject [] | Some s \<Rightarrow> s) = JObject m" "wf_docs m"
    "view m = fold write_doc ws Map.empty" by blast
  from apply_paths_good[OF assms(2) m(2)] obtain m' where
    m': "apply_paths path_id paths (JObject m) = Inr (JObject m', map fst (writes_of path_id paths))" "wf_docs m'"
      "view m' = fold write_doc (writes_of path_id paths) (view m)" by blast
  let ?ks = "case map_of (change_keys st) t of None \<Rightarrow> [] | Some ks \<Rightarrow> ks"
  have ks: "set ?ks = fst ` set ws" "hm_insert t (JObject m') (states st) = [(t, JObject m')]" "hm_insert t ks (change_keys st) = [(t, ks)]" for ks
    using assms(1) by (cases "ws = []"; clarsimp simp: collected_def)+
  show ?thesis using False m' m(3) ne ks by (simp add: changes_step_def m(1) collected_def image_Un)
qed

definition round_writes :: "(aid list \<times> (tuple \<times> 't \<times> int) list) list \<Rightarrow> (string \<times> string \<times> json) list" where
  "round_writes streams = concat (map (\<lambda>(path_id, paths). writes_of path_id paths) (sort_key fst streams))"

lemma changes_steps_collect:
  assumes "collected t ws st" and "\<forall>(path_id, paths) \<in> set streams. \<forall>(tup, _, _) \<in> set paths. good_path path_id tup"
  shows "\<exists>st'. changes_steps t streams st = Inr st' \<and>
    collected t (ws @ concat (map (\<lambda>(path_id, paths). writes_of path_id paths) streams)) st' \<and> merged st' = merged st"
  using assms
proof (induction streams arbitrary: ws st)
  case (Cons s streams)
  obtain path_id paths where s: "s = (path_id, paths)" by (cases s)
  from Cons.prems changes_step_collects[of t ws st paths path_id] obtain st1 where
    st1: "changes_step path_id t paths st = Inr st1" "collected t (ws @ writes_of path_id paths) st1" "merged st1 = merged st"
    by (auto simp: s)
  from Cons.IH[OF st1(2)] Cons.prems(2) obtain st2 where "changes_steps t streams st1 = Inr st2"
    "collected t ((ws @ writes_of path_id paths) @ concat (map (\<lambda>(path_id, paths). writes_of path_id paths) streams)) st2"
    "merged st2 = merged st1" by auto
  with st1 show ?case by (simp add: s)
qed simp

section \<open>Merging\<close>

lemma merge_entries_good:
  assumes "wf_docs entries" and "wf_docs m"
  shows "\<exists>m'. merge_entries entries m = Inr m' \<and> wf_docs m' \<and> view m' = overlay (view m) (view entries)"
  using assms
proof (induction entries arbitrary: m)
  case Nil
  then show ?case by (simp add: overlay_def view_def fun_eq_iff)
next
  case (Cons x entries)
  from Cons.prems(1) obtain k d where x: "x = (k, JObject d)" "distinct (keys_of d)" "k \<notin> set (keys_of entries)" "wf_docs entries"
    by (cases x) (auto simp: wf_docs_def)
  obtain e where e: "entry_of k m = JObject e" "distinct (keys_of e)" "map_of e = (case view m k of None \<Rightarrow> Map.empty | Some d \<Rightarrow> d)"
    using wf_docs_entry[OF Cons.prems(2)] by blast
  let ?m = "hm_insert k (JObject (hm_extend e d)) m"
  have ext: "distinct (keys_of (hm_extend e d))" "map_of (hm_extend e d) = map_of e ++ map_of d"
    using e(2) x(2) by (simp_all add: hm_extend_distinct hm_extend_get)
  then have "wf_docs ?m" using Cons.prems(2) by (intro wf_docs_insert)
  from Cons.IH[OF x(4) this] obtain m' where m': "merge_entries entries ?m = Inr m'" "wf_docs m'"
    "view m' = overlay (view ?m) (view entries)" by blast
  have "map_of entries k = None" using x(3) by (simp add: map_of_eq_None_iff)
  then have "overlay (view ?m) (view entries) = overlay (view m) (view (x # entries))"
    using ext(2) e(3) by (auto simp: overlay_def view_def x(1) fun_eq_iff split: option.splits)
  with m' e(1) show ?case by (auto simp: x(1))
qed

lemma merge_collected:
  assumes "collected t ws st" and "wf_docs (merged st)" and "ws \<noteq> []"
  shows "\<exists>m ks. sort (filter (\<lambda>s. s \<le> t) (keys_of (states st))) = [t] \<and> merge_states [t] (states st) (merged st) = Inr ([], m) \<and> wf_docs m \<and>
    view m = fold write_doc ws (view (merged st)) \<and> change_keys st = [(t, ks)] \<and> distinct ks \<and> set ks = fst ` set ws"
proof -
  from assms(1,3) obtain entries ks where c: "states st = [(t, JObject entries)]" "wf_docs entries" "view entries = fold write_doc ws Map.empty"
    "change_keys st = [(t, ks)]" "distinct ks" "set ks = fst ` set ws" by (auto simp: collected_def)
  from merge_entries_good[OF c(2) assms(2)] obtain m where m: "merge_entries entries (merged st) = Inr m" "wf_docs m"
    "view m = overlay (view (merged st)) (view entries)" by blast
  then show ?thesis using c by (auto simp: overlay_writes)
qed

lemma excise_nothing [simp]: "excise [] keys m = Inr m"
  by (induction keys) (auto split: option.splits)

lemma view_dom: "wf_docs m \<Longrightarrow> view m k = Some d \<Longrightarrow> \<exists>e. map_of m k = Some (JObject e) \<and> map_of e = d"
  using wf_docs_get[of m k] by (cases "map_of m k") (auto simp: view_def)

lemma writes_dom: "k \<in> fst ` set ws \<Longrightarrow> fold write_doc ws s k \<noteq> None"
proof (induction ws arbitrary: s)
  case (Cons w ws)
  have "fold write_doc ws s k \<noteq> None" if "s k \<noteq> None" for s
    using that by (induction ws arbitrary: s) auto
  then show ?case using Cons by (cases w) auto
qed simp


definition doc_start :: "u64 doc_state" where
  "doc_start = \<lparr> states = [], merged = [], change_keys = [] \<rparr>"

definition doc_changes :: "(aid list \<times> (tuple \<times> u64 \<times> int) list) list" where
  "doc_changes = [([''name''], [([Eid 7, String ''Ada''], 3, 1)]), ([''friend'', ''age''], [([Eid 7, Eid 8, Number 36], 3, 1)])]"


text \<open>A document is forgotten when one of its required attributes is missing. An entity that gets one required attribute at one time and
  the other at a later time is never sent: its document is removed in the first round, so in the second it lacks the first.\<close>

theorem required_attributes_forgotten:
  assumes "a \<noteq> b" and "value_into_json v = Inr x" and "value_into_json w = Inr y"
  shows "\<exists>st1 st2. documents_round into [a, b] t [([a], [([Eid e, v], t, 1)])] \<lparr> states = [], merged = [], change_keys = [] \<rparr> = Inr ([], st1) \<and>
    documents_round into [a, b] t' [([b], [([Eid e, w], t', 1)])] st1 = Inr ([], st2) \<and> merged st2 = []"
  using assms by (simp add: documents_round_def changes_step_def documents_notify_def path_pointer_def interleave_keys_def string_key_def
      vec_index_def upt_rec entry_of_def Let_def hm_extend_def)

theorem required_attributes_forgotten_witness:
  "\<exists>st1 st2. documents_round TxId [''name'', ''age''] 1 [([''name''], [([Eid 7, String ''Ada''], 1, 1)])] doc_start = Inr ([], st1) \<and>
    documents_round TxId [''name'', ''age''] 2 [([''age''], [([Eid 7, Number 36], 2, 1)])] st1 = Inr ([], st2) \<and> merged st2 = []"
  using required_attributes_forgotten[of "''name''" "''age''" "String ''Ada''" "JString ''Ada''" "Number 36" "JNumber 36" TxId 1 7 2]
  by (simp add: doc_start_def)

section \<open>What a level pulls\<close>

lemma level_stream_total:
  assumes laws: "ops_laws (total_ops b) ops" and inj: "\<And>p v q w. keep (f p) p v = keep (f q) q w \<Longrightarrow> p = q \<and> v = w"
    and e_path: "fst ` set e_path \<subseteq> {(e, p). e = f p}"
  shows "total_at (total_ops b) (leave (coll_map (\<lambda>(e, path, v). keep e path v) (join_paths ops e_path e_v))) (keep (f p) p v) t =
    total_at (nested_ops (total_ops b)) e_path (f p, p) (t, - 1) * total_at (nested_ops (total_ops b)) e_v (f p, v) (t, - 1)"
proof -
  note law = ops_lawsD(6)[OF laws]
  let ?g = "\<lambda>(e, path, v). keep e path v"
  have rec: "fst ` set (join_paths ops e_path e_v) \<subseteq> {(e, p, v). e = f p}" using join_lawD(2)[OF law, of e_path e_v] e_path by blast
  have "inj_on ?g {(e, p, v). e = f p}" by (rule inj_onI) (auto dest: inj)
  then have "inj_on ?g (insert (f p, p, v) (fst ` set (join_paths ops e_path e_v)))" by (rule inj_on_subset) (use rec in auto)
  from total_map_inj[OF this] show ?thesis unfolding total_leave_iteration by (simp add: join_lawD(1)[OF law])
qed

lemma level_streams_total:
  assumes laws: "ops_laws (total_ops b) ops" and adv: "advance_law (total_ops b) advance_by"
    and inj: "\<And>p v q w. keep (f p) p v = keep (f q) q w \<Longrightarrow> p = q \<and> v = w"
    and e_path: "fst ` set e_path \<subseteq> {(e, p). e = f p}" and pas: "pas \<noteq> []"
    and attrs: "\<And>a. a \<in> set attrs \<Longrightarrow> forward_propose_of a dm \<noteq> None"
  shows "\<exists>streams' h'. level_streams keep ops advance_by dm e_path pas attrs streams h = Inr (streams', h') \<and>
    (\<forall>k. k \<notin> (\<lambda>a. pas @ [a]) ` set attrs \<longrightarrow> map_of streams' k = map_of streams k) \<and>
    (\<forall>a \<in> set attrs. \<exists>c. map_of streams' (pas @ [a]) = Some c \<and>
       (\<forall>p v t. beyond (total_ops b) dm a t \<longrightarrow> total_at (total_ops b) c (keep (f p) p v) t =
          total_at (nested_ops (total_ops b)) e_path (f p, p) (t, - 1) * attribute_at (total_ops b) (import_trace ops) dm a (f p, v) t))"
  using attrs
proof (induction attrs arbitrary: streams h)
  case (Cons a attrs)
  from pull_index_total[OF adv, of a dm ops] Cons.prems obtain e_v where
    ev: "pull_index ops advance_by dm a = Inr (e_v, Propose a)"
      "\<And>x t. beyond (total_ops b) dm a (fst t) \<Longrightarrow> total_at (nested_ops (total_ops b)) e_v x t = attribute_at (total_ops b) (import_trace ops) dm a x (fst t)"
    by auto
  define c where "c = leave (coll_map (\<lambda>(e, path, v). keep e path v) (join_paths ops e_path e_v))"
  have c: "total_at (total_ops b) c (keep (f p) p v) t =
      total_at (nested_ops (total_ops b)) e_path (f p, p) (t, - 1) * attribute_at (total_ops b) (import_trace ops) dm a (f p, v) t"
    if "beyond (total_ops b) dm a t" for p v t
    using level_stream_total[where keep = keep and f = f and e_v = e_v and p = p and v = v and t = t, OF laws inj e_path] ev(2)[of "(t, - 1)"] that by (simp add: c_def)
  from Cons.IH[of "hm_insert (pas @ [a]) c streams" "add_button h (Propose a)"] Cons.prems obtain streams' h' where
    IH: "level_streams keep ops advance_by dm e_path pas attrs (hm_insert (pas @ [a]) c streams) (add_button h (Propose a)) = Inr (streams', h')"
      "\<forall>k. k \<notin> (\<lambda>a. pas @ [a]) ` set attrs \<longrightarrow> map_of streams' k = map_of (hm_insert (pas @ [a]) c streams) k"
      "\<forall>a \<in> set attrs. \<exists>c. map_of streams' (pas @ [a]) = Some c \<and>
       (\<forall>p v t. beyond (total_ops b) dm a t \<longrightarrow> total_at (total_ops b) c (keep (f p) p v) t =
          total_at (nested_ops (total_ops b)) e_path (f p, p) (t, - 1) * attribute_at (total_ops b) (import_trace ops) dm a (f p, v) t)"
    by (metis list.set_intros(2))
  have run: "level_streams keep ops advance_by dm e_path pas (a # attrs) streams h = Inr (streams', h')"
    using ev(1) IH(1) pas by (simp add: c_def)
  have "map_of streams' (pas @ [a]) = Some c" if "a \<notin> set attrs"
    using IH(2)[rule_format, of "pas @ [a]"] that by (simp add: image_iff)
  then have "\<exists>c. map_of streams' (pas @ [x]) = Some c \<and>
       (\<forall>p v t. beyond (total_ops b) dm x t \<longrightarrow> total_at (total_ops b) c (keep (f p) p v) t =
          total_at (nested_ops (total_ops b)) e_path (f p, p) (t, - 1) * attribute_at (total_ops b) (import_trace ops) dm x (f p, v) t)"
    if "x \<in> set (a # attrs)" for x using that IH(3) c by (cases "x \<in> set attrs") auto
  moreover have "map_of streams' k = map_of streams k" if "k \<notin> (\<lambda>a. pas @ [a]) ` set (a # attrs)" for k
    using IH(2) that by auto
  ultimately show ?case using run by blast
qed simp

text \<open>A level pulls, for every path of its input and every attribute, the path with each value the attribute has for the entity of
  the pulled variable, with the product of the multiplicities, in the stream of the attribute.\<close>

theorem path_level_exact:
  assumes lat: "env_lattice E = total_ops b" and laws: "ops_laws (env_lattice E) (env_ops E)" and adv: "advance_law (env_lattice E) (env_advance_by E)"
    and input: "plan_implement E dm locals plan = Some (Inr (input, h))" and ok: "impl_ok (import_trace (env_ops E)) dm input"
    and var: "pull_variable \<in> set (impl_variables input)"
    and attrs: "attrs \<noteq> []" "\<And>a. a \<in> set attrs \<Longrightarrow> forward_propose_of a dm \<noteq> None" and pas: "pas \<noteq> []"
  shows "\<exists>streams h'. path_implement E dm locals (PathLevel plan pull_variable attrs pas many) = Some (Inr (streams, h')) \<and>
    (\<forall>a \<in> set attrs. \<exists>c. map_of streams (pas @ [a]) = Some c \<and>
       (\<forall>\<sigma> v t. beyond (env_lattice E) dm a t \<longrightarrow> total_at (env_lattice E) c (map \<sigma> (impl_variables input) @ [v]) t =
          total_at (nested_ops (env_lattice E)) (impl_rows (import_trace (env_ops E)) dm input) (map \<sigma> (impl_variables input)) (t, - 1) *
          attribute_at (env_lattice E) (import_trace (env_ops E)) dm a (\<sigma> pull_variable, v) t))"
proof -
  let ?vars = "impl_variables input" and ?rows = "impl_rows (import_trace (env_ops E)) dm input"
  let ?f = "\<lambda>p. value_of ?vars p pull_variable"
  let ?e_path = "coll_map (\<lambda>p. (?f p, p)) ?rows"
  obtain hp where tuples: "impl_tuples (import_trace (env_ops E)) dm input = Inr (?rows, hp)" using impl_tuples_rows[OF ok] by blast
  obtain off where off: "impl_binds input pull_variable = Some off" "\<And>p. length p = length ?vars \<Longrightarrow> vec_index p off = Inr (?f p)"
    using vec_binds_value[OF var] var unfolding impl_binds_variables vec_index_def by (metis Ex_list_of_length option.inject)
  have wf: "wf_tuples ?vars ?rows" using ok by (simp add: impl_ok_def)
  have "coll_map_run (\<lambda>t. run_bind (vec_index t off) (\<lambda>e. Inr (e, t))) ?rows = Inr ?e_path"
    using wf off(2) by (intro coll_map_run_total) (auto simp: wf_tuples_def list_all_iff)
  then have li: "level_input E dm locals plan pull_variable = Some (Inr (?e_path, merge_with h hp))"
    using input tuples off(1) by (simp add: level_input_def and_then_def expect_def)
  have rec: "fst ` set ?e_path \<subseteq> {(e, p). e = ?f p}" by auto
  have tot: "total_at N ?e_path (?f p, p) t = total_at N ?rows p t" for N p t
    by (rule total_map_inj[OF inj_on_subset[of _ UNIV]]) (auto simp: inj_def)
  from level_streams_total[where keep = "\<lambda>_ path v. path @ [v]" and f = ?f and streams = "[]" and h = "merge_with h hp" and attrs = attrs,
      OF laws[unfolded lat] adv[unfolded lat] _ rec pas attrs(2)]
  obtain streams h' where run: "level_streams (\<lambda>_ path v. path @ [v]) (env_ops E) (env_advance_by E) dm ?e_path pas attrs [] (merge_with h hp) = Inr (streams, h')"
    and streams: "\<forall>a \<in> set attrs. \<exists>c. map_of streams (pas @ [a]) = Some c \<and>
       (\<forall>p v t. beyond (total_ops b) dm a t \<longrightarrow> total_at (total_ops b) c (p @ [v]) t =
          total_at (nested_ops (total_ops b)) ?e_path (?f p, p) (t, - 1) * attribute_at (total_ops b) (import_trace (env_ops E)) dm a (?f p, v) t)"
    by auto
  have impl: "path_implement E dm locals (PathLevel plan pull_variable attrs pas many) = Some (Inr (streams, h'))"
    using attrs(1) li run by (simp add: and_then_def)
  have "\<exists>c. map_of streams (pas @ [a]) = Some c \<and> (\<forall>\<sigma> v t. beyond (total_ops b) dm a t \<longrightarrow>
      total_at (total_ops b) c (map \<sigma> ?vars @ [v]) t = total_at (nested_ops (total_ops b)) ?rows (map \<sigma> ?vars) (t, - 1) *
        attribute_at (total_ops b) (import_trace (env_ops E)) dm a (\<sigma> pull_variable, v) t)" if "a \<in> set attrs" for a
    using streams[unfolded tot, rule_format, OF that] value_of_map[OF var] by metis
  with impl show ?thesis unfolding lat by blast
qed

end
