(* ===== verification/Sources.thy ===== *)
theory Sources
  imports Server_State
begin

text \<open>
  The CSV source of \<^verbatim>\<open>src/src/sources/csv_file.rs\<close> (feature \<^verbatim>\<open>csv-source\<close>). Reading the file is up to an external crate: the
  records it yields, or the failure to read one, are the argument, and the reader is done once it was asked for a
  record past the last. An activation reads records until its fuel is used up; the clock is read at its start and at
  its end.
\<close>

section \<open>Numbers\<close>

text \<open>\<^verbatim>\<open>str::parse\<close> of the integer types.\<close>

definition digit_of :: "char \<Rightarrow> nat option" where
  "digit_of c = (let n = of_char c :: nat in if 48 \<le> n \<and> n \<le> 57 then Some (n - 48) else None)"

fun parse_digits :: "nat \<Rightarrow> string \<Rightarrow> nat option" where
  "parse_digits n [] = Some n"
| "parse_digits n (c # cs) = (case digit_of c of None \<Rightarrow> None | Some d \<Rightarrow> parse_digits (10 * n + d) cs)"

definition parse_nat :: "string \<Rightarrow> nat option" where
  "parse_nat s = (if s = [] then None else parse_digits 0 s)"

definition parse_u64 :: "string \<Rightarrow> u64 option" where
  "parse_u64 s =
     (case parse_nat (if s \<noteq> [] \<and> hd s = CHR ''+'' then tl s else s) of
        None \<Rightarrow> None
      | Some n \<Rightarrow> if n < 2 ^ 64 then Some (of_nat n) else None)"

definition parse_i64 :: "string \<Rightarrow> i64 option" where
  "parse_i64 s =
     (if s \<noteq> [] \<and> hd s = CHR ''-''
      then (case parse_nat (tl s) of None \<Rightarrow> None | Some n \<Rightarrow> if n \<le> 2 ^ 63 then Some (- of_nat n) else None)
      else (case parse_nat (if s \<noteq> [] \<and> hd s = CHR ''+'' then tl s else s) of
          None \<Rightarrow> None
        | Some n \<Rightarrow> if n < 2 ^ 63 then Some (of_nat n) else None))"

section \<open>The source\<close>

record csv_file =
  csv_path :: string
  has_headers :: bool
  delimiter :: "8 word"
  comment :: "8 word option"
  flexible :: bool
  eid_offset :: usize
  timestamp_offset :: "usize option"
  schema :: "(aid \<times> usize \<times> df_value) list"
  csv_fuel :: "usize option"
  csv_interval :: "duration option"

type_synonym csv_record = "string list"

fun csv_value :: "csv_record \<Rightarrow> usize \<times> df_value \<Rightarrow> df_value run" where
  "csv_value record (offset, String _) = run_bind (vec_index record offset) (\<lambda>s. Inr (String s))"
| "csv_value record (offset, Number _) =
     run_bind (vec_index record offset) (\<lambda>s. run_bind (expect ''not a number'' (parse_i64 s)) (\<lambda>n. Inr (Number n)))"
| "csv_value record (offset, Eid _) =
     run_bind (vec_index record offset) (\<lambda>s. run_bind (expect ''not a eid'' (parse_u64 s)) (\<lambda>n. Inr (Eid n)))"
| "csv_value record (offset, _) = Inl ''Only String, Number, and Eid are supported at the moment.''"

definition csv_tuples :: "csv_file \<Rightarrow> csv_record \<Rightarrow> (df_value \<times> df_value) list run" where
  "csv_tuples cfg record =
     run_bind (vec_index record (eid_offset cfg)) (\<lambda>s.
     run_bind (expect ''not a eid'' (parse_u64 s)) (\<lambda>eid.
       run_map (\<lambda>(_, column). run_bind (csv_value record column) (\<lambda>v. Inr (Eid eid, v))) (schema cfg)))"

text \<open>The reading loop: the tuples of each record read, the records left and whether the reader is done.\<close>

fun csv_read ::
  "csv_file \<Rightarrow> int \<Rightarrow> (string + csv_record) list \<Rightarrow>
   ((df_value \<times> df_value) list list \<times> (string + csv_record) list \<times> bool) run" where
  "csv_read cfg fuel [] = Inr ([], [], True)"
| "csv_read cfg fuel (r # rs) =
     (case r of
        Inl _ \<Rightarrow> Inl ''read error''
      | Inr record \<Rightarrow>
          run_bind (csv_tuples cfg record) (\<lambda>tuples.
          if fuel - 1 \<le> 0 then Inr ([tuples], rs, False)
          else run_bind (csv_read cfg (fuel - 1) rs) (\<lambda>(rows, rest, eof). Inr (tuples # rows, rest, eof))))"

record 't csv_state =
  unread :: "(string + csv_record) list"
  is_done :: bool
  capability :: "'t option"
  outputs :: "(df_value \<times> df_value, 't) collection list"
  reactivations :: nat

definition csv_start :: "csv_file \<Rightarrow> (string + csv_record) list \<Rightarrow> 't \<Rightarrow> 't csv_state" where
  "csv_start cfg records minimum =
     \<lparr> unread = records, is_done = False, capability = Some minimum, outputs = map (\<lambda>_. []) (schema cfg), reactivations = 0 \<rparr>"

definition csv_give :: "'t \<Rightarrow> (df_value \<times> df_value) list list \<Rightarrow> (df_value \<times> df_value, 't) collection list \<Rightarrow> (df_value \<times> df_value, 't) collection list" where
  "csv_give time rows outs = map (\<lambda>(idx, out). out @ map (\<lambda>row. (row ! idx, time, 1)) rows) (enumerate 0 outs)"

definition total_fuel :: "csv_file \<Rightarrow> int" where
  "total_fuel cfg = sint (of_nat (case csv_fuel cfg of None \<Rightarrow> 256 | Some f \<Rightarrow> f) :: i64)"

text \<open>One activation. Only the operator's scheduling interval is left to the scheduler.\<close>

definition csv_activate :: "csv_file \<Rightarrow> ('t::linorder \<times> 't) \<Rightarrow> 't csv_state \<Rightarrow> 't csv_state run" where
  "csv_activate cfg clock st =
     (if is_done st then Inr (st \<lparr> capability := None \<rparr>)
      else run_bind (csv_read cfg (total_fuel cfg) (unread st)) (\<lambda>(rows, rest, eof).
        let st1 = st \<lparr> unread := rest, is_done := eof, outputs := csv_give (fst clock) rows (outputs st) \<rparr> in
        if eof then Inr (st1 \<lparr> capability := None \<rparr>)
        else Inr (st1 \<lparr> capability := Some (snd clock), reactivations := Suc (reactivations st1) \<rparr>)))"

definition csv_streams ::
  "csv_file \<Rightarrow> (df_value \<times> df_value, 't) collection list \<Rightarrow> (aid \<times> attribute_config \<times> (df_value \<times> df_value, 't) collection) list" where
  "csv_streams cfg streams = map (\<lambda>((a, _), stream). (a, real_time Distinct, stream)) (zip (schema cfg) streams)"

fun csv_run :: "csv_file \<Rightarrow> ('t::linorder \<times> 't) list \<Rightarrow> 't csv_state \<Rightarrow> 't csv_state run" where
  "csv_run cfg [] st = Inr st"
| "csv_run cfg (clock # clocks) st = run_bind (csv_activate cfg clock st) (csv_run cfg clocks)"

section \<open>Properties\<close>

definition csv_row :: "csv_file \<Rightarrow> string + csv_record \<Rightarrow> (df_value \<times> df_value) list" where
  "csv_row cfg r = projr (csv_tuples cfg (projr r))"

definition csv_good :: "csv_file \<Rightarrow> string + csv_record \<Rightarrow> bool" where
  "csv_good cfg r \<longleftrightarrow> \<not> isl r \<and> \<not> isl (csv_tuples cfg (projr r))"

definition batch_size :: "csv_file \<Rightarrow> nat" where
  "batch_size cfg = nat (max 1 (total_fuel cfg))"

lemma csv_read_batch:
  "list_all (csv_good cfg) rs \<Longrightarrow> F = nat (max 1 fuel) \<Longrightarrow>
     csv_read cfg fuel rs = Inr (map (csv_row cfg) (take F rs), drop F rs, length rs < F)"
proof (induction cfg fuel rs arbitrary: F rule: csv_read.induct)
  case (2 cfg fuel r rs)
  from "2.prems"(1) obtain fields where r: "r = Inr fields" by (cases r) (auto simp: csv_good_def)
  with "2.prems"(1) obtain tuples where tuples: "csv_tuples cfg fields = Inr tuples"
    by (cases "csv_tuples cfg fields") (auto simp: csv_good_def)
  have row: "csv_row cfg r = tuples" by (simp add: csv_row_def r tuples)
  show ?case
  proof (cases "fuel - 1 \<le> 0")
    case True
    then show ?thesis using row tuples "2.prems"(2) by (simp add: r max_def)
  next
    case False
    then have F: "F = Suc (nat (max 1 (fuel - 1)))" using "2.prems"(2) by (simp add: max_def)
    from False "2.IH"[OF r False _ refl] "2.prems"(1) show ?thesis using row tuples by (simp add: r F)
  qed
qed simp

lemma csv_give_length [simp]: "length (csv_give t rows outs) = length outs"
  by (simp add: csv_give_def)

lemma csv_give_nth: "idx < length outs \<Longrightarrow> csv_give t rows outs ! idx = outs ! idx @ map (\<lambda>row. (row ! idx, t, 1)) rows"
  by (simp add: csv_give_def nth_enumerate_eq)

lemma csv_run_done: "is_done st \<Longrightarrow> capability st = None \<Longrightarrow> csv_run cfg clocks st = Inr st"
proof (induction clocks)
  case (Cons c clocks)
  have "csv_activate cfg c st = Inr (st \<lparr> capability := None \<rparr>)" using Cons.prems(1) by (simp add: csv_activate_def)
  also have "st \<lparr> capability := None \<rparr> = st" using Cons.prems(2) by (cases st) simp
  finally show ?case using Cons by simp
qed simp

definition rows_at :: "csv_file \<Rightarrow> nat \<Rightarrow> (string + csv_record) list \<Rightarrow> 't list \<Rightarrow> (df_value \<times> df_value, 't) collection" where
  "rows_at cfg idx rs ts = map2 (\<lambda>r t. (csv_row cfg r ! idx, t, 1)) rs ts"

lemma rows_at_batch:
  "rows_at cfg idx rs (replicate (length (take F rs)) t @ ts) =
     map (\<lambda>row. (row ! idx, t, 1)) (map (csv_row cfg) (take F rs)) @ rows_at cfg idx (drop F rs) ts"
proof -
  have "zip rs (replicate (length (take F rs)) t @ ts) =
      zip (take F rs) (replicate (length (take F rs)) t) @ zip (drop F rs) ts"
    by (metis append_take_drop_id zip_append length_replicate)
  moreover have rep: "map (\<lambda>(r, t). (csv_row cfg r ! idx, t, 1)) (zip us (replicate (length us) t)) = map (\<lambda>row. (row ! idx, t, 1)) (map (csv_row cfg) us)" for us
    by (induction us) auto
  ultimately show ?thesis using rep[of "take F rs"] by (simp add: rows_at_def del: length_take)
qed

lemma csv_run_complete:
  assumes "list_all (csv_good cfg) (unread st)" and "\<not> is_done st" and "length (unread st) div batch_size cfg < length clocks"
    and "sorted (map fst clocks)"
  shows "\<exists>st' ts. csv_run cfg clocks st = Inr st' \<and> is_done st' \<and> capability st' = None \<and> length (outputs st') = length (outputs st) \<and>
    length ts = length (unread st) \<and> sorted ts \<and> set ts \<subseteq> set (map fst clocks) \<and>
    (\<forall>idx < length (outputs st). outputs st' ! idx = outputs st ! idx @ rows_at cfg idx (unread st) ts)"
  using assms
proof (induction clocks arbitrary: st)
  case (Cons c clocks)
  let ?F = "batch_size cfg" and ?rs = "unread st"
  let ?rows = "map (csv_row cfg) (take ?F ?rs)" and ?ts = "replicate (length (take ?F ?rs)) (fst c)"
  have pos: "0 < ?F" by (simp add: batch_size_def)
  have read: "csv_read cfg (total_fuel cfg) ?rs = Inr (?rows, drop ?F ?rs, length ?rs < ?F)"
    using csv_read_batch[OF Cons.prems(1)] by (simp add: batch_size_def)
  show ?case
  proof (cases "length ?rs < ?F")
    case True
    let ?st = "st \<lparr> unread := [], is_done := True, outputs := csv_give (fst c) ?rows (outputs st), capability := None \<rparr>"
    from True Cons.prems(2) read have "csv_activate cfg c st = Inr ?st" by (simp add: csv_activate_def)
    moreover have "csv_run cfg clocks ?st = Inr ?st" by (rule csv_run_done) simp_all
    moreover have "outputs ?st ! idx = outputs st ! idx @ rows_at cfg idx ?rs ?ts" if "idx < length (outputs st)" for idx
      using that rows_at_batch[of cfg idx ?rs ?F "fst c" "[]"] True by (simp add: csv_give_nth rows_at_def)
    ultimately show ?thesis using True by (intro exI[of _ ?st] exI[of _ ?ts]) auto
  next
    case False
    let ?st = "st \<lparr> unread := drop ?F ?rs, is_done := False, outputs := csv_give (fst c) ?rows (outputs st), capability := Some (snd c),
      reactivations := Suc (reactivations st) \<rparr>"
    from False Cons.prems(2) read have act: "csv_activate cfg c st = Inr ?st" by (simp add: csv_activate_def)
    have "length (unread ?st) div ?F < length clocks"
      using Cons.prems(3) False pos by (simp add: le_div_geq)
    moreover have "list_all (csv_good cfg) (unread ?st)" using Cons.prems(1) by (auto simp: list_all_iff dest: in_set_dropD)
    ultimately obtain st' ts where IH: "csv_run cfg clocks ?st = Inr st'" "is_done st'" "capability st' = None" "length (outputs st') = length (outputs st)"
      "length ts = length (drop ?F ?rs)" "sorted ts" "set ts \<subseteq> set (map fst clocks)"
      "\<And>idx. idx < length (outputs st) \<Longrightarrow> outputs st' ! idx = csv_give (fst c) ?rows (outputs st) ! idx @ rows_at cfg idx (drop ?F ?rs) ts"
      using Cons.IH[of ?st] Cons.prems(4) by auto
    have "outputs st' ! idx = outputs st ! idx @ rows_at cfg idx ?rs (?ts @ ts)" if "idx < length (outputs st)" for idx
      using IH(8)[OF that] that unfolding rows_at_batch by (simp add: csv_give_nth)
    moreover have "sorted (?ts @ ts)" using IH(6,7) Cons.prems(4) by (auto simp: sorted_append)
    moreover have "length (?ts @ ts) = length ?rs" "set (?ts @ ts) \<subseteq> set (map fst (c # clocks))" using IH(5,7) by auto
    ultimately show ?thesis using act IH(1-4) by (intro exI[of _ st'] exI[of _ "?ts @ ts"]) simp
  qed
qed simp

text \<open>C16: The CSV source reads its whole file and then lets time pass. For well-formed records, one more activation than there are full
  batches is enough for the source to finish without panicking and to give up its capabilities; each attribute of the
  schema has then received, for every record once and in the order of the file, the entity and the value of its column, at
  times that do not decrease.\<close>

theorem csv_source_complete:
  assumes "list_all (csv_good cfg) records" and "length records div batch_size cfg < length clocks" and "sorted (map fst clocks)"
  shows "\<exists>st ts. csv_run cfg clocks (csv_start cfg records minimum) = Inr st \<and> is_done st \<and> capability st = None \<and>
    length ts = length records \<and> sorted ts \<and> length (outputs st) = length (schema cfg) \<and>
    (\<forall>idx < length (schema cfg). outputs st ! idx = map2 (\<lambda>r t. (csv_row cfg r ! idx, t, 1)) records ts)"
  using csv_run_complete[of cfg "csv_start cfg records minimum" clocks] assms by (auto simp: csv_start_def rows_at_def)

definition people_csv :: csv_file where
  "people_csv = \<lparr> csv_path = ''people.csv'', has_headers = False, delimiter = 44, comment = None, flexible = False, eid_offset = 0,
     timestamp_offset = None, schema = [(''name'', 1, String []), (''age'', 2, Number 0)], csv_fuel = Some 2, csv_interval = None \<rparr>"

definition people_records :: "(string + csv_record) list" where
  "people_records = [Inr [''7'', ''Ada'', ''36''], Inr [''8'', ''Bob'', ''-1'']]"

theorem csv_source_complete_witness:
  "\<exists>st. csv_run people_csv [(1 :: nat, 2), (5, 6)] (csv_start people_csv people_records 0) = Inr st \<and> capability st = None \<and>
     map fst (outputs st ! 1) = [(Eid 7, Number 36), (Eid 8, Number (- 1))]"
proof -
  have good: "list_all (csv_good people_csv) people_records" "batch_size people_csv = 2"
    "map (\<lambda>r. csv_row people_csv r ! 1) people_records = [(Eid 7, Number 36), (Eid 8, Number (- 1))]"
    by (simp_all add: people_csv_def people_records_def csv_good_def csv_row_def csv_tuples_def parse_u64_def parse_i64_def parse_nat_def
        digit_of_def vec_index_def expect_def batch_size_def total_fuel_def)
  have len: "length people_records = 2" "length (schema people_csv) = 2" by (simp_all add: people_records_def people_csv_def)
  have "length people_records div batch_size people_csv < length [(1 :: nat, 2 :: nat), (5, 6)]" "sorted (map fst [(1 :: nat, 2 :: nat), (5, 6)])"
    by (simp_all add: good(2) len)
  from csv_source_complete[OF good(1) this, of 0] obtain st ts where
    st: "csv_run people_csv [(1 :: nat, 2), (5, 6)] (csv_start people_csv people_records 0) = Inr st" "capability st = None"
      "length ts = 2" "\<forall>idx < 2. outputs st ! idx = map2 (\<lambda>r t. (csv_row people_csv r ! idx, t, 1)) people_records ts"
    unfolding len by blast
  from st(3) obtain a b where "ts = [a, b]" by (auto simp: numeral_2_eq_2 length_Suc_conv)
  with st(4)[rule_format, of 1] good(3) have "map fst (outputs st ! 1) = [(Eid 7, Number 36), (Eid 8, Number (- 1))]"
    by (simp add: people_records_def)
  with st(1,2) show ?thesis by (intro exI[of _ st]) simp
qed

end
