(* ===== verification/Logging_Sources.thy ===== *)
theory Logging_Sources
  imports Sources
begin

text \<open>
  The sources that tap the logs of the runtime, \<^verbatim>\<open>src/src/sources/timely_logging.rs\<close> and
  \<^verbatim>\<open>src/src/sources/differential_logging.rs\<close>, and the choice of a source in \<^verbatim>\<open>src/src/sources/mod.rs\<close>. The events are those of timely and differential dataflow, with the fields the
  sources read; replaying a log is up to timely, which hands the operator its events in batches, each with its time and
  worker. Both operators have an output per requested attribute and give a datom only when its attribute was requested.
  What they have in common is the locale \<open>logging_demux\<close>.
\<close>

section \<open>Outputs\<close>

type_synonym 't sessions = "(aid, (df_value \<times> df_value, 't) collection) hash_map"

definition give_to :: "aid \<Rightarrow> df_value \<times> df_value \<Rightarrow> 't \<Rightarrow> 't sessions \<Rightarrow> 't sessions" where
  "give_to a pair time sessions =
     (case map_of sessions a of
        None \<Rightarrow> sessions
      | Some out \<Rightarrow> hm_insert a (out @ [(pair, time, 1)]) sessions)"

fun new_outputs :: "aid list \<Rightarrow> 't sessions \<Rightarrow> 't sessions" where
  "new_outputs [] outs = outs"
| "new_outputs (a # aids) outs = new_outputs aids (hm_insert a [] outs)"

fun take_streams :: "aid list \<Rightarrow> 't sessions \<Rightarrow> aid list run" where
  "take_streams [] streams = Inr []"
| "take_streams (a # aids) streams =
     (case map_of streams a of
        None \<Rightarrow> Inl ''called `Option::unwrap()` on a `None` value''
      | Some _ \<Rightarrow> run_bind (take_streams aids (hm_remove a streams)) (\<lambda>rest. Inr (a # rest)))"

fun demux_events :: "('t \<Rightarrow> usize \<Rightarrow> 'e \<Rightarrow> 't sessions \<Rightarrow> 't sessions run) \<Rightarrow> ('t \<times> usize \<times> 'e) list \<Rightarrow> 't sessions \<Rightarrow> 't sessions run" where
  "demux_events demux [] sessions = Inr sessions"
| "demux_events demux ((time, worker, datum) # events) sessions =
     run_bind (demux time worker datum sessions) (demux_events demux events)"

fun demux_batches :: "('t \<Rightarrow> usize \<Rightarrow> 'e \<Rightarrow> 't sessions \<Rightarrow> 't sessions run) \<Rightarrow> ('t \<times> usize \<times> 'e) list list \<Rightarrow> 't sessions \<Rightarrow> 't sessions run" where
  "demux_batches demux [] sessions = Inr sessions"
| "demux_batches demux (data # input) sessions =
     run_bind (demux_events demux data sessions) (demux_batches demux input)"

text \<open>A source: taking out the streams of the aids, and what the streams receive.\<close>

definition logging_source ::
  "input_semantics \<Rightarrow> ('t \<Rightarrow> usize \<Rightarrow> 'e \<Rightarrow> 't sessions \<Rightarrow> 't sessions run) \<Rightarrow> aid list \<Rightarrow> ('t \<times> usize \<times> 'e) list list \<Rightarrow>
   (aid \<times> attribute_config \<times> (df_value \<times> df_value, 't) collection) list run" where
  "logging_source semantics demux aids input =
     run_bind (take_streams aids (new_outputs aids ([] :: 't sessions))) (\<lambda>taken.
     run_bind (demux_batches demux input (new_outputs aids [])) (\<lambda>outs.
       Inr (map (\<lambda>a. (a, real_time semantics, case map_of outs a of None \<Rightarrow> [] | Some out \<Rightarrow> out)) taken)))"

section \<open>Timely events\<close>

datatype timely_event =
    Operates usize "usize list" string
  | ShutdownEvent usize
  | Channels usize "usize list" "usize \<times> usize" "usize \<times> usize"
  | Schedule usize bool
  | Messages
  | OtherTimely

abbreviation eid_of :: "usize \<Rightarrow> df_value" where
  "eid_of n \<equiv> Eid (of_nat n)"

text \<open>\<^verbatim>\<open>Vec::pop().unwrap()\<close>.\<close>

definition pop_unwrap :: "'a list \<Rightarrow> ('a \<times> 'a list) run" where
  "pop_unwrap xs = (if xs = [] then Inl ''called `Option::unwrap()` on a `None` value'' else Inr (last xs, butlast xs))"

fun timely_demux :: "'t \<Rightarrow> timely_event \<Rightarrow> 't sessions \<Rightarrow> 't sessions run" where
  "timely_demux time (Operates ident addr name) sessions =
     run_bind (pop_unwrap addr) (\<lambda>(local_id, addr1).
     run_bind
       (if addr1 = [] then Inr (give_to ''timely/scope'' (eid_of ident, Eid 0) time sessions)
        else run_bind (pop_unwrap addr1) (\<lambda>(scope, addr2).
          let sessions1 = give_to ''timely/scope'' (eid_of ident, eid_of scope) time sessions in
          if addr2 \<noteq> []
          then run_bind (pop_unwrap addr2) (\<lambda>(parent, _).
            Inr (give_to ''timely/scope'' (eid_of scope, eid_of parent) time sessions1))
          else Inr sessions1))
       (\<lambda>sessions2.
          Inr (give_to ''timely.event.operates/name'' (eid_of ident, String name) time
            (give_to ''timely.event.operates/local-id'' (eid_of ident, eid_of local_id) time sessions2))))"
| "timely_demux time (ShutdownEvent ident) sessions =
     Inr (give_to ''timely.event.operates/shutdown?'' (eid_of ident, Bool True) time sessions)"
| "timely_demux time (Channels ident scope_addr source target) sessions =
     run_bind (pop_unwrap scope_addr) (\<lambda>(scope, _).
       Inr (give_to ''timely.event.channels/target-port'' (eid_of ident, eid_of (snd target)) time
           (give_to ''timely.event.channels/target-index'' (eid_of ident, eid_of (fst target)) time
           (give_to ''timely.event.channels/src-port'' (eid_of ident, eid_of (snd source)) time
           (give_to ''timely.event.channels/src-index'' (eid_of ident, eid_of (fst source)) time
           (give_to ''timely/scope'' (eid_of ident, eid_of scope) time sessions))))))"
| "timely_demux time (Schedule ident is_started) sessions =
     Inr (give_to ''schedule/started?'' (eid_of ident, Bool is_started) time sessions)"
| "timely_demux time Messages sessions = Inr sessions"
| "timely_demux time OtherTimely sessions = Inr sessions"

definition timely_source ::
  "aid list \<Rightarrow> ('t \<times> usize \<times> timely_event) list list \<Rightarrow> (aid \<times> attribute_config \<times> (df_value \<times> df_value, 't) collection) list run" where
  "timely_source = logging_source Distinct (\<lambda>time _. timely_demux time)"

text \<open>Of the sockets a worker has opened to a remote computation, the ones it reads.\<close>

definition make_replayers :: "'s list \<Rightarrow> usize \<Rightarrow> usize \<Rightarrow> 's list" where
  "make_replayers sockets index peers = map snd (filter (\<lambda>(i, _). i mod peers = index) (enumerate 0 sockets))"

section \<open>Differential events\<close>

datatype differential_event =
    Batch usize usize
  | Merge usize usize usize "usize option"
  | OtherDifferential

fun differential_demux :: "'t \<Rightarrow> differential_event \<Rightarrow> 't sessions \<Rightarrow> 't sessions run" where
  "differential_demux time (Batch operator len) sessions =
     Inr (give_to ''differential.event/size'' (eid_of operator, Number (of_nat len)) time sessions)"
| "differential_demux time (Merge operator length1 length2 completed) sessions =
     Inr (case completed of
        None \<Rightarrow> sessions
      | Some complete_size \<Rightarrow>
          give_to ''differential.event/size'' (eid_of operator, Number (of_nat complete_size - of_nat (length1 + length2))) time sessions)"
| "differential_demux time OtherDifferential sessions = Inr sessions"

definition differential_source ::
  "aid list \<Rightarrow> ('t \<times> usize \<times> differential_event) list list \<Rightarrow> (aid \<times> attribute_config \<times> (df_value \<times> df_value, 't) collection) list run" where
  "differential_source = logging_source Raw (\<lambda>time _. differential_demux time)"

section \<open>Declarative events\<close>

text \<open>The log of the library itself, from \<^verbatim>\<open>src/src/logging.rs\<close>, and its source in
  \<^verbatim>\<open>src/src/sources/declarative_logging.rs\<close>, whose module is commented out.\<close>

datatype declarative_event = JoinTuples (join_cardinality: i64)

fun declarative_demux :: "'t \<Rightarrow> usize \<Rightarrow> declarative_event \<Rightarrow> 't sessions \<Rightarrow> 't sessions run" where
  "declarative_demux time worker (JoinTuples cardinality) sessions =
     Inr (give_to ''declarative.event.join/tuples'' (eid_of worker, Number cardinality) time sessions)"

definition declarative_source ::
  "aid list \<Rightarrow> ('t \<times> usize \<times> declarative_event) list list \<Rightarrow> (aid \<times> attribute_config \<times> (df_value \<times> df_value, 't) collection) list run" where
  "declarative_source = logging_source Raw declarative_demux"

section \<open>Sources\<close>

text \<open>All sources of the module tree. The logs are what timely replays, \<open>files\<close> is what the CSV source has given its outputs.
  Without the feature \<^verbatim>\<open>real-time\<close> no source is implemented.\<close>

datatype df_source =
    TimelyLogging "aid list" "usize option"
  | DifferentialLogging "aid list"
  | CsvFile csv_file

definition source_source ::
  "bool \<Rightarrow> (usize option \<Rightarrow> (duration \<times> usize \<times> timely_event) list list) \<Rightarrow> (duration \<times> usize \<times> differential_event) list list \<Rightarrow>
   (csv_file \<Rightarrow> (df_value \<times> df_value, duration) collection list) \<Rightarrow> df_source \<Rightarrow>
   (aid \<times> attribute_config \<times> (df_value \<times> df_value, duration) collection) list run" where
  "source_source feature timely_logs differential_logs files src =
     (if \<not> feature then Inl ''not implemented''
      else (case src of
          TimelyLogging aids remote_peers \<Rightarrow> timely_source aids (timely_logs remote_peers)
        | DifferentialLogging aids \<Rightarrow> differential_source aids differential_logs
        | CsvFile cfg \<Rightarrow> Inr (csv_streams cfg (files cfg))))"

section \<open>What the outputs receive\<close>

lemma give_to_get [simp]:
  "map_of (give_to a pair time s) b =
     (if b = a then map_option (\<lambda>out. out @ [(pair, time, 1)]) (map_of s a) else map_of s b)"
  by (simp add: give_to_def split: option.splits)

lemma new_outputs_get: "map_of (new_outputs aids s) a = (if a \<in> set aids then Some [] else map_of s a)"
  by (induction aids s rule: new_outputs.induct) auto

lemma take_streams_distinct:
  "distinct aids \<Longrightarrow> set aids \<subseteq> dom (map_of s) \<Longrightarrow> take_streams aids s = Inr aids"
proof (induction aids s rule: take_streams.induct)
  case (2 a aids s)
  then obtain out where out: "map_of s a = Some out" by auto
  have "take_streams aids (hm_remove a s) = Inr aids"
    by (rule "2.IH"[OF out]) (use "2.prems" in \<open>auto simp: delete_conv' dom_def\<close>)
  with out show ?case by simp
qed simp

lemma take_streams_repeated:
  "\<not> distinct aids \<Longrightarrow> take_streams aids s = Inl ''called `Option::unwrap()` on a `None` value''"
proof (induction aids s rule: take_streams.induct)
  case (2 a aids s)
  have gone: "take_streams xs s = Inl ''called `Option::unwrap()` on a `None` value''"
    if "a \<in> set xs" "map_of s a = None" for xs and s :: "'a sessions"
    using that by (induction xs s rule: take_streams.induct) (auto split: option.splits)
  show ?case
  proof (cases "map_of s a")
    case (Some out)
    then show ?thesis using "2.IH"[OF Some] "2.prems" gone[of aids "hm_remove a s"] by (cases "a \<in> set aids") auto
  qed simp
qed simp

text \<open>The datoms of an attribute among the facts of a list of events.\<close>

definition datoms ::
  "(usize \<Rightarrow> 'e \<Rightarrow> (aid \<times> df_value \<times> df_value) list) \<Rightarrow> aid \<Rightarrow> ('t \<times> usize \<times> 'e) list \<Rightarrow> (df_value \<times> df_value, 't) collection" where
  "datoms facts a events =
     concat (map (\<lambda>(t, n, ev). map (\<lambda>(_, pair). (pair, t, 1)) (filter (\<lambda>(b, _). b = a) (facts n ev))) events)"

text \<open>What an operator of this kind promises: the facts of an event, each given to the output of its attribute.\<close>

locale logging_demux =
  fixes demux :: "'t \<Rightarrow> usize \<Rightarrow> 'e \<Rightarrow> 't sessions \<Rightarrow> 't sessions run"
    and facts :: "usize \<Rightarrow> 'e \<Rightarrow> (aid \<times> df_value \<times> df_value) list"
    and valid :: "'e \<Rightarrow> bool"
  assumes demux_facts: "valid ev \<Longrightarrow> demux t n ev s = Inr (fold (\<lambda>(a, pair). give_to a pair t) (facts n ev) s)"
begin

lemma fold_give_get:
  "map_of (fold (\<lambda>(a, pair). give_to a pair t) fs s) b =
     map_option (\<lambda>out. out @ map (\<lambda>(_, pair). (pair, t, 1)) (filter (\<lambda>(a, _). a = b) fs)) (map_of s b)"
proof (induction fs arbitrary: s)
  case (Cons f fs)
  obtain a pair where "f = (a, pair)" by (cases f)
  then show ?case using Cons.IH by (simp add: option.map_comp comp_def)
qed (simp add: option.map_ident)

lemma demux_events_get:
  "\<forall>(t, n, ev) \<in> set events. valid ev \<Longrightarrow>
     \<exists>s'. demux_events demux events s = Inr s' \<and> (\<forall>a. map_of s' a = map_option (\<lambda>out. out @ datoms facts a events) (map_of s a))"
proof (induction events arbitrary: s)
  case (Cons e events)
  obtain t n ev where e: "e = (t, n, ev)" by (cases e)
  let ?s = "fold (\<lambda>(a, pair). give_to a pair t) (facts n ev) s"
  from Cons.IH[of ?s] Cons.prems obtain s' where "demux_events demux events ?s = Inr s'"
    "\<forall>a. map_of s' a = map_option (\<lambda>out. out @ datoms facts a events) (map_of ?s a)" by (auto simp: e)
  then show ?case using Cons.prems
    by (auto simp: e demux_facts fold_give_get datoms_def option.map_comp comp_def)
qed (simp add: datoms_def option.map_ident)

lemma demux_batches_get:
  "\<forall>(t, n, ev) \<in> set (concat input). valid ev \<Longrightarrow>
     \<exists>s'. demux_batches demux input s = Inr s' \<and> (\<forall>a. map_of s' a = map_option (\<lambda>out. out @ datoms facts a (concat input)) (map_of s a))"
proof (induction input arbitrary: s)
  case (Cons data input)
  from Cons.prems demux_events_get[of data s] obtain s1 where s1: "demux_events demux data s = Inr s1"
    "\<forall>a. map_of s1 a = map_option (\<lambda>out. out @ datoms facts a data) (map_of s a)" by auto
  from Cons.prems Cons.IH[of s1] obtain s2 where "demux_batches demux input s1 = Inr s2"
    "\<forall>a. map_of s2 a = map_option (\<lambda>out. out @ datoms facts a (concat input)) (map_of s1 a)" by auto
  with s1 show ?case by (auto simp: datoms_def option.map_comp comp_def)
qed (simp add: datoms_def option.map_ident)

lemma source_exact:
  assumes "distinct aids" and "\<forall>(t, n, ev) \<in> set (concat input). valid ev"
  shows "logging_source semantics demux aids input = Inr (map (\<lambda>a. (a, real_time semantics, datoms facts a (concat input))) aids)"
proof -
  from demux_batches_get[OF assms(2), of "new_outputs aids []"] obtain outs where
    outs: "demux_batches demux input (new_outputs aids []) = Inr outs"
    "\<forall>a. map_of outs a = map_option (\<lambda>out. out @ datoms facts a (concat input)) (map_of (new_outputs aids []) a)" by blast
  have "take_streams aids (new_outputs aids ([] :: 't sessions)) = Inr aids"
    using assms(1) by (intro take_streams_distinct) (auto simp: new_outputs_get)
  then show ?thesis using outs by (simp add: logging_source_def new_outputs_get)
qed

end

section \<open>Timely\<close>

fun timely_facts :: "timely_event \<Rightarrow> (aid \<times> df_value \<times> df_value) list" where
  "timely_facts (Operates ident addr name) =
     (case rev addr of
        [] \<Rightarrow> []
      | [_] \<Rightarrow> [(''timely/scope'', eid_of ident, Eid 0)]
      | [_, scope] \<Rightarrow> [(''timely/scope'', eid_of ident, eid_of scope)]
      | _ # scope # parent # _ \<Rightarrow>
          [(''timely/scope'', eid_of ident, eid_of scope), (''timely/scope'', eid_of scope, eid_of parent)]) @
     [(''timely.event.operates/local-id'', eid_of ident, eid_of (last addr)),
      (''timely.event.operates/name'', eid_of ident, String name)]"
| "timely_facts (ShutdownEvent ident) = [(''timely.event.operates/shutdown?'', eid_of ident, Bool True)]"
| "timely_facts (Channels ident scope_addr source target) =
     [(''timely/scope'', eid_of ident, eid_of (last scope_addr)),
      (''timely.event.channels/src-index'', eid_of ident, eid_of (fst source)),
      (''timely.event.channels/src-port'', eid_of ident, eid_of (snd source)),
      (''timely.event.channels/target-index'', eid_of ident, eid_of (fst target)),
      (''timely.event.channels/target-port'', eid_of ident, eid_of (snd target))]"
| "timely_facts (Schedule ident is_started) = [(''schedule/started?'', eid_of ident, Bool is_started)]"
| "timely_facts _ = []"

fun addressed :: "timely_event \<Rightarrow> bool" where
  "addressed (Operates ident addr name) \<longleftrightarrow> addr \<noteq> []"
| "addressed (Channels ident scope_addr source target) \<longleftrightarrow> scope_addr \<noteq> []"
| "addressed _ \<longleftrightarrow> True"

lemma rev_snoc: "rev addr = x # xs \<Longrightarrow> addr = rev xs @ [x]"
  by (metis rev.simps(2) rev_rev_ident)

interpretation timely_log: logging_demux "\<lambda>time _. timely_demux time" "\<lambda>_. timely_facts" addressed
proof
  show "timely_demux t ev s = Inr (fold (\<lambda>(a, pair). give_to a pair t) (timely_facts ev) s)" if "addressed ev" for t ev s
  proof (cases ev)
    case (Operates ident addr name)
    with that obtain x xs where addr: "addr = rev (x # xs)" by (cases "rev addr") (auto dest: rev_snoc)
    show ?thesis by (cases xs; cases "tl xs") (simp_all add: Operates addr pop_unwrap_def Let_def butlast_append)
  qed (use that in \<open>simp_all add: pop_unwrap_def\<close>)
qed

section \<open>Differential\<close>

fun differential_facts :: "differential_event \<Rightarrow> (aid \<times> df_value \<times> df_value) list" where
  "differential_facts (Batch operator len) = [(''differential.event/size'', eid_of operator, Number (of_nat len))]"
| "differential_facts (Merge operator length1 length2 (Some merged)) =
     [(''differential.event/size'', eid_of operator, Number (of_nat merged - of_nat (length1 + length2)))]"
| "differential_facts _ = []"

interpretation differential_log: logging_demux "\<lambda>time _. differential_demux time" "\<lambda>_. differential_facts" "\<lambda>_. True"
proof
  show "differential_demux t ev s = Inr (fold (\<lambda>(a, pair). give_to a pair t) (differential_facts ev) s)" for t ev s
    by (cases ev) (auto split: option.splits)
qed

interpretation declarative_log: logging_demux declarative_demux
  "\<lambda>worker ev. [(''declarative.event.join/tuples'', eid_of worker, Number (join_cardinality ev))]" "\<lambda>_. True"
proof
  show "declarative_demux t n ev s = Inr (fold (\<lambda>(a, pair). give_to a pair t)
      [(''declarative.event.join/tuples'', eid_of n, Number (join_cardinality ev))] s)" for t n ev s
    by (cases ev) simp
qed

lemma declarative_source_exact:
  "distinct aids \<Longrightarrow> declarative_source aids input = Inr (map (\<lambda>a. (a, real_time Raw,
     datoms (\<lambda>worker ev. [(''declarative.event.join/tuples'', eid_of worker, Number (join_cardinality ev))]) a (concat input))) aids)"
  unfolding declarative_source_def by (rule declarative_log.source_exact) simp_all

section \<open>Properties\<close>

text \<open>C18: A tap into the log of timely yields, for every requested attribute, exactly the datoms the events state of it, once each, in
  the order of the log and at the times of the events, whatever other attributes are requested and however the log is cut
  into batches. An attribute that is requested twice panics when the source is built.\<close>

theorem timely_source_exact:
  assumes "\<forall>(t, n, ev) \<in> set (concat input). addressed ev"
  shows "timely_source aids input =
    (if distinct aids then Inr (map (\<lambda>a. (a, real_time Distinct, datoms (\<lambda>_. timely_facts) a (concat input))) aids)
     else Inl ''called `Option::unwrap()` on a `None` value'')"
proof (cases "distinct aids")
  case True
  then show ?thesis using timely_log.source_exact[OF True assms, of Distinct] by (simp add: timely_source_def)
qed (simp add: timely_source_def logging_source_def take_streams_repeated)

definition small_log :: "(nat \<times> usize \<times> timely_event) list list" where
  "small_log = [[(1, 0, Operates 5 [0, 3] ''Map''), (2, 0, Schedule 5 True)], [], [(4, 0, Operates 6 [0, 3, 1] ''Join'')]]"

theorem timely_source_exact_witness:
  "timely_source [''schedule/started?'', ''timely/scope''] small_log =
     Inr [(''schedule/started?'', real_time Distinct, [((Eid 5, Bool True), 2, 1)]),
       (''timely/scope'', real_time Distinct, [((Eid 5, Eid 0), 1, 1), ((Eid 6, Eid 3), 4, 1), ((Eid 3, Eid 0), 4, 1)])]"
proof -
  have "\<forall>(t, n, ev) \<in> set (concat small_log). addressed ev" by (simp add: small_log_def)
  from timely_source_exact[OF this, of "[''schedule/started?'', ''timely/scope'']"] show ?thesis
    by (simp add: datoms_def small_log_def)
qed

text \<open>The arrangement of an operator as its events describe it: a batch arrives, or two batches are replaced by one.\<close>

fun spine_step :: "differential_event \<Rightarrow> (usize \<Rightarrow> usize multiset) \<Rightarrow> usize \<Rightarrow> usize multiset" where
  "spine_step (Batch operator len) sp = sp(operator := add_mset len (sp operator))"
| "spine_step (Merge operator length1 length2 (Some merged)) sp =
     sp(operator := add_mset merged (sp operator - {#length1, length2#}))"
| "spine_step _ sp = sp"

fun merges_present :: "differential_event list \<Rightarrow> (usize \<Rightarrow> usize multiset) \<Rightarrow> bool" where
  "merges_present [] sp \<longleftrightarrow> True"
| "merges_present (ev # events) sp \<longleftrightarrow>
     (case ev of Merge operator length1 length2 (Some merged) \<Rightarrow> {#length1, length2#} \<subseteq># sp operator | _ \<Rightarrow> True) \<and>
     merges_present events (spine_step ev sp)"

fun operator_of :: "differential_event \<Rightarrow> usize" where
  "operator_of (Batch operator len) = operator"
| "operator_of (Merge operator length1 length2 merged) = operator"
| "operator_of OtherDifferential = 0"

text \<open>The sum of the sizes a collection holds for an operator.\<close>

fun size_of :: "df_value \<Rightarrow> i64" where
  "size_of (Number n) = n"
| "size_of _ = 0"

definition reported_size :: "(df_value \<times> df_value, 't) collection \<Rightarrow> usize \<Rightarrow> i64" where
  "reported_size out operator = (\<Sum>((e, v), t, d) \<leftarrow> out. if e = eid_of operator then of_int d * size_of v else 0)"

lemma reported_size_append [simp]: "reported_size (xs @ ys) operator = reported_size xs operator + reported_size ys operator"
  by (simp add: reported_size_def)

lemma of_nat_u64_inj: "m < 2 ^ 64 \<Longrightarrow> n < 2 ^ 64 \<Longrightarrow> (of_nat m :: u64) = of_nat n \<longleftrightarrow> m = n"
  by (auto simp: word_of_nat_eq_iff take_bit_nat_eq_self)

lemma spine_step_size:
  assumes "merges_present [ev] sp" and "operator_of ev < 2 ^ 64" and "operator < 2 ^ 64"
  shows "(of_nat (sum_mset (spine_step ev sp operator)) :: i64) = of_nat (sum_mset (sp operator)) +
    reported_size (datoms (\<lambda>_. differential_facts) ''differential.event/size'' [(t, n, ev)]) operator"
proof (cases ev)
  case (Merge oper length1 length2 merged)
  show ?thesis
  proof (cases merged)
    case (Some m)
    with assms(1) Merge have "{#length1, length2#} \<subseteq># sp oper" by simp
    from mset_subset_eq_exists_conv[THEN iffD1, OF this] obtain rest where "sp oper = {#length1, length2#} + rest" by blast
    then show ?thesis using assms(2,3)
      by (auto simp: Merge Some datoms_def reported_size_def of_nat_u64_inj)
  qed (simp add: Merge datoms_def reported_size_def)
qed (use assms in \<open>auto simp: datoms_def reported_size_def of_nat_u64_inj\<close>)

lemma spine_sizes:
  assumes "merges_present (map (\<lambda>(_, _, ev). ev) events) sp" and "\<forall>(_, _, ev) \<in> set events. operator_of ev < 2 ^ 64"
    and "operator < 2 ^ 64"
  shows "(of_nat (sum_mset (fold (\<lambda>(_, _, ev). spine_step ev) events sp operator)) :: i64) = of_nat (sum_mset (sp operator)) +
    reported_size (datoms (\<lambda>_. differential_facts) ''differential.event/size'' events) operator"
  using assms
proof (induction events arbitrary: sp)
  case (Cons e events)
  obtain t n ev where e: "e = (t, n, ev)" by (cases e)
  have "datoms (\<lambda>_. differential_facts) a (e # events) = datoms (\<lambda>_. differential_facts) a [(t, n, ev)] @ datoms (\<lambda>_. differential_facts) a events" for a
    by (simp add: datoms_def e)
  moreover have "merges_present [ev] sp" using Cons.prems(1) by (simp add: e)
  ultimately show ?case using Cons spine_step_size[of ev sp operator t n] by (simp add: e)
qed (simp add: datoms_def reported_size_def)


definition merging_log :: "(nat \<times> usize \<times> differential_event) list list" where
  "merging_log = [[(1, 0, Batch 9 10), (2, 0, Batch 9 5)], [(2, 0, Merge 9 10 5 None), (3, 0, Merge 9 10 5 (Some 12))]]"


text \<open>The scope of an operator is identified by its index within its parent. Operators of two different scopes that have the
  same index below different parents are reported in the same scope, which then has both parents; it is also the entity of
  the operator that has this index as its identifier.\<close>

theorem scopes_conflated:
  assumes "outer \<noteq> []" and "outer' \<noteq> []"
  shows "\<exists>out. timely_source [''timely/scope'']
      [[(t, n, Operates i (outer @ [s, x]) name), (t', n', Operates j (outer' @ [s, y]) name'), (t'', n'', Operates s [z] name'')]] =
      Inr [(''timely/scope'', real_time Distinct, out)] \<and>
    {((eid_of i, eid_of s), t, 1), ((eid_of j, eid_of s), t', 1), ((eid_of s, eid_of (last outer)), t, 1),
     ((eid_of s, eid_of (last outer')), t', 1), ((eid_of s, Eid 0), t'', 1)} \<subseteq> set out"
proof -
  let ?log = "[(t, n, Operates i (outer @ [s, x]) name), (t', n', Operates j (outer' @ [s, y]) name'), (t'', n'', Operates s [z] name'')]"
  have scopes: "filter (\<lambda>(b, _). b = ''timely/scope'') (timely_facts (Operates k (up @ [s, u]) label)) =
      [(''timely/scope'', eid_of k, eid_of s), (''timely/scope'', eid_of s, eid_of (last up))]" if "up \<noteq> []" for k up u label
    using that by (cases up rule: rev_cases) simp_all
  have "timely_source [''timely/scope''] [?log] =
      Inr [(''timely/scope'', real_time Distinct, datoms (\<lambda>_. timely_facts) ''timely/scope'' ?log)]"
    using timely_log.source_exact[of "[''timely/scope'']" "[?log]" Distinct] by (simp add: timely_source_def)
  moreover have "datoms (\<lambda>_. timely_facts) ''timely/scope'' ?log =
      [((eid_of i, eid_of s), t, 1), ((eid_of s, eid_of (last outer)), t, 1), ((eid_of j, eid_of s), t', 1),
       ((eid_of s, eid_of (last outer')), t', 1), ((eid_of s, Eid 0), t'', 1)]"
    unfolding datoms_def by (simp add: scopes assms del: timely_facts.simps(1)) simp
  ultimately show ?thesis by auto
qed

theorem scopes_conflated_witness:
  "\<exists>out. timely_source [''timely/scope'']
      [[(0 :: nat, 0, Operates 20 [0, 1, 4, 7] ''Map''), (0, 0, Operates 21 [0, 2, 4, 7] ''Map''), (0, 0, Operates 4 [3] ''Input'')]] =
      Inr [(''timely/scope'', real_time Distinct, out)] \<and>
    {((Eid 20, Eid 4), 0, 1), ((Eid 21, Eid 4), 0, 1), ((Eid 4, Eid 1), 0, 1), ((Eid 4, Eid 2), 0, 1), ((Eid 4, Eid 0), 0, 1)} \<subseteq> set out"
  using scopes_conflated[of "[0, 1]" "[0, 2]" "0 :: nat" 0 20 4 7 "''Map''" 0 0 21 7 "''Map''" 0 0 3 "''Input''"] by simp

section \<open>Remote computations\<close>

text \<open>Every socket of a remote computation would be read by one worker, if the workers shared them.\<close>

lemma replayers_partition:
  assumes "0 < peers"
  shows "mset (concat (map (\<lambda>index. make_replayers sockets index peers) [0..<peers])) = mset sockets"
proof -
  have "mset (concat (map (\<lambda>index. map snd (filter (\<lambda>(i, _). i mod peers = index) xs)) [0..<peers])) = mset (map snd xs)"
    for xs :: "(nat \<times> 'a) list"
  proof (induction xs)
    case (Cons x xs)
    have "mset (concat (map (\<lambda>index. map snd (filter (\<lambda>(i, _). i mod peers = index) (x # xs))) ns)) =
        (if fst x mod peers \<in> set ns then {#snd x#} else {#}) +
        mset (concat (map (\<lambda>index. map snd (filter (\<lambda>(i, _). i mod peers = index) xs)) ns))" if "distinct ns" for ns
      using that by (induction ns) (auto split: prod.splits)
    from this[of "[0..<peers]"] Cons show ?case using assms by simp
  qed simp
  from this[of "enumerate 0 sockets"] show ?thesis by (simp add: make_replayers_def flip: mset_map)
qed

end
