(* ===== verification/Json_Source.thy ===== *)
theory Json_Source
  imports Values Collections
begin

text \<open>
  The JSON source of \<^verbatim>\<open>src/src/sources/json_file.rs\<close>, whose module is commented out. Every worker reads all lines of its file,
  at most 255 in an activation, and takes the objects whose number is its own modulo the number of workers. Reading lines
  and parsing are up to the standard library and \<^verbatim>\<open>serde_json\<close>: the lines, or the failure to read one, are an argument, as is the parser.
\<close>

record json_file =
  json_path :: string
  json_aids :: "aid list"

text \<open>A parsed value, with a number as \<^verbatim>\<open>as_i64\<close> gives it.\<close>

datatype parsed =
    PNull
  | PBool bool
  | PNumber "i64 option"
  | PString string
  | PArray "parsed list"
  | PObject "(string \<times> parsed) list"

fun json_value :: "parsed \<Rightarrow> df_value run" where
  "json_value (PString s) = Inr (String s)"
| "json_value (PNumber (Some n)) = Inr (Number n)"
| "json_value (PBool b) = Inr (Bool b)"
| "json_value (PNumber None) = Inl ''only i64 supported at the moment''"
| "json_value _ = Inl ''only strings, booleans, and i64 types supported at the moment''"

text \<open>The datoms of one line, per attribute.\<close>

definition json_object :: "(string \<Rightarrow> parsed option) \<Rightarrow> aid list \<Rightarrow> nat \<Rightarrow> string \<Rightarrow> (df_value \<times> df_value) option list run" where
  "json_object parse aids object_index line =
     (case parse line of
        Some (PObject obj_map) \<Rightarrow>
          run_map (\<lambda>a. case map_of obj_map a of
              None \<Rightarrow> Inr None
            | Some j \<Rightarrow> run_bind (json_value j) (\<lambda>v. Inr (Some (Eid (of_nat object_index), v)))) aids
      | Some _ \<Rightarrow> Inl ''called `Option::unwrap()` on a `None` value''
      | None \<Rightarrow> Inl ''called `Result::unwrap()` on an `Err` value'')"

record 't json_state =
  json_unread :: "(string + string) list"
  object_index :: nat
  num_objects_read :: nat
  holds_capabilities :: bool
  json_outputs :: "(df_value \<times> df_value, 't) collection list"

text \<open>The lines of the file at a path, unless it cannot be opened.\<close>

definition json_start :: "(string \<Rightarrow> (string + string) list option) \<Rightarrow> json_file \<Rightarrow> 't json_state run" where
  "json_start files cfg =
     (case files (json_path cfg) of
        None \<Rightarrow> Inl ''called `Result::unwrap()` on an `Err` value''
      | Some lines \<Rightarrow> Inr \<lparr> json_unread = lines, object_index = 0, num_objects_read = 0, holds_capabilities = True, json_outputs = map (\<lambda>_. []) (json_aids cfg) \<rparr>)"

definition json_give :: "'t \<Rightarrow> (df_value \<times> df_value) option list \<Rightarrow> (df_value \<times> df_value, 't) collection list \<Rightarrow> (df_value \<times> df_value, 't) collection list" where
  "json_give time datoms outs = map2 (\<lambda>datom out. case datom of None \<Rightarrow> out | Some pair \<Rightarrow> out @ [(pair, time, 1)]) datoms outs"

definition json_line ::
  "(string \<Rightarrow> parsed option) \<Rightarrow> json_file \<Rightarrow> nat \<Rightarrow> nat \<Rightarrow> 't \<Rightarrow> string \<Rightarrow> 't json_state \<Rightarrow> 't json_state run" where
  "json_line parse cfg worker_index num_workers time line st =
     (if object_index st mod num_workers = worker_index \<and> line \<noteq> [] then
        run_bind (json_object parse (json_aids cfg) (object_index st) line) (\<lambda>datoms.
          Inr (st \<lparr> json_outputs := json_give time datoms (json_outputs st), num_objects_read := num_objects_read st + 1 \<rparr>))
      else Inr st)"

fun json_read ::
  "(string \<Rightarrow> parsed option) \<Rightarrow> json_file \<Rightarrow> nat \<Rightarrow> nat \<Rightarrow> 't \<Rightarrow> nat \<Rightarrow> 't json_state \<Rightarrow> 't json_state run" where
  "json_read parse cfg worker_index num_workers time 0 st = Inr st"
| "json_read parse cfg worker_index num_workers time (Suc n) st =
     (case json_unread st of
        [] \<Rightarrow> Inr st
      | Inl _ # _ \<Rightarrow> Inl ''read error''
      | Inr line # lines \<Rightarrow>
          run_bind (json_line parse cfg worker_index num_workers time line st)
            (\<lambda>st1. json_read parse cfg worker_index num_workers time n
               (st1 \<lparr> json_unread := lines, object_index := object_index st + 1 \<rparr>)))"

definition json_activate ::
  "(string \<Rightarrow> parsed option) \<Rightarrow> json_file \<Rightarrow> nat \<Rightarrow> nat \<Rightarrow> 't \<Rightarrow> 't json_state \<Rightarrow> 't json_state run" where
  "json_activate parse cfg worker_index num_workers time st =
     (if json_unread st \<noteq> [] then json_read parse cfg worker_index num_workers time (256 - 1) st
      else Inr (st \<lparr> holds_capabilities := False \<rparr>))"

fun json_run ::
  "(string \<Rightarrow> parsed option) \<Rightarrow> json_file \<Rightarrow> nat \<Rightarrow> nat \<Rightarrow> 't list \<Rightarrow> 't json_state \<Rightarrow> 't json_state run" where
  "json_run parse cfg worker_index num_workers [] st = Inr st"
| "json_run parse cfg worker_index num_workers (time # clocks) st =
     run_bind (json_activate parse cfg worker_index num_workers time st) (json_run parse cfg worker_index num_workers clocks)"

section \<open>What a worker reads\<close>

fun json_good :: "(string \<Rightarrow> parsed option) \<Rightarrow> json_file \<Rightarrow> string + string \<Rightarrow> bool" where
  "json_good parse cfg (Inl _) \<longleftrightarrow> False"
| "json_good parse cfg (Inr line) \<longleftrightarrow> line = [] \<or>
     (case parse line of
        Some (PObject obj_map) \<Rightarrow> list_all (\<lambda>a. case map_of obj_map a of None \<Rightarrow> True | Some j \<Rightarrow> returns (json_value j)) (json_aids cfg)
      | _ \<Rightarrow> False)"

text \<open>The pair of an attribute in a numbered line, and the pairs among the lines of one worker.\<close>

fun line_pairs :: "(string \<Rightarrow> parsed option) \<Rightarrow> aid \<Rightarrow> nat \<times> (string + string) \<Rightarrow> (df_value \<times> df_value) list" where
  "line_pairs parse a (i, Inr line) =
     (if line = [] then [] else
      case parse line of
        Some (PObject obj_map) \<Rightarrow> (case map_of obj_map a of Some j \<Rightarrow> [(Eid (of_nat i), projr (json_value j))] | None \<Rightarrow> [])
      | _ \<Rightarrow> [])"
| "line_pairs parse a (i, Inl _) = []"

definition pairs_of ::
  "(string \<Rightarrow> parsed option) \<Rightarrow> nat \<Rightarrow> nat \<Rightarrow> aid \<Rightarrow> (nat \<times> (string + string)) list \<Rightarrow> (df_value \<times> df_value) list" where
  "pairs_of parse worker_index num_workers a ls =
     concat (map (line_pairs parse a) (filter (\<lambda>(i, _). i mod num_workers = worker_index) ls))"

lemma json_object_good:
  assumes "json_good parse cfg (Inr line)" and "line \<noteq> []"
  shows "\<exists>datoms. json_object parse (json_aids cfg) i line = Inr datoms \<and> length datoms = length (json_aids cfg) \<and>
    (\<forall>idx < length (json_aids cfg). (case datoms ! idx of None \<Rightarrow> [] | Some pair \<Rightarrow> [pair]) = line_pairs parse (json_aids cfg ! idx) (i, Inr line))"
proof -
  from assms obtain obj_map where obj: "parse line = Some (PObject obj_map)"
    and good: "\<forall>a \<in> set (json_aids cfg). case map_of obj_map a of None \<Rightarrow> True | Some j \<Rightarrow> returns (json_value j)"
    by (auto simp: list_all_iff split: option.splits parsed.splits)
  let ?g = "\<lambda>a. map_option (\<lambda>j. (Eid (of_nat i), projr (json_value j))) (map_of obj_map a)"
  have "json_object parse (json_aids cfg) i line = run_map (\<lambda>a. case map_of obj_map a of
      None \<Rightarrow> Inr None | Some j \<Rightarrow> run_bind (json_value j) (\<lambda>v. Inr (Some (Eid (of_nat i), v)))) (json_aids cfg)"
    by (simp add: json_object_def obj)
  also have "\<dots> = Inr (map ?g (json_aids cfg))"
    using good by (intro run_map_total) (fastforce simp: returns_def split: option.splits)
  finally show ?thesis using assms(2) by (auto simp: obj split: option.splits)
qed

lemma json_give_nth:
  assumes "idx < length outs" and "length datoms = length outs"
  shows "json_give time datoms outs ! idx =
    outs ! idx @ map (\<lambda>pair. (pair, time, 1)) (case datoms ! idx of None \<Rightarrow> [] | Some pair \<Rightarrow> [pair])"
  using assms by (simp add: json_give_def split: option.splits)

lemma json_give_length: "length datoms = length outs \<Longrightarrow> length (json_give time datoms outs) = length outs"
  by (simp add: json_give_def)

lemma pairs_of_single: "pairs_of parse w n a [(i, l)] = (if i mod n = w then line_pairs parse a (i, l) else [])"
  by (simp add: pairs_of_def)

lemma json_line_exact:
  assumes "json_good parse cfg (Inr line)" and "length (json_outputs st) = length (json_aids cfg)"
  shows "\<exists>st1. json_line parse cfg w n time line st = Inr st1 \<and> object_index st1 = object_index st \<and>
    holds_capabilities st1 = holds_capabilities st \<and> length (json_outputs st1) = length (json_aids cfg) \<and>
    (\<forall>idx < length (json_aids cfg). json_outputs st1 ! idx = json_outputs st ! idx @
      map (\<lambda>pair. (pair, time, 1)) (pairs_of parse w n (json_aids cfg ! idx) [(object_index st, Inr line)]))"
proof (cases "object_index st mod n = w \<and> line \<noteq> []")
  case True
  with json_object_good[OF assms(1), of "object_index st"] obtain datoms where
    "json_object parse (json_aids cfg) (object_index st) line = Inr datoms" "length datoms = length (json_aids cfg)"
    "\<forall>idx < length (json_aids cfg). (case datoms ! idx of None \<Rightarrow> [] | Some pair \<Rightarrow> [pair]) =
      line_pairs parse (json_aids cfg ! idx) (object_index st, Inr line)" by blast
  with assms(2) True show ?thesis
    by (simp add: json_line_def json_give_nth pairs_of_single json_give_length del: line_pairs.simps)
next
  case False
  then show ?thesis using assms(2) by (auto simp: json_line_def pairs_of_single)
qed

lemma json_read_exact:
  assumes "list_all (json_good parse cfg) (json_unread st)" and "length (json_outputs st) = length (json_aids cfg)"
  shows "\<exists>st'. json_read parse cfg w n time k st = Inr st' \<and> json_unread st' = drop k (json_unread st) \<and>
    object_index st' = object_index st + min k (length (json_unread st)) \<and> length (json_outputs st') = length (json_aids cfg) \<and>
    holds_capabilities st' = holds_capabilities st \<and>
    (\<forall>idx < length (json_aids cfg). json_outputs st' ! idx = json_outputs st ! idx @
       map (\<lambda>pair. (pair, time, 1)) (pairs_of parse w n (json_aids cfg ! idx) (enumerate (object_index st) (take k (json_unread st)))))"
  using assms
proof (induction k arbitrary: st)
  case 0
  then show ?case by (simp add: pairs_of_def)
next
  case (Suc k)
  show ?case
  proof (cases "json_unread st")
    case Nil
    then show ?thesis using Suc.prems by (simp add: pairs_of_def)
  next
    case (Cons l ls)
    then obtain line where l: "l = Inr line" using Suc.prems(1) by (cases l) auto
    then have "json_good parse cfg (Inr line)" using Suc.prems(1) Cons by simp
    from json_line_exact[OF this Suc.prems(2)] obtain st1 where st1: "json_line parse cfg w n time line st = Inr st1"
      "object_index st1 = object_index st" "holds_capabilities st1 = holds_capabilities st" "length (json_outputs st1) = length (json_aids cfg)"
      "\<forall>idx < length (json_aids cfg). json_outputs st1 ! idx = json_outputs st ! idx @
          map (\<lambda>pair. (pair, time, 1)) (pairs_of parse w n (json_aids cfg ! idx) [(object_index st, l)])" unfolding l by blast
    let ?st = "st1 \<lparr> json_unread := ls, object_index := object_index st + 1 \<rparr>"
    from Suc.IH[of ?st] Suc.prems(1) st1(4) Cons obtain st' where
      st': "json_read parse cfg w n time k ?st = Inr st'" "json_unread st' = drop k ls" "object_index st' = object_index st + 1 + min k (length ls)"
        "length (json_outputs st') = length (json_aids cfg)" "holds_capabilities st' = holds_capabilities st1"
        "\<forall>idx < length (json_aids cfg). json_outputs st' ! idx = json_outputs st1 ! idx @
           map (\<lambda>pair. (pair, time, 1)) (pairs_of parse w n (json_aids cfg ! idx) (enumerate (object_index st + 1) (take k ls)))" by auto
    have "json_read parse cfg w n time (Suc k) st = Inr st'" using st1(1) st'(1) by (simp add: Cons l)
    moreover have "pairs_of parse w n (json_aids cfg ! idx) (enumerate i (take (Suc k) (l # ls))) =
        pairs_of parse w n (json_aids cfg ! idx) [(i, l)] @ pairs_of parse w n (json_aids cfg ! idx) (enumerate (i + 1) (take k ls))" for idx i
      by (simp add: pairs_of_def)
    ultimately show ?thesis using st1 st' by (simp add: Cons)
  qed
qed

lemma pairs_of_append: "pairs_of parse w n a (xs @ ys) = pairs_of parse w n a xs @ pairs_of parse w n a ys"
  by (simp add: pairs_of_def)

lemma json_activate_exact:
  assumes "list_all (json_good parse cfg) (json_unread st)" and "length (json_outputs st) = length (json_aids cfg)"
  shows "\<exists>st1. json_activate parse cfg w n c st = Inr st1 \<and> json_unread st1 = drop 255 (json_unread st) \<and>
    (json_unread st \<noteq> [] \<longrightarrow> object_index st1 = object_index st + min 255 (length (json_unread st))) \<and>
    length (json_outputs st1) = length (json_aids cfg) \<and>
    (holds_capabilities st1 \<longleftrightarrow> holds_capabilities st \<and> json_unread st \<noteq> []) \<and>
    (\<forall>idx < length (json_aids cfg). map fst (json_outputs st1 ! idx) = map fst (json_outputs st ! idx) @
      pairs_of parse w n (json_aids cfg ! idx) (enumerate (object_index st) (take 255 (json_unread st))))"
proof (cases "json_unread st = []")
  case True
  then show ?thesis using assms(2) by (simp add: json_activate_def pairs_of_def)
next
  case False
  with json_read_exact[OF assms, of w n c 255] show ?thesis by (auto simp: json_activate_def comp_def)
qed

text \<open>Each activation reads 255 more lines, and the first one that finds none gives up the capabilities.\<close>

lemma json_run_exact:
  assumes "list_all (json_good parse cfg) (json_unread st)" and "length (json_outputs st) = length (json_aids cfg)"
  shows "\<exists>st'. json_run parse cfg w n clocks st = Inr st' \<and>
    (holds_capabilities st' \<longleftrightarrow> holds_capabilities st \<and> (255 * (length clocks - 1) < length (json_unread st) \<or> clocks = [])) \<and>
    (\<forall>idx < length (json_aids cfg). map fst (json_outputs st' ! idx) = map fst (json_outputs st ! idx) @
       pairs_of parse w n (json_aids cfg ! idx) (enumerate (object_index st) (take (255 * length clocks) (json_unread st))))"
  using assms
proof (induction clocks arbitrary: st)
  case Nil
  then show ?case by (simp add: pairs_of_def)
next
  case (Cons c clocks)
  let ?ls = "json_unread st"
  from json_activate_exact[OF Cons.prems] obtain st1 where st1: "json_activate parse cfg w n c st = Inr st1" "json_unread st1 = drop 255 ?ls"
    "?ls \<noteq> [] \<Longrightarrow> object_index st1 = object_index st + min 255 (length ?ls)" "length (json_outputs st1) = length (json_aids cfg)"
    "holds_capabilities st1 \<longleftrightarrow> holds_capabilities st \<and> ?ls \<noteq> []"
    "\<forall>idx < length (json_aids cfg). map fst (json_outputs st1 ! idx) = map fst (json_outputs st ! idx) @
        pairs_of parse w n (json_aids cfg ! idx) (enumerate (object_index st) (take 255 ?ls))" by blast
  have "list_all (json_good parse cfg) (json_unread st1)"
    using Cons.prems(1) st1(2) by (auto simp: list_all_iff dest: in_set_dropD)
  from Cons.IH[OF this st1(4)] obtain st' where st': "json_run parse cfg w n clocks st1 = Inr st'"
    "holds_capabilities st' \<longleftrightarrow> holds_capabilities st1 \<and> (255 * (length clocks - 1) < length (json_unread st1) \<or> clocks = [])"
    "\<forall>idx < length (json_aids cfg). map fst (json_outputs st' ! idx) = map fst (json_outputs st1 ! idx) @
       pairs_of parse w n (json_aids cfg ! idx) (enumerate (object_index st1) (take (255 * length clocks) (json_unread st1)))" by blast
  have holds: "holds_capabilities st' \<longleftrightarrow> holds_capabilities st \<and> 255 * length clocks < length ?ls"
    using st1(2,5) st'(2) by (cases clocks) auto
  have lines: "enumerate (object_index st) (take (255 + 255 * length clocks) ?ls) =
      enumerate (object_index st) (take 255 ?ls) @ enumerate (object_index st1) (take (255 * length clocks) (json_unread st1))"
  proof (cases "length ?ls \<le> 255")
    case True
    then show ?thesis by (simp add: st1(2))
  next
    case False
    then have "object_index st1 = object_index st + 255" using st1(3) by fastforce
    with False show ?thesis by (simp add: st1(2) take_add enumerate_append_eq)
  qed
  show ?case using st1(1,6) st'(1,3) by (simp add: holds lines pairs_of_append)
qed

text \<open>The lines of the workers together.\<close>

lemma sum_workers:
  assumes "0 < (n :: nat)"
  shows "(\<Sum>w<n. mset (pairs_of parse w n a ls)) = mset (concat (map (line_pairs parse a) ls))"
proof (induction ls)
  case (Cons l ls)
  obtain i x where l: "l = (i, x)" by (cases l)
  have "pairs_of parse w n a (l # ls) = (if i mod n = w then line_pairs parse a l else []) @ pairs_of parse w n a ls" for w
    by (simp add: pairs_of_def l)
  then have "mset (pairs_of parse w n a (l # ls)) = (if i mod n = w then mset (line_pairs parse a l) else {#}) + mset (pairs_of parse w n a ls)" for w
    by simp
  then have "(\<Sum>w<n. mset (pairs_of parse w n a (l # ls))) =
      (\<Sum>w<n. if i mod n = w then mset (line_pairs parse a l) else {#}) + (\<Sum>w<n. mset (pairs_of parse w n a ls))"
    by (simp add: sum.distrib)
  moreover have "(\<Sum>w<n. if i mod n = w then mset (line_pairs parse a l) else {#}) = mset (line_pairs parse a l)"
    using assms by (subst sum.delta') auto
  ultimately show ?case using Cons by simp
qed (simp add: pairs_of_def)

text \<open>C17: Once every worker has been activated often enough it has given up its capabilities, and the workers together have
  sent, for every attribute, the pair of each line exactly once.\<close>

theorem json_source_partition:
  assumes "0 < n" and "files (json_path cfg) = Some lines" and "list_all (json_good parse cfg) lines"
    and "\<And>w. w < n \<Longrightarrow> length lines \<le> 255 * (length (clocks w) - 1) \<and> clocks w \<noteq> []"
  shows "\<exists>sts. (\<forall>w < n. run_bind (json_start files cfg) (json_run parse cfg w n (clocks w)) = Inr (sts w) \<and> \<not> holds_capabilities (sts w)) \<and>
    (\<forall>idx < length (json_aids cfg).
      (\<Sum>w<n. mset (map fst (json_outputs (sts w) ! idx))) = mset (concat (map (line_pairs parse (json_aids cfg ! idx)) (enumerate 0 lines))))"
proof -
  let ?st = "\<lparr> json_unread = lines, object_index = 0, num_objects_read = 0, holds_capabilities = True, json_outputs = map (\<lambda>_. []) (json_aids cfg) \<rparr>"
  have start: "json_start files cfg = Inr ?st" using assms(2) by (simp add: json_start_def)
  have "\<forall>w. \<exists>st'. w < n \<longrightarrow> run_bind (json_start files cfg) (json_run parse cfg w n (clocks w)) = Inr st' \<and> \<not> holds_capabilities st' \<and>
      (\<forall>idx < length (json_aids cfg). map fst (json_outputs st' ! idx) = pairs_of parse w n (json_aids cfg ! idx) (enumerate 0 lines))"
  proof
    fix w
    show "\<exists>st'. w < n \<longrightarrow> run_bind (json_start files cfg) (json_run parse cfg w n (clocks w)) = Inr st' \<and> \<not> holds_capabilities st' \<and>
      (\<forall>idx < length (json_aids cfg). map fst (json_outputs st' ! idx) = pairs_of parse w n (json_aids cfg ! idx) (enumerate 0 lines))"
    proof (cases "w < n")
      case True
      have "length lines \<le> 255 * length (clocks w)" using assms(4)[OF True] by (cases "clocks w") auto
      with json_run_exact[of parse cfg ?st w n "clocks w"] assms(3) assms(4)[OF True] show ?thesis by (auto simp: start)
    qed simp
  qed
  then obtain sts where sts: "\<And>w. w < n \<Longrightarrow> run_bind (json_start files cfg) (json_run parse cfg w n (clocks w)) = Inr (sts w) \<and> \<not> holds_capabilities (sts w) \<and>
      (\<forall>idx < length (json_aids cfg). map fst (json_outputs (sts w) ! idx) = pairs_of parse w n (json_aids cfg ! idx) (enumerate 0 lines))"
    by metis
  then have "(\<Sum>w<n. mset (map fst (json_outputs (sts w) ! idx))) = mset (concat (map (line_pairs parse (json_aids cfg ! idx)) (enumerate 0 lines)))"
    if "idx < length (json_aids cfg)" for idx
    using that unfolding sum_workers[OF assms(1), symmetric] by (intro sum.cong) (auto simp flip: mset_map)
  with sts show ?thesis by blast
qed

definition small_json :: json_file where
  "small_json = \<lparr> json_path = ''people.json'', json_aids = [''name'', ''age''] \<rparr>"

definition small_lines :: "(string + string) list" where
  "small_lines = [Inr ''a'', Inr [], Inr ''b'']"

fun small_parse :: "string \<Rightarrow> parsed option" where
  "small_parse line = Some (PObject (if line = ''a'' then [(''name'', PString ''Alice''), (''age'', PNumber (Some 30))] else [(''name'', PString ''Bob'')]))"

theorem json_source_partition_witness:
  "\<exists>sts :: nat \<Rightarrow> nat json_state. (\<forall>w < 2. \<not> holds_capabilities (sts w)) \<and>
    (\<Sum>w<2. mset (map fst (json_outputs (sts w) ! 0))) = {#(Eid 0, String ''Alice''), (Eid 2, String ''Bob'')#}"
proof -
  have good: "list_all (json_good small_parse small_json) small_lines"
    by (simp add: small_json_def small_lines_def returns_def)
  have "length small_lines \<le> 255 * (length [0, 1 :: nat] - 1) \<and> [0, 1 :: nat] \<noteq> []" by (simp add: small_lines_def)
  then obtain sts :: "nat \<Rightarrow> nat json_state" where "\<forall>w < 2. \<not> holds_capabilities (sts w)"
    "\<forall>idx < length (json_aids small_json). (\<Sum>w<2. mset (map fst (json_outputs (sts w) ! idx))) =
      mset (concat (map (line_pairs small_parse (json_aids small_json ! idx)) (enumerate 0 small_lines)))"
    using json_source_partition[of 2 "\<lambda>_. Some small_lines" small_json small_lines small_parse "\<lambda>_. [0, 1]"] good by auto
  then show ?thesis by (intro exI[of _ sts]) (simp add: small_json_def small_lines_def)
qed

end
