(* ===== verification/Csv_Sink.thy ===== *)
theory Csv_Sink
  imports Values Timestamps
begin

text \<open>
  The CSV sink of \<^verbatim>\<open>src/src/sinks/csv_file.rs\<close>, whose module is commented out. It keeps the results it has received until the
  frontier of its input has passed their times, and then writes them in the order of their times. The writer belongs to
  the crate \<^verbatim>\<open>csv\<close>: whether the file can be created and a record can be written are arguments.
\<close>

record csv_sink =
  sink_path :: string
  sink_has_headers :: bool
  sink_delimiter :: "8 word"
  sink_flexible :: bool

record csv_sink_state =
  recvd :: "(u64 \<times> tuple) list"
  csv_written :: "tuple list"

text \<open>The option for records of different lengths is not handed to the writer.\<close>

definition csv_sink_start :: "(bool \<Rightarrow> 8 word \<Rightarrow> string \<Rightarrow> string + unit) \<Rightarrow> csv_sink \<Rightarrow> error + csv_sink_state" where
  "csv_sink_start from_path cfg =
     (case from_path (sink_has_headers cfg) (sink_delimiter cfg) (sink_path cfg) of
        Inl e \<Rightarrow> Inl (fault (''Failed to create writer: '' @ e))
      | Inr _ \<Rightarrow> Inr \<lparr> recvd = [], csv_written = [] \<rparr>)"

definition frontier_reached :: "u64 list \<Rightarrow> u64 \<Rightarrow> bool" where
  "frontier_reached frontier time \<longleftrightarrow> (\<exists>f \<in> set frontier. f \<le> time)"

fun serialize_all :: "(tuple \<Rightarrow> bool) \<Rightarrow> (u64 \<times> tuple) list \<Rightarrow> tuple list run" where
  "serialize_all serializes [] = Inr []"
| "serialize_all serializes ((_, tup) # rows) =
     (if serializes tup then run_bind (serialize_all serializes rows) (\<lambda>rest. Inr (tup # rest)) else Inl ''failed to write record'')"

text \<open>One activation: the batches received, and the frontier.\<close>

definition csv_sink_step ::
  "(tuple \<Rightarrow> bool) \<Rightarrow> (tuple \<times> u64 \<times> int) list list \<Rightarrow> u64 list \<Rightarrow> csv_sink_state \<Rightarrow> csv_sink_state run" where
  "csv_sink_step serializes input frontier st =
     (let received = sort_key fst (recvd st @ concat (map (map (\<lambda>(tup, time, diff). (time, tup))) input));
          count = length (filter (\<lambda>(time, _). \<not> frontier_reached frontier time) received) in
      run_bind (serialize_all serializes (take count received)) (\<lambda>rows.
        Inr \<lparr> recvd = drop count received, csv_written = csv_written st @ rows \<rparr>))"

fun csv_sink_run ::
  "(tuple \<Rightarrow> bool) \<Rightarrow> ((tuple \<times> u64 \<times> int) list list \<times> u64 list) list \<Rightarrow> csv_sink_state \<Rightarrow> csv_sink_state run" where
  "csv_sink_run serializes [] st = Inr st"
| "csv_sink_run serializes ((input, frontier) # steps) st =
     run_bind (csv_sink_step serializes input frontier st) (csv_sink_run serializes steps)"

section \<open>Order\<close>

lemma frontier_reached_mono: "frontier_reached F s \<Longrightarrow> s \<le> t \<Longrightarrow> frontier_reached F t"
  unfolding frontier_reached_def by (meson order_trans)

text \<open>The rows whose times are passed come first.\<close>

lemma sorted_split:
  assumes "sorted (map fst xs)"
  shows "xs = filter (\<lambda>x. \<not> frontier_reached F (fst x)) xs @ filter (\<lambda>x. frontier_reached F (fst x)) xs"
  using assms
proof (induction xs)
  case (Cons x xs)
  show ?case
  proof (cases "frontier_reached F (fst x)")
    case True
    then have all: "\<forall>y \<in> set (x # xs). frontier_reached F (fst y)" using Cons.prems by (auto intro: frontier_reached_mono)
    then have "filter (\<lambda>x. \<not> frontier_reached F (fst x)) (x # xs) = []" "filter (\<lambda>x. frontier_reached F (fst x)) (x # xs) = x # xs"
      by (auto simp: filter_empty_conv intro!: filter_True)
    then show ?thesis by simp
  next
    case False
    with Cons show ?thesis by simp
  qed
qed simp

lemma sorted_take_drop:
  assumes "sorted (map fst xs)"
  shows "take (length (filter (\<lambda>x. \<not> frontier_reached F (fst x)) xs)) xs = filter (\<lambda>x. \<not> frontier_reached F (fst x)) xs"
    and "drop (length (filter (\<lambda>x. \<not> frontier_reached F (fst x)) xs)) xs = filter (\<lambda>x. frontier_reached F (fst x)) xs"
  using sorted_split[OF assms, of F] by (metis append_eq_conv_conj)+

lemma sort_key_append_sorted: "sort_key f (sort_key f xs @ ys) = sort_key f (xs @ ys)"
proof (rule properties_for_sort_key)
  show "mset (sort_key f (xs @ ys)) = mset (sort_key f xs @ ys)" by simp
  show "filter (\<lambda>x. f k = f x) (sort_key f (xs @ ys)) = filter (\<lambda>x. f k = f x) (sort_key f xs @ ys)" for k
    using sort_key_stable[of f "f k"] by (simp add: eq_commute)
  show "sorted (map f (sort_key f (xs @ ys)))" by simp
qed

lemma serialize_all_ok: "\<forall>(_, tup) \<in> set rows. serializes tup \<Longrightarrow> serialize_all serializes rows = Inr (map snd rows)"
  by (induction serializes rows rule: serialize_all.induct) auto

definition rows_of :: "(tuple \<times> u64 \<times> int) list list \<Rightarrow> (u64 \<times> tuple) list" where
  "rows_of input = concat (map (map (\<lambda>(tup, time, diff). (time, tup))) input)"

text \<open>What timely promises of the input: frontiers only advance, and no time behind the frontier arrives.\<close>

fun in_order :: "u64 list \<Rightarrow> ((tuple \<times> u64 \<times> int) list list \<times> u64 list) list \<Rightarrow> bool" where
  "in_order F [] \<longleftrightarrow> True"
| "in_order F ((input, F') # steps) \<longleftrightarrow> (\<forall>x \<in> set (rows_of input). frontier_reached F (fst x)) \<and>
     (\<forall>f' \<in> set F'. frontier_reached F f') \<and> in_order F' steps"

definition passed :: "u64 list \<Rightarrow> (u64 \<times> tuple) list \<Rightarrow> (u64 \<times> tuple) list" where
  "passed F rows = filter (\<lambda>x. \<not> frontier_reached F (fst x)) (sort_key fst rows)"

definition kept :: "u64 list \<Rightarrow> (u64 \<times> tuple) list \<Rightarrow> (u64 \<times> tuple) list" where
  "kept F rows = filter (\<lambda>x. frontier_reached F (fst x)) (sort_key fst rows)"

lemma csv_sink_step_exact:
  assumes "recvd st = kept F rows" and "csv_written st = map snd (passed F rows)"
    and "\<forall>x \<in> set (rows_of input). frontier_reached F (fst x)" and "\<forall>f' \<in> set F'. frontier_reached F f'"
    and "\<forall>(_, tup) \<in> set (rows @ rows_of input). serializes tup"
  shows "csv_sink_step serializes input F' st =
    Inr \<lparr> recvd = kept F' (rows @ rows_of input), csv_written = map snd (passed F' (rows @ rows_of input)) \<rparr>"
proof -
  let ?all = "sort_key fst (rows @ rows_of input)" and ?P = "\<lambda>F x. frontier_reached F (fst x)"
  have mono: "frontier_reached F t" if "frontier_reached F' t" for t
    using that assms(4) by (auto simp: frontier_reached_def) (meson order_trans)
  have new: "filter (?P F) (rows_of input) = rows_of input" "filter (\<lambda>x. \<not> ?P F x) (rows_of input) = []"
    using assms(3) by (auto simp: filter_empty_conv intro: filter_True)
  have received: "sort_key fst (recvd st @ rows_of input) = filter (?P F) ?all" (is "?received = _")
    unfolding assms(1) kept_def filter_sort sort_key_append_sorted by (simp add: new)
  have old: "filter (\<lambda>x. \<not> ?P F x) ?all = passed F rows" unfolding passed_def filter_sort by (simp add: new)
  have sorted: "sorted (map fst ?received)" by simp
  have count: "length (filter (\<lambda>(time, _). \<not> frontier_reached F' time) ?received) = length (filter (\<lambda>x. \<not> ?P F' x) ?received)"
    by (simp add: case_prod_beta')
  have kept: "filter (?P F') ?received = kept F' (rows @ rows_of input)"
    unfolding received kept_def filter_filter by (rule filter_cong) (auto dest: mono)
  have "filter (\<lambda>x. \<not> ?P F' x) ?all = filter (\<lambda>x. \<not> ?P F x) (filter (\<lambda>x. \<not> ?P F' x) ?all) @ filter (?P F) (filter (\<lambda>x. \<not> ?P F' x) ?all)"
    by (rule sorted_split) (simp add: filter_sort)
  also have "\<dots> = passed F rows @ filter (\<lambda>x. \<not> ?P F' x) ?received"
    unfolding old[symmetric] received filter_filter by (auto intro!: arg_cong2[where f = append] filter_cong dest: mono)
  finally have passed: "passed F' (rows @ rows_of input) = passed F rows @ filter (\<lambda>x. \<not> ?P F' x) ?received" by (simp add: passed_def)
  have "set (filter (\<lambda>x. \<not> ?P F' x) ?received) \<subseteq> set (rows @ rows_of input)" unfolding received by auto
  then have "serialize_all serializes (filter (\<lambda>x. \<not> ?P F' x) ?received) = Inr (map snd (filter (\<lambda>x. \<not> ?P F' x) ?received))"
    using assms(5) by (intro serialize_all_ok) blast
  then show ?thesis using assms(2)
    by (simp add: csv_sink_step_def Let_def count sorted_take_drop[OF sorted] kept passed flip: rows_of_def)
qed

lemma csv_sink_run_exact:
  assumes "recvd st = kept F rows" and "csv_written st = map snd (passed F rows)" and "in_order F steps"
    and "\<forall>(_, tup) \<in> set (rows @ concat (map (\<lambda>(input, _). rows_of input) steps)). serializes tup"
  shows "csv_sink_run serializes steps st =
    Inr \<lparr> recvd = kept (last (F # map snd steps)) (rows @ concat (map (\<lambda>(input, _). rows_of input) steps)),
      csv_written = map snd (passed (last (F # map snd steps)) (rows @ concat (map (\<lambda>(input, _). rows_of input) steps))) \<rparr>"
  using assms
proof (induction steps arbitrary: F rows st)
  case Nil
  then show ?case by (cases st) simp
next
  case (Cons s steps)
  obtain input F' where s: "s = (input, F')" by (cases s)
  let ?st = "\<lparr> recvd = kept F' (rows @ rows_of input), csv_written = map snd (passed F' (rows @ rows_of input)) \<rparr>"
  have "csv_sink_step serializes input F' st = Inr ?st"
    using Cons.prems by (intro csv_sink_step_exact[where F = F]) (auto simp: s)
  moreover have "csv_sink_run serializes steps ?st =
      Inr \<lparr> recvd = kept (last (F' # map snd steps)) ((rows @ rows_of input) @ concat (map (\<lambda>(input, _). rows_of input) steps)),
        csv_written = map snd (passed (last (F' # map snd steps)) ((rows @ rows_of input) @ concat (map (\<lambda>(input, _). rows_of input) steps))) \<rparr>"
    using Cons.prems by (intro Cons.IH) (auto simp: s)
  ultimately show ?case by (simp add: s)
qed

text \<open>C13: The CSV sink writes the results whose times are complete, each once, in the order of their times and, at one time, of
  their arrival, and keeps the others. The difference of a result is not looked at, so a retraction is written like an
  addition.\<close>

theorem csv_sink_exact:
  assumes "csv_sink_start from_path cfg = Inr st" and "in_order [0] steps"
    and "\<forall>(_, tup) \<in> set (concat (map (\<lambda>(input, _). rows_of input) steps)). serializes tup"
  shows "\<exists>st'. csv_sink_run serializes steps st = Inr st' \<and>
    csv_written st' = map snd (passed (last ([0] # map snd steps)) (concat (map (\<lambda>(input, _). rows_of input) steps))) \<and>
    recvd st' = kept (last ([0] # map snd steps)) (concat (map (\<lambda>(input, _). rows_of input) steps))"
proof -
  have "recvd st = kept [0] []" "csv_written st = map snd (passed [0] [])"
    using assms(1) by (auto simp: csv_sink_start_def kept_def passed_def split: sum.splits)
  from csv_sink_run_exact[OF this assms(2)] assms(3) show ?thesis by simp
qed

definition small_steps :: "((tuple \<times> u64 \<times> int) list list \<times> u64 list) list" where
  "small_steps = [([[([Eid 1], 5, 1), ([Eid 2], 3, 1)]], [4]), ([[([Eid 3], 4, - 1)]], [])]"

definition small_sink :: csv_sink where
  "small_sink = \<lparr> sink_path = ''out.csv'', sink_has_headers = False, sink_delimiter = 44, sink_flexible = False \<rparr>"

theorem csv_sink_exact_witness:
  "\<exists>st'. csv_sink_run (\<lambda>_. True) small_steps \<lparr> recvd = [], csv_written = [] \<rparr> = Inr st' \<and> csv_written st' = [[Eid 2], [Eid 3], [Eid 1]]"
proof -
  have "csv_sink_start (\<lambda>_ _ _. Inr ()) small_sink = Inr \<lparr> recvd = [], csv_written = [] \<rparr>" "in_order [0] small_steps"
    "\<forall>(_, tup) \<in> set (concat (map (\<lambda>(input, _). rows_of input) small_steps)). True"
    by (simp_all add: csv_sink_start_def small_steps_def rows_of_def frontier_reached_def)
  from csv_sink_exact[OF this] obtain st' where "csv_sink_run (\<lambda>_. True) small_steps \<lparr> recvd = [], csv_written = [] \<rparr> = Inr st'"
    "csv_written st' = map snd (passed (last ([0] # map snd small_steps)) (concat (map (\<lambda>(input, _). rows_of input) small_steps)))" by blast
  then show ?thesis by (auto simp: small_steps_def rows_of_def passed_def frontier_reached_def)
qed

end
