(* ===== verification/Command_Line.thy ===== *)
theory Command_Line
  imports Sources
begin

text \<open>
  The configuration of a server process, from \<^verbatim>\<open>src/server/src/main.rs\<close>. Splitting the arguments into options is up to an external
  crate: its result is the argument, as are the lines of the host file and the contents of the configuration file.
\<close>

section \<open>Configuration\<close>

record process_configuration =
  port :: "16 word"
  config_path :: "string option"
  threads :: usize
  processes :: usize
  addresses :: "string list"
  timely_pid :: usize
  report :: bool

definition default_process_configuration :: process_configuration where
  "default_process_configuration =
     \<lparr> port = 6262, config_path = None, threads = 1, processes = 1, addresses = [''localhost:2101''], timely_pid = 0, report = False \<rparr>"

record matches =
  opt_str :: "string \<Rightarrow> string option"
  opt_present :: "string \<Rightarrow> bool"

definition parse_usize :: "string \<Rightarrow> usize option" where
  "parse_usize s = map_option unat (parse_u64 s)"

definition parse_u16 :: "string \<Rightarrow> 16 word option" where
  "parse_u16 s = (case parse_usize s of None \<Rightarrow> None | Some n \<Rightarrow> if n < 2 ^ 16 then Some (of_nat n) else None)"

definition option_or :: "(string \<Rightarrow> 'a option) \<Rightarrow> string \<Rightarrow> 'a \<Rightarrow> string option \<Rightarrow> 'a run" where
  "option_or parse msg d opt = (case opt of None \<Rightarrow> Inr d | Some s \<Rightarrow> expect msg (parse s))"

definition host_addresses :: "(string \<Rightarrow> string list option) \<Rightarrow> string option \<Rightarrow> usize \<Rightarrow> string list run" where
  "host_addresses host_file hosts n =
     (case hosts of
        Some filename \<Rightarrow>
          (case host_file filename of
             None \<Rightarrow> Inl ''called Result::unwrap() on an Err value''
           | Some ls \<Rightarrow> if length (take n ls) < n then Inl (''could only read '' @ decimal (length (take n ls)) @ '' addresses from '' @ filename @
                 '', but -n: '' @ decimal n)
               else Inr (take n ls))
      | None \<Rightarrow> Inr (map (\<lambda>index. ''localhost:'' @ decimal (2101 + index)) [0..<n]))"

definition from_args :: "(string \<Rightarrow> string list option) \<Rightarrow> matches option \<Rightarrow> process_configuration run" where
  "from_args host_file parsed =
     (case parsed of
        None \<Rightarrow> Inl ''failed to parse arguments''
      | Some m \<Rightarrow>
          (let d = default_process_configuration in
           run_bind (option_or parse_u16 ''failed to parse port'' (port d) (opt_str m ''port'')) (\<lambda>prt.
           run_bind (option_or parse_usize ''failed to parse threads'' (threads d) (opt_str m ''w'')) (\<lambda>w.
           run_bind (option_or parse_usize ''failed to parse process id'' (timely_pid d) (opt_str m ''p'')) (\<lambda>pid.
           run_bind (option_or parse_usize ''failed to parse processes'' (processes d) (opt_str m ''n'')) (\<lambda>n.
           run_bind (host_addresses host_file (opt_str m ''h'') n) (\<lambda>addrs.
           if n \<noteq> length addrs then Inl ''assertion failed: processes == addresses.len()''
           else if \<not> pid < n then Inl ''assertion failed: timely_pid < processes''
           else Inr \<lparr> port = prt, config_path = opt_str m ''config'', threads = w, processes = n, addresses = addrs,
             timely_pid = pid, report = opt_present m ''report'' \<rparr>)))))))"

definition into_server_configuration ::
  "(string \<Rightarrow> string option) \<Rightarrow> (string \<Rightarrow> server_configuration option) \<Rightarrow> process_configuration \<Rightarrow> server_configuration run" where
  "into_server_configuration read_file parse_config cfg =
     (case config_path cfg of
        None \<Rightarrow> Inr default_configuration
      | Some filename \<Rightarrow> run_bind (expect ''failed to open server configuration file'' (read_file filename))
          (\<lambda>text. expect ''failed to parse configuration'' (parse_config text)))"

datatype timely_configuration =
    Cluster usize usize "string list" bool
  | Process usize
  | Thread

definition into_timely_configuration :: "process_configuration \<Rightarrow> timely_configuration" where
  "into_timely_configuration cfg =
     (if processes cfg > 1 then Cluster (threads cfg) (timely_pid cfg) (addresses cfg) (report cfg)
      else if threads cfg > 1 then Process (threads cfg)
      else Thread)"

section \<open>Properties\<close>

lemma host_addresses_length: "host_addresses host_file hosts n = Inr addrs \<Longrightarrow> length addrs = n"
  by (auto simp: host_addresses_def split: option.splits if_splits)

text \<open>Every configuration the process accepts is consistent: there is an address for each process and the index of this
  process is among them, so a process of a cluster always has an address of its own.\<close>

theorem configuration_consistent:
  assumes "from_args host_file parsed = Inr cfg"
  shows "length (addresses cfg) = processes cfg \<and> timely_pid cfg < processes cfg \<and>
    (\<forall>w pid addrs rep. into_timely_configuration cfg = Cluster w pid addrs rep \<longrightarrow> 1 < length addrs \<and> pid < length addrs)"
proof -
  from assms have "length (addresses cfg) = processes cfg \<and> timely_pid cfg < processes cfg"
    by (auto simp: from_args_def run_simps Let_def split: option.splits if_splits)
  then show ?thesis by (auto simp: into_timely_configuration_def split: if_splits)
qed

theorem configuration_consistent_witness:
  "\<exists>cfg. from_args (\<lambda>_. None) (Some \<lparr> opt_str = [''n'' \<mapsto> ''3'', ''p'' \<mapsto> ''2''], opt_present = (\<lambda>_. False) \<rparr>) = Inr cfg \<and>
     length (addresses cfg) = 3 \<and> timely_pid cfg < processes cfg"
proof -
  let ?m = "\<lparr> opt_str = [''n'' \<mapsto> ''3'', ''p'' \<mapsto> ''2''], opt_present = (\<lambda>_. False) \<rparr>"
  have "\<exists>cfg. from_args (\<lambda>_. None) (Some ?m) = Inr cfg \<and> processes cfg = 3"
    by (simp add: from_args_def option_or_def default_process_configuration_def host_addresses_def expect_def parse_usize_def parse_u64_def
        parse_nat_def digit_of_def)
  then obtain cfg where "from_args (\<lambda>_. None) (Some ?m) = Inr cfg" "processes cfg = 3" by blast
  with configuration_consistent[OF this(1)] show ?thesis by auto
qed

end
