(* ===== verification/Spec2Isabelle.thy ===== *)
theory Spec2Isabelle
  imports Timestamps Transforms Set_Aggregates Server_Epochs Interests Documents Logging_Sources Json_Source Csv_Sink Command_Line
begin

text \<open>
  \<^bold>\<open>Verification of declarative-dataflow\<close>

  The program is a reactive query engine on top of timely and differential dataflow. Clients transact datoms
  (entity, attribute, value, time, diff) into the attributes of a \<^emph>\<open>domain\<close>, register named \<^emph>\<open>rules\<close> whose bodies are query
  \<^emph>\<open>plans\<close>, and express \<^emph>\<open>interest\<close> in a name. The server then collects the rules the name needs, implements their plans
  as one dataflow over the indices of the domain, and streams changes of the result as the domain advances.

  \<^bold>\<open>Theories and sources.\<close>
  \<^item> \<open>Prelude\<close>: Rust panics as a sum type (\<open>run\<close>, \<open>run_bind\<close>), indexing, hash maps as association lists, lists, words.
  \<^item> \<open>Timestamps\<close> (\<^verbatim>\<open>src/src/timestamp\<close>): lattices, \<^verbatim>\<open>Rewind\<close>, \<^verbatim>\<open>Coarsen\<close>, \<^verbatim>\<open>Pair\<close>, \<^verbatim>\<open>AltNeu\<close>, \<^verbatim>\<open>Time\<close>.
  \<^item> \<open>Values\<close> (\<^verbatim>\<open>src/src/lib.rs\<close>): values, errors, datoms, attribute configurations, shutdown handles.
  \<^item> \<open>Collections\<close>, \<open>Operators\<close>: differential collections as update lists, their multiplicities, and the laws of the
    operators of differential dataflow (distinct, join, antijoin, reduce) with an instance that satisfies them.
  \<^item> \<open>Bindings\<close> (\<^verbatim>\<open>src/src/binding\<close>): what a binding binds and when it can extend a prefix.
  \<^item> \<open>Sessions\<close>, \<open>Domains\<close> (\<^verbatim>\<open>src/src/domain\<close>): buffered inputs, transactions, epochs, indices, compaction.
  \<^item> \<open>Scheduling\<close> (\<^verbatim>\<open>src/src/scheduling\<close>): the real-time and frontier queues of deferred activations.
  \<^item> \<open>Relations\<close> (\<^verbatim>\<open>src/src/lib.rs\<close>): relations over variables, projection and keying.
  \<^item> \<open>Plans\<close>, \<open>Plan_Nodes\<close>, \<open>Plan_Semantics\<close>, \<open>Pulls\<close>, \<open>Aggregates\<close>, \<open>Set_Aggregates\<close>, \<open>Transforms\<close> (\<^verbatim>\<open>src/src/plan\<close>): the plan language, its
    dependencies and bindings, and what each node builds and computes.
  \<^item> \<open>Plan_Order\<close>, \<open>Extender_Operators\<close>, \<open>Extend\<close>, \<open>Hector\<close>, \<open>Index_Semantics\<close>, \<open>Pipeline_Semantics\<close>, \<open>Hector_Semantics\<close>,
    \<open>Hector_Join\<close> (\<^verbatim>\<open>src/src/plan/hector.rs\<close>): worst-case optimal joins by delta queries.
  \<^item> \<open>Queries\<close> (\<^verbatim>\<open>src/src/plan/mod.rs\<close>): \<^verbatim>\<open>Plan::implement\<close>; \<open>Rules\<close>, \<open>Implementation\<close> (\<^verbatim>\<open>src/src/lib.rs\<close>): the dependency closure of a
    query and the construction of its dataflow; \<open>GraphQL\<close>, \<open>Derivation\<close>, \<open>Documents\<close>
    (\<^verbatim>\<open>src/src/plan/graphql.rs\<close>, \<^verbatim>\<open>src/src/derive\<close>, \<^verbatim>\<open>src/src/plan/graphql_v2.rs\<close>, \<^verbatim>\<open>src/src/plan/pull_v2.rs\<close>): queries, derived domains and
    documents written in GraphQL.
  \<^item> \<open>Last_Write_Wins\<close> (\<^verbatim>\<open>src/src/operators\<close>), \<open>Sources\<close>, \<open>Json_Source\<close>, \<open>Logging_Sources\<close> (\<^verbatim>\<open>src/src/sources\<close>), \<open>Sinks\<close>,
    \<open>Csv_Sink\<close> (\<^verbatim>\<open>src/src/sinks\<close>): input semantics, the CSV and JSON sources and the taps into the logs of the runtime, nested-map
    results and results as CSV files.
  \<^item> \<open>Server_State\<close> (\<^verbatim>\<open>src/src/server/mod.rs\<close>), \<open>Requests\<close>, \<open>Command_Line\<close> (\<^verbatim>\<open>src/server/src/main.rs\<close>), \<open>Networking\<close>
    (\<^verbatim>\<open>src/server/src/networking.rs\<close>): the state of a worker, every request, commands and the event loop, connections and
    the routing of results. \<open>Server_Properties\<close>, \<open>Server_Epochs\<close> and \<open>Interests\<close> hold what spans them: the invariant of all
    states the loop reaches, how epochs follow commands, and what an interest streams to its client.

  \<^bold>\<open>What is shown.\<close> A domain applies transactions and epochs as an unbuffered log would and compacts only behind its
  frontier. The extender operators answer every request once; extending a prefix computes the join whichever
  extender is nominated; the delta queries of \<^verbatim>\<open>Hector\<close> add up to the join of its bindings at every time. A well-formed
  plan denotes its first-order meaning, and the rules of a query denote the fixpoint that naive evaluation reaches.
  Aggregates, pulls, transforms, schedulers, sources, sinks, documents and timestamps do what their interfaces say; the two
  implementations of aggregation agree on sets. The bookkeeping
  of a worker is consistent in every state of its loop, disconnecting removes exactly one client, epochs count the
  commands, and clients are sent exactly the outputs addressed to them. A group of lemmas shows where
  the code does not: lost results over partially ordered times, orders that are never found, indices that miss tuples,
  epochs that go back, interests that fail silently, requests that stop a worker, sources and derivations limited to
  one attribute.

  \<^bold>\<open>Conventions.\<close> A panic is \<open>Inl\<close> of its message, a client error is \<open>Inl\<close> of an \<open>error\<close>, divergence is \<open>None\<close>. Loops that may
  not end (the search for a delta query order) are partial functions into \<open>option\<close>; all others are total, with no fuel.
  Integers are words of their width; they wrap, as in the release profile. Multiplicities are unbounded.
  The order in which a hash set is iterated is a parameter where it can matter.

  \<^bold>\<open>Parameters.\<close> Differential dataflow's stateful operators, trace imports, \<^verbatim>\<open>advance_by\<close>, consolidation and recursive
  variables, \<^verbatim>\<open>num_rational\<close>'s ratios, the probe, the parsers of GraphQL, CSV, JSON and command lines, the slab of
  connections and the sequencer of commands are not part of the sources. They are arguments of the definitions;
  what is used of them is stated as laws (\<open>ops_laws\<close>, \<open>consolidates\<close>, \<open>fed_back\<close>), which concrete instances satisfy.

  \<^bold>\<open>Not modelled.\<close> Sockets and websockets, logging and the replay of event logs are input and output; the
  command line client, experiments and examples only drive the library. The exchange of data between workers and the runtime of timely dataflow are outside the sources: a
  collection stands for the updates of all workers.
\<close>

end
